(* ===== verification/Enu_Prelude.thy ===== *)
theory Enu_Prelude
  imports Main "HOL-Library.Word" "HOL-Library.Multiset"
begin

text \<open>
  Shared vocabulary of the development: the names of the machine types, memory
  regions as byte lists with an explicit store at an offset, the \<^verbatim>\<open>errno\<close>
  values the sources test, and the generic list facts the components share.
  The collections \<open>buf_simps\<close> (memory regions) and \<open>enu_defs\<close> (small
  definitions every component unfolds) are extended by the components.
\<close>

named_theorems buf_simps \<open>rewriting of memory regions\<close>

named_theorems enu_defs \<open>small definitions that proofs unfold\<close>

section \<open>Machine types\<close>

type_synonym byte = "8 word"
type_synonym u16 = "16 word"
type_synonym u32 = "32 word"
type_synonym u64 = "64 word"
type_synonym fd = int

section \<open>Memory regions\<close>

text \<open>
  A region of memory is the list of its bytes. \<open>mem_store\<close> writes a run of bytes
  at an offset, as \<^verbatim>\<open>memcpy(buf + off, bs, n)\<close> does; \<open>mem_slice\<close> reads one.
\<close>

definition mem_store :: "nat \<Rightarrow> 'a list \<Rightarrow> 'a list \<Rightarrow> 'a list" where
  "mem_store off bs buf = take off buf @ bs @ drop (off + length bs) buf"

definition mem_slice :: "nat \<Rightarrow> nat \<Rightarrow> 'a list \<Rightarrow> 'a list" where
  "mem_slice off n buf = take n (drop off buf)"

lemma mem_store_Nil [simp, buf_simps]: "mem_store off [] buf = buf"
  by (simp add: mem_store_def)

lemma length_mem_store [simp, buf_simps]:
  "off + length bs \<le> length buf \<Longrightarrow> length (mem_store off bs buf) = length buf"
  by (simp add: mem_store_def)

lemma length_mem_slice [simp, buf_simps]:
  "off + n \<le> length buf \<Longrightarrow> length (mem_slice off n buf) = n"
  by (simp add: mem_slice_def)

lemma mem_slice_0 [simp, buf_simps]: "mem_slice off 0 buf = []"
  by (simp add: mem_slice_def)

lemma take_mem_store [buf_simps]:
  "k \<le> off \<Longrightarrow> off \<le> length buf \<Longrightarrow> take k (mem_store off bs buf) = take k buf"
  by (simp add: mem_store_def min_def)

lemma drop_mem_store [buf_simps]:
  "off + length bs \<le> k \<Longrightarrow> off \<le> length buf \<Longrightarrow> drop k (mem_store off bs buf) = drop k buf"
  by (simp add: mem_store_def)

lemma take_mem_store_end [buf_simps]:
  "off \<le> length buf \<Longrightarrow> take (off + length bs) (mem_store off bs buf) = take off buf @ bs"
  by (simp add: mem_store_def)

lemma mem_slice_store [buf_simps]:
  "off \<le> length buf \<Longrightarrow> mem_slice off (length bs) (mem_store off bs buf) = bs"
  by (simp add: mem_slice_def mem_store_def)

lemma mem_store_store [buf_simps]:
  "off + length xs + length ys \<le> length buf \<Longrightarrow>
   mem_store (off + length xs) ys (mem_store off xs buf) = mem_store off (xs @ ys) buf"
  by (simp add: mem_store_def ac_simps)

section \<open>System call results\<close>

text \<open>
  A system call returns a value or fails with an \<^verbatim>\<open>errno\<close>; \<open>Inl\<close> is the
  failure. The values are the ones the sources compare with, and the rest.
\<close>

datatype errno =
    EINTR | EAGAIN | EWOULDBLOCK | ECONNREFUSED | ENETUNREACH | EHOSTUNREACH | ETIMEDOUT
  | Eother nat

type_synonym 'a sysret = "errno + 'a"

section \<open>Computations that may stop or not return\<close>

text \<open>
  \<open>None\<close> is a computation that does not return, \<open>Some (Inl e)\<close> one that stops with
  \<open>e\<close>, \<open>Some (Inr x)\<close> one that goes on with \<open>x\<close>.
\<close>

definition and_then :: "('e + 'a) option \<Rightarrow> ('a \<Rightarrow> ('e + 'b) option) \<Rightarrow> ('e + 'b) option" where
  "and_then m f = (case m of None \<Rightarrow> None | Some (Inl e) \<Rightarrow> Some (Inl e) | Some (Inr x) \<Rightarrow> f x)"

lemma and_then_simps [simp]:
  "and_then None f = None" "and_then (Some (Inl e)) f = Some (Inl e)"
  "and_then (Some (Inr x)) f = f x"
  by (simp_all add: and_then_def)

lemma and_then_Inr:
  "and_then m f = Some (Inr y) \<longleftrightarrow> (\<exists>x. m = Some (Inr x) \<and> f x = Some (Inr y))"
  by (auto simp: and_then_def split: option.splits sum.splits)

section \<open>Transition systems\<close>

text \<open>
  A step relation with a property that every step keeps: the components whose operations come
  in any order interpret this with their steps and their invariant.
\<close>

locale transition =
  fixes step :: "'s \<Rightarrow> 's \<Rightarrow> bool" and good :: "'s \<Rightarrow> bool"
  assumes step_good: "good s \<Longrightarrow> step s s' \<Longrightarrow> good s'"
begin

lemma run_good: "step\<^sup>*\<^sup>* s s' \<Longrightarrow> good s \<Longrightarrow> good s'"
  by (induction rule: rtranclp_induct) (auto intro: step_good)

text \<open>What a kept property rules out never happens on a run.\<close>

lemma run_never: "step\<^sup>*\<^sup>* s s' \<Longrightarrow> good s \<Longrightarrow> (\<And>x. good x \<Longrightarrow> \<not> bad x) \<Longrightarrow> \<not> bad s'"
  using run_good by blast

end

section \<open>Strings\<close>

text \<open>What a C function sees of a byte string: the bytes before the first NUL.\<close>

definition c_str :: "byte list \<Rightarrow> byte list" where
  "c_str bs = takeWhile (\<lambda>b. b \<noteq> 0) bs"

text \<open>The bytes of a string.\<close>

definition bytes_of :: "string \<Rightarrow> byte list" where
  "bytes_of s = map of_char s"

section \<open>Generic list facts\<close>

lemma take_drop_append_take [simp]:
  "take a xs @ take b (drop a xs) = take (a + b) xs"
  by (simp add: take_add)

end
