(* ===== verification/Net_IO.thy ===== *)
theory Net_IO
  imports Enu_Prelude
begin

text \<open>
  The transfer loops of \<^verbatim>\<open>enu/net.h\<close>: \<open>read_partial\<close>, \<open>write_partial\<close> and
  their \<open>_exact\<close> variants. The system calls \<^verbatim>\<open>read\<close> and \<^verbatim>\<open>write\<close> are
  parameters over an arbitrary state of the world \<open>'w\<close>. A loop may retry for ever
  on a transient error, so the loops are partial functions: \<open>None\<close> is "does not
  return". Both loops are instances of one locale, in which the bounds, an
  invariant rule and termination are proved once.
\<close>

section \<open>Data (net.h)\<close>

datatype IOKind = IO_Ok | IO_Fail

record IOResult =
  io_kind :: IOKind
  n_bytes :: nat

definition io_bool :: "IOResult \<Rightarrow> bool" where
  "io_bool r \<longleftrightarrow> io_kind r = IO_Ok"

definition MAX_RW_SIZE :: nat where
  "MAX_RW_SIZE = 2147483647"

text \<open>The condition under which both loops \<^verbatim>\<open>continue\<close>.\<close>

definition transient :: "errno \<Rightarrow> bool" where
  "transient e \<longleftrightarrow> e = EINTR \<or> e = EAGAIN \<or> e = EWOULDBLOCK"

type_synonym 'w sys_write = "'w \<Rightarrow> fd \<Rightarrow> byte list \<Rightarrow> nat sysret \<times> 'w"
type_synonym 'w sys_read = "'w \<Rightarrow> fd \<Rightarrow> nat \<Rightarrow> byte list sysret \<times> 'w"

section \<open>Operations (net.h)\<close>

partial_function (option) write_loop ::
  "'w sys_write \<Rightarrow> fd \<Rightarrow> byte list \<Rightarrow> nat \<Rightarrow> nat \<Rightarrow> 'w \<Rightarrow> (IOResult \<times> 'w) option" where
  "write_loop wr fd buf len off w =
     (if off < len then
        (case wr w fd (mem_slice off (min MAX_RW_SIZE (len - off)) buf) of
           (Inr b_wrote, w') \<Rightarrow>
             if b_wrote = 0 then Some (\<lparr>io_kind = IO_Ok, n_bytes = off\<rparr>, w')
             else write_loop wr fd buf len (off + b_wrote) w'
         | (Inl e, w') \<Rightarrow>
             if transient e then write_loop wr fd buf len off w'
             else Some (\<lparr>io_kind = IO_Fail, n_bytes = off\<rparr>, w'))
      else Some (\<lparr>io_kind = IO_Ok, n_bytes = off\<rparr>, w))"

definition write_partial ::
  "'w sys_write \<Rightarrow> fd \<Rightarrow> byte list \<Rightarrow> nat \<Rightarrow> 'w \<Rightarrow> (IOResult \<times> 'w) option" where
  "write_partial wr fd buf len w = write_loop wr fd buf len 0 w"

text \<open>The tail both \<open>_exact\<close> functions share: a short count turns the result into a failure.\<close>

definition exact_result :: "nat \<Rightarrow> IOResult \<Rightarrow> IOResult" where
  "exact_result len r = (if n_bytes r \<noteq> len then r\<lparr>io_kind := IO_Fail\<rparr> else r)"

definition write_exact ::
  "'w sys_write \<Rightarrow> fd \<Rightarrow> byte list \<Rightarrow> nat \<Rightarrow> 'w \<Rightarrow> (IOResult \<times> 'w) option" where
  "write_exact wr fd buf len w =
     map_option (\<lambda>(r, w'). (exact_result len r, w')) (write_partial wr fd buf len w)"

text \<open>
  \<^verbatim>\<open>read_partial(fd, p, len)\<close> fills memory at \<^verbatim>\<open>p\<close>, which callers compute
  as an offset \<open>base\<close> into a region; the region is part of the state.
\<close>

partial_function (option) read_loop ::
  "'w sys_read \<Rightarrow> fd \<Rightarrow> nat \<Rightarrow> nat \<Rightarrow> nat \<Rightarrow> byte list \<times> 'w \<Rightarrow>
   (IOResult \<times> byte list \<times> 'w) option" where
  "read_loop rd fd base len off s =
     (case s of (buf, w) \<Rightarrow>
      if off < len then
        (case rd w fd (min MAX_RW_SIZE (len - off)) of
           (Inr bs, w') \<Rightarrow>
             if length bs = 0 then Some (\<lparr>io_kind = IO_Ok, n_bytes = off\<rparr>, buf, w')
             else read_loop rd fd base len (off + length bs) (mem_store (base + off) bs buf, w')
         | (Inl e, w') \<Rightarrow>
             if transient e then read_loop rd fd base len off (buf, w')
             else Some (\<lparr>io_kind = IO_Fail, n_bytes = off\<rparr>, buf, w'))
      else Some (\<lparr>io_kind = IO_Ok, n_bytes = off\<rparr>, buf, w))"

definition read_partial ::
  "'w sys_read \<Rightarrow> fd \<Rightarrow> byte list \<Rightarrow> nat \<Rightarrow> nat \<Rightarrow> 'w \<Rightarrow>
   (IOResult \<times> byte list \<times> 'w) option" where
  "read_partial rd fd buf base len w = read_loop rd fd base len 0 (buf, w)"

definition read_exact ::
  "'w sys_read \<Rightarrow> fd \<Rightarrow> byte list \<Rightarrow> nat \<Rightarrow> nat \<Rightarrow> 'w \<Rightarrow>
   (IOResult \<times> byte list \<times> 'w) option" where
  "read_exact rd fd buf base len w =
     map_option (\<lambda>(r, s). (exact_result len r, s)) (read_partial rd fd buf base len w)"

section \<open>The contract both loops share\<close>

text \<open>
  One turn of a transfer loop, over the call \<open>step off n s\<close> that transfers at most
  \<open>n\<close> units at offset \<open>off\<close>.
\<close>

definition xfer_body ::
  "(nat \<Rightarrow> nat \<Rightarrow> 's \<Rightarrow> nat sysret \<times> 's) \<Rightarrow> nat \<Rightarrow>
   (nat \<Rightarrow> 's \<Rightarrow> (IOResult \<times> 's) option) \<Rightarrow> nat \<Rightarrow> 's \<Rightarrow> (IOResult \<times> 's) option" where
  "xfer_body step len loop off s =
     (if off < len then
        (case step off (min MAX_RW_SIZE (len - off)) s of
           (Inr k, s') \<Rightarrow>
             if k = 0 then Some (\<lparr>io_kind = IO_Ok, n_bytes = off\<rparr>, s') else loop (off + k) s'
         | (Inl e, s') \<Rightarrow>
             if transient e then loop off s'
             else Some (\<lparr>io_kind = IO_Fail, n_bytes = off\<rparr>, s'))
      else Some (\<lparr>io_kind = IO_Ok, n_bytes = off\<rparr>, s))"

locale xfer_loop =
  fixes loop :: "nat \<Rightarrow> nat \<Rightarrow> 's \<Rightarrow> (IOResult \<times> 's) option"
    and step :: "nat \<Rightarrow> nat \<Rightarrow> 's \<Rightarrow> nat sysret \<times> 's"
  assumes loop_unfold: "loop len off s = xfer_body step len (loop len) off s"
    and loop_induct:
      "loop len off s = Some r \<Longrightarrow>
       (\<And>f off s r. (\<And>off s r. f off s = Some r \<Longrightarrow> P off s r) \<Longrightarrow>
          xfer_body step len f off s = Some r \<Longrightarrow> P off s r) \<Longrightarrow>
       P off s r"
begin

text \<open>
  The invariant rule: a property of offset and state that every successful and
  every failing call keeps holds of what the loop returns.
\<close>

lemma loop_invariant:
  assumes ret: "loop len off s = Some (r, s')"
    and init: "off \<le> len" "I off s"
    and ok: "\<And>off n s k s'. off < len \<Longrightarrow> n = min MAX_RW_SIZE (len - off) \<Longrightarrow> I off s \<Longrightarrow>
               step off n s = (Inr k, s') \<Longrightarrow> k \<le> n \<and> I (off + k) s'"
    and err: "\<And>off n s e s'. off < len \<Longrightarrow> I off s \<Longrightarrow> step off n s = (Inl e, s') \<Longrightarrow> I off s'"
  shows "off \<le> n_bytes r \<and> n_bytes r \<le> len \<and> I (n_bytes r) s' \<and>
         (io_kind r = IO_Fail \<longrightarrow> n_bytes r < len)"
proof -
  define P where "P = (\<lambda>off s (q :: IOResult \<times> _). off \<le> len \<longrightarrow> I off s \<longrightarrow>
     off \<le> n_bytes (fst q) \<and> n_bytes (fst q) \<le> len \<and> I (n_bytes (fst q)) (snd q) \<and>
     (io_kind (fst q) = IO_Fail \<longrightarrow> n_bytes (fst q) < len))"
  have "P off s (r, s')"
    using ret
  proof (rule loop_induct)
    fix f off s q
    assume IH: "\<And>off s q. f off s = Some q \<Longrightarrow> P off s q"
      and eq: "xfer_body step len f off s = Some q"
    show "P off s q"
      unfolding P_def
    proof (intro impI)
      assume le: "off \<le> len" and I: "I off s"
      show "off \<le> n_bytes (fst q) \<and> n_bytes (fst q) \<le> len \<and> I (n_bytes (fst q)) (snd q) \<and>
            (io_kind (fst q) = IO_Fail \<longrightarrow> n_bytes (fst q) < len)"
      proof (cases "off < len")
        case False
        with eq le I show ?thesis by (auto simp: xfer_body_def)
      next
        case True
        obtain a t where st: "step off (min MAX_RW_SIZE (len - off)) s = (a, t)" by fastforce
        show ?thesis
        proof (cases a)
          case (Inl e)
          with st have It: "I off t" using err True I by blast
          show ?thesis
          proof (cases "transient e")
            case True
            with eq st Inl \<open>off < len\<close> have "f off t = Some q" by (simp add: xfer_body_def)
            from IH [OF this] It le show ?thesis by (simp add: P_def)
          next
            case False
            with eq st Inl True It le show ?thesis by (auto simp: xfer_body_def)
          qed
        next
          case (Inr k)
          with st ok [OF True refl I] have k: "k \<le> min MAX_RW_SIZE (len - off)" "I (off + k) t"
            by auto
          show ?thesis
          proof (cases "k = 0")
            case True
            with eq st Inr \<open>off < len\<close> k show ?thesis by (auto simp: xfer_body_def)
          next
            case False
            with eq st Inr \<open>off < len\<close> have "f (off + k) t = Some q" by (simp add: xfer_body_def)
            from IH [OF this] k \<open>off < len\<close> show ?thesis by (auto simp: P_def)
          qed
        qed
      qed
    qed
  qed
  with init show ?thesis by (simp add: P_def)
qed

text \<open>
  Termination: if every transient failure decreases some measure of the state, the
  loop returns. Successful calls need no measure: they shorten what is left.
\<close>

lemma loop_returns:
  assumes "\<And>off n s e s'. step off n s = (Inl e, s') \<Longrightarrow> transient e \<Longrightarrow> m s' < (m s :: nat)"
  shows "\<exists>r s'. loop len off s = Some (r, s')"
proof (induction "(len - off, m s)" arbitrary: off s rule: wf_induct_rule
    [OF wf_lex_prod [OF wf_less_than wf_less_than]])
  case 1
  show ?case
  proof (cases "off < len")
    case False
    then show ?thesis by (subst loop_unfold) (simp add: xfer_body_def)
  next
    case True
    obtain a t where st: "step off (min MAX_RW_SIZE (len - off)) s = (a, t)" by fastforce
    show ?thesis
    proof (cases a)
      case (Inl e)
      show ?thesis
      proof (cases "transient e")
        case True
        with st Inl assms have "m t < m s" by blast
        then have "\<exists>r s'. loop len off t = Some (r, s')" using 1 by simp
        with True st Inl \<open>off < len\<close> show ?thesis
          by (subst loop_unfold) (simp add: xfer_body_def)
      next
        case False
        with st Inl True show ?thesis by (subst loop_unfold) (simp add: xfer_body_def)
      qed
    next
      case (Inr k)
      show ?thesis
      proof (cases "k = 0")
        case True
        with st Inr \<open>off < len\<close> show ?thesis
          by (subst loop_unfold) (simp add: xfer_body_def)
      next
        case False
        with \<open>off < len\<close> have "len - (off + k) < len - off" by simp
        then have "\<exists>r s'. loop len (off + k) t = Some (r, s')" using 1 by simp
        with False st Inr True show ?thesis
          by (subst loop_unfold) (simp add: xfer_body_def)
      qed
    qed
  qed
qed

end


section \<open>Both loops satisfy the contract\<close>

definition write_step ::
  "'w sys_write \<Rightarrow> fd \<Rightarrow> byte list \<Rightarrow> nat \<Rightarrow> nat \<Rightarrow> 'w \<Rightarrow> nat sysret \<times> 'w" where
  "write_step wr fd buf off n w = wr w fd (mem_slice off n buf)"

definition read_step ::
  "'w sys_read \<Rightarrow> fd \<Rightarrow> nat \<Rightarrow> nat \<Rightarrow> nat \<Rightarrow> byte list \<times> 'w \<Rightarrow> nat sysret \<times> byte list \<times> 'w" where
  "read_step rd fd base off n s =
     (case s of (buf, w) \<Rightarrow>
        (case rd w fd n of
           (Inr bs, w') \<Rightarrow> (Inr (length bs), mem_store (base + off) bs buf, w')
         | (Inl e, w') \<Rightarrow> (Inl e, buf, w')))"

lemma write_loop_body:
  "write_loop wr fd buf len off w =
   xfer_body (write_step wr fd buf) len (write_loop wr fd buf len) off w"
  by (subst write_loop.simps) (simp add: xfer_body_def write_step_def)

lemma read_loop_body:
  "read_loop rd fd base len off s =
   xfer_body (read_step rd fd base) len (read_loop rd fd base len) off s"
  by (subst read_loop.simps)
    (auto simp: xfer_body_def read_step_def split: prod.splits sum.splits)

interpretation wl: xfer_loop "write_loop wr fd buf" "write_step wr fd buf" for wr fd buf
proof
  show "write_loop wr fd buf len off s =
        xfer_body (write_step wr fd buf) len (write_loop wr fd buf len) off s" for len off s
    by (rule write_loop_body)
next
  fix len off s r P
  assume ret: "write_loop wr fd buf len off s = Some r"
    and step: "\<And>f off s r. (\<And>off s r. f off s = Some r \<Longrightarrow> P off s r) \<Longrightarrow>
                xfer_body (write_step wr fd buf) len f off s = Some r \<Longrightarrow> P off s r"
  let ?Q = "\<lambda>wr' fd' buf' len' off s r.
    wr' = wr \<longrightarrow> fd' = fd \<longrightarrow> buf' = buf \<longrightarrow> len' = len \<longrightarrow> P off s r"
  have "?Q wr fd buf len off s r"
  proof (rule write_loop.raw_induct [where P = ?Q, OF _ ret], intro impI, goal_cases)
    case (1 f wr' fd' buf' len' off s r)
    have IH: "f wr fd buf len off s = Some r \<Longrightarrow> P off s r" for off s r
      using 1(1) by blast
    show ?case
      by (rule step [of "f wr fd buf len", OF IH])
        (use 1(2-6) in \<open>auto simp: xfer_body_def write_step_def split: prod.splits sum.splits\<close>)
  qed
  then show "P off s r" by simp
qed

interpretation rl: xfer_loop "read_loop rd fd base" "read_step rd fd base" for rd fd base
proof
  show "read_loop rd fd base len off s =
        xfer_body (read_step rd fd base) len (read_loop rd fd base len) off s" for len off s
    by (rule read_loop_body)
next
  fix len off s r P
  assume ret: "read_loop rd fd base len off s = Some r"
    and step: "\<And>f off s r. (\<And>off s r. f off s = Some r \<Longrightarrow> P off s r) \<Longrightarrow>
                xfer_body (read_step rd fd base) len f off s = Some r \<Longrightarrow> P off s r"
  let ?Q = "\<lambda>rd' fd' base' len' off s r.
    rd' = rd \<longrightarrow> fd' = fd \<longrightarrow> base' = base \<longrightarrow> len' = len \<longrightarrow> P off s r"
  have "?Q rd fd base len off s r"
  proof (rule read_loop.raw_induct [where P = ?Q, OF _ ret], intro impI, goal_cases)
    case (1 f rd' fd' base' len' off s r)
    have IH: "f rd fd base len off s = Some r \<Longrightarrow> P off s r" for off s r
      using 1(1) by blast
    show ?case
      by (rule step [of "f rd fd base len", OF IH])
        (use 1(2-6) in \<open>auto simp: xfer_body_def read_step_def split: prod.splits sum.splits\<close>)
  qed
  then show "P off s r" by simp
qed


section \<open>What the code relies on of \<^verbatim>\<open>read\<close> and \<^verbatim>\<open>write\<close>\<close>

text \<open>
  The documented behaviour of the two system calls, over the bytes \<open>inp w fd\<close> still
  to be read from a descriptor and the bytes \<open>out w fd\<close> already accepted by one: a
  successful call transfers a prefix of at most the requested length, and a failing
  call transfers nothing.
\<close>

definition reads_stream :: "'w sys_read \<Rightarrow> ('w \<Rightarrow> fd \<Rightarrow> byte list) \<Rightarrow> bool" where
  "reads_stream rd inp \<longleftrightarrow>
     (\<forall>w fd n bs w'. rd w fd n = (Inr bs, w') \<longrightarrow>
        length bs \<le> n \<and> inp w fd = bs @ inp w' fd) \<and>
     (\<forall>w fd n e w'. rd w fd n = (Inl e, w') \<longrightarrow> inp w' fd = inp w fd)"

definition writes_stream :: "'w sys_write \<Rightarrow> ('w \<Rightarrow> fd \<Rightarrow> byte list) \<Rightarrow> bool" where
  "writes_stream wr out \<longleftrightarrow>
     (\<forall>w fd bs k w'. wr w fd bs = (Inr k, w') \<longrightarrow>
        k \<le> length bs \<and> out w' fd = out w fd @ take k bs) \<and>
     (\<forall>w fd bs e w'. wr w fd bs = (Inl e, w') \<longrightarrow> out w' fd = out w fd)"

text \<open>A call that fails transiently does so only finitely often in a row.\<close>

definition transient_bounded :: "('w \<Rightarrow> 'q \<Rightarrow> 'r sysret \<times> 'w) \<Rightarrow> ('w \<Rightarrow> nat) \<Rightarrow> bool" where
  "transient_bounded call m \<longleftrightarrow>
     (\<forall>w q e w'. call w q = (Inl e, w') \<longrightarrow> transient e \<longrightarrow> m w' < m w)"

text \<open>
  A scripted kernel that satisfies the three hypotheses, for the witnesses: each entry
  of the script fails a call or bounds what it transfers; with no script left the
  calls transfer all they can.
\<close>

type_synonym sim = "(errno + nat) list \<times> byte list"

fun sim_read :: "sim sys_read" where
  "sim_read ([], st) fd n = (Inr (take n st), [], drop n st)"
| "sim_read (Inl e # sc, st) fd n = (Inl e, sc, st)"
| "sim_read (Inr k # sc, st) fd n = (Inr (take (min k n) st), sc, drop (min k n) st)"

fun sim_write :: "sim sys_write" where
  "sim_write ([], st) fd bs = (Inr (length bs), [], st @ bs)"
| "sim_write (Inl e # sc, st) fd bs = (Inl e, sc, st)"
| "sim_write (Inr k # sc, st) fd bs = (Inr (min k (length bs)), sc, st @ take k bs)"

lemma sim_read_stream: "reads_stream sim_read (\<lambda>w fd. snd w)"
  unfolding reads_stream_def
  by (intro conjI allI impI; elim sim_read.elims) auto

lemma sim_write_stream: "writes_stream sim_write (\<lambda>w fd. snd w)"
  unfolding writes_stream_def
  by (intro conjI allI impI; elim sim_write.elims) (auto simp: min_def)

lemma sim_read_bounded: "transient_bounded (\<lambda>w (fd, n). sim_read w fd n) (\<lambda>w. length (fst w))"
  unfolding transient_bounded_def
  by (auto elim!: sim_read.elims)

lemma sim_write_bounded: "transient_bounded (\<lambda>w (fd, bs). sim_write w fd bs) (\<lambda>w. length (fst w))"
  unfolding transient_bounded_def
  by (auto elim!: sim_write.elims)

section \<open>Helper lemmas for the properties\<close>

lemma reads_streamD:
  assumes "reads_stream rd inp"
  shows "rd w fd n = (Inr bs, w') \<Longrightarrow> length bs \<le> n \<and> inp w fd = bs @ inp w' fd"
    and "rd w fd n = (Inl e, w') \<Longrightarrow> inp w' fd = inp w fd"
  using assms by (simp_all add: reads_stream_def)

lemma writes_streamD:
  assumes "writes_stream wr out"
  shows "wr w fd bs = (Inr k, w') \<Longrightarrow> k \<le> length bs \<and> out w' fd = out w fd @ take k bs"
    and "wr w fd bs = (Inl e, w') \<Longrightarrow> out w' fd = out w fd"
  using assms by (simp_all add: writes_stream_def)

text \<open>One successful call in the middle of a transfer extends the part already stored.\<close>

lemma read_chunk_extends:
  assumes split: "drop off st = bs @ rest" and off: "off \<le> length st"
    and fits: "base + off + length bs \<le> length buf"
  shows "off + length bs \<le> length st" "rest = drop (off + length bs) st"
    "mem_store (base + off) bs (mem_store base (take off st) buf) =
     mem_store base (take (off + length bs) st) buf"
proof -
  from split have "length (drop off st) = length bs + length rest" by simp
  with off show "off + length bs \<le> length st" by simp
  have "drop (length bs) (drop off st) = rest" by (simp add: split)
  then show "rest = drop (off + length bs) st" by (simp add: add.commute)
  have bs: "take (length bs) (drop off st) = bs" by (simp add: split)
  have "mem_store (base + length (take off st)) bs (mem_store base (take off st) buf) =
        mem_store base (take off st @ bs) buf"
    using off fits by (intro mem_store_store) simp
  also have "take off st @ bs = take (off + length bs) st"
    by (metis bs take_add)
  finally show "mem_store (base + off) bs (mem_store base (take off st) buf) =
     mem_store base (take (off + length bs) st) buf"
    using off by simp
qed

lemma read_partial_stream:
  assumes rd: "reads_stream rd inp" and fits: "base + len \<le> length buf"
    and ret: "read_partial rd fd buf base len w = Some (r, buf', w')"
  shows "n_bytes r \<le> len \<and> n_bytes r \<le> length (inp w fd) \<and>
         buf' = mem_store base (take (n_bytes r) (inp w fd)) buf \<and>
         inp w' fd = drop (n_bytes r) (inp w fd) \<and> (io_kind r = IO_Fail \<longrightarrow> n_bytes r < len)"
proof -
  define I where "I = (\<lambda>off (b, v). off \<le> length (inp w fd) \<and>
    b = mem_store base (take off (inp w fd)) buf \<and> inp v fd = drop off (inp w fd))"
  have "0 \<le> n_bytes r \<and> n_bytes r \<le> len \<and> I (n_bytes r) (buf', w') \<and>
        (io_kind r = IO_Fail \<longrightarrow> n_bytes r < len)"
  proof (rule rl.loop_invariant [where I = I])
    show "read_loop rd fd base len 0 (buf, w) = Some (r, buf', w')"
      using ret by (simp add: read_partial_def)
    show "0 \<le> len" "I 0 (buf, w)" by (simp_all add: I_def)
  next
    fix off n s k s'
    assume "off < len" and n: "n = min MAX_RW_SIZE (len - off)" and I: "I off s"
      and st: "read_step rd fd base off n s = (Inr k, s')"
    obtain b v where s: "s = (b, v)" by fastforce
    from st s obtain bs v' where rd': "rd v fd n = (Inr bs, v')" and k: "k = length bs"
      and s': "s' = (mem_store (base + off) bs b, v')"
      by (auto simp: read_step_def split: prod.splits sum.splits)
    from reads_streamD(1) [OF rd rd'] have "length bs \<le> n" and "inp v fd = bs @ inp v' fd"
      by auto
    moreover from this(2) I s have "drop off (inp w fd) = bs @ inp v' fd" "off \<le> length (inp w fd)"
      by (auto simp: I_def)
    moreover have "base + off + length bs \<le> length buf"
      using \<open>length bs \<le> n\<close> n \<open>off < len\<close> fits by linarith
    ultimately show "k \<le> n \<and> I (off + k) s'"
      using read_chunk_extends [of off "inp w fd" bs "inp v' fd" base buf] I
      by (simp add: I_def s s' k)
  next
    fix off n s e s'
    assume "I off s" and "read_step rd fd base off n s = (Inl e, s')"
    then show "I off s'"
      by (auto simp: I_def read_step_def reads_streamD(2) [OF rd] split: prod.splits sum.splits)
  qed
  then show ?thesis by (simp add: I_def)
qed

lemma write_partial_stream:
  assumes wr: "writes_stream wr out" and fits: "len \<le> length buf"
    and ret: "write_partial wr fd buf len w = Some (r, w')"
  shows "n_bytes r \<le> len \<and> out w' fd = out w fd @ take (n_bytes r) buf \<and>
         (io_kind r = IO_Fail \<longrightarrow> n_bytes r < len)"
proof -
  define I where "I = (\<lambda>off v. out v fd = out w fd @ take off buf)"
  have "0 \<le> n_bytes r \<and> n_bytes r \<le> len \<and> I (n_bytes r) w' \<and>
        (io_kind r = IO_Fail \<longrightarrow> n_bytes r < len)"
  proof (rule wl.loop_invariant [where I = I])
    show "write_loop wr fd buf len 0 w = Some (r, w')"
      using ret by (simp add: write_partial_def)
    show "0 \<le> len" "I 0 w" by (simp_all add: I_def)
  next
    fix off n s k s'
    assume "off < len" and n: "n = min MAX_RW_SIZE (len - off)" and I: "I off s"
      and st: "write_step wr fd buf off n s = (Inr k, s')"
    from writes_streamD(1) [OF wr st [unfolded write_step_def]]
    have k: "k \<le> length (mem_slice off n buf)"
      and out: "out s' fd = out s fd @ take k (mem_slice off n buf)" by auto
    from k have "k \<le> n" by (simp add: mem_slice_def)
    then have "take k (mem_slice off n buf) = take k (drop off buf)"
      by (simp add: mem_slice_def min_def)
    with out I \<open>k \<le> n\<close> show "k \<le> n \<and> I (off + k) s'"
      by (simp add: I_def)
  next
    fix off n s e s'
    assume "I off s" and "write_step wr fd buf off n s = (Inl e, s')"
    then show "I off s'"
      by (simp add: I_def write_step_def writes_streamD(2) [OF wr])
  qed
  then show ?thesis by (simp add: I_def)
qed

lemma read_partial_total:
  assumes "transient_bounded (\<lambda>w (fd, n). rd w fd n) m"
  shows "\<exists>r buf' w'. read_partial rd fd buf base len w = Some (r, buf', w')"
proof -
  have "\<exists>r s'. read_loop rd fd base len 0 (buf, w) = Some (r, s')"
  proof (rule rl.loop_returns [where m = "\<lambda>(b, v). m v"])
    fix off n s e s'
    assume "read_step rd fd base off n s = (Inl e, s')" and "transient e"
    then show "(case s' of (b, v) \<Rightarrow> m v) < (case s of (b, v) \<Rightarrow> m v)"
      using assms by (fastforce simp: read_step_def transient_bounded_def split: prod.splits sum.splits)
  qed
  then show ?thesis by (auto simp: read_partial_def)
qed

lemma write_partial_total:
  assumes "transient_bounded (\<lambda>w (fd, bs). wr w fd bs) m"
  shows "\<exists>r w'. write_partial wr fd buf len w = Some (r, w')"
  unfolding write_partial_def
proof (rule wl.loop_returns [where m = m])
  fix off n s e s'
  assume "write_step wr fd buf off n s = (Inl e, s')" and "transient e"
  then show "m s' < m s"
    using assms by (fastforce simp: write_step_def transient_bounded_def)
qed

section \<open>Properties\<close>

text \<open>C12. \<open>read_partial\<close> stores, at the address it is given, exactly the next bytes of the
  descriptor's stream: the count it reports is at most the requested length, the
  region outside the bytes read is unchanged, the stream advances by that count, and
  a failure is reported only for a short count. Retries on \<^verbatim>\<open>EINTR\<close>/\<^verbatim>\<open>EAGAIN\<close>
  and the splitting into several calls are invisible.\<close>

theorem read_partial_delivers:
  assumes "reads_stream rd inp" and "base + len \<le> length buf"
    and "read_partial rd fd buf base len w = Some (r, buf', w')"
  shows "n_bytes r \<le> len \<and> n_bytes r \<le> length (inp w fd) \<and>
         buf' = mem_store base (take (n_bytes r) (inp w fd)) buf \<and>
         inp w' fd = drop (n_bytes r) (inp w fd) \<and> (io_kind r = IO_Fail \<longrightarrow> n_bytes r < len)"
  using assms by (rule read_partial_stream)

lemma sim_read_run:
  "read_partial sim_read 3 [0, 0, 0, 0, 0, 0] 1 4 ([Inl EINTR, Inr 2, Inl EAGAIN], [1, 2, 3, 4, 5]) =
   Some (\<lparr>io_kind = IO_Ok, n_bytes = 4\<rparr>, [0, 1, 2, 3, 4, 0], [], [5])"
  by (simp add: read_partial_def read_loop.simps transient_def MAX_RW_SIZE_def mem_store_def)

theorem read_partial_delivers_witness:
  "reads_stream sim_read (\<lambda>w fd. snd w) \<and>
   read_partial sim_read 3 [0, 0, 0, 0, 0, 0] 1 4 ([Inl EINTR, Inr 2, Inl EAGAIN], [1, 2, 3, 4, 5]) =
     Some (\<lparr>io_kind = IO_Ok, n_bytes = 4\<rparr>, [0, 1, 2, 3, 4, 0], [], [5]) \<and>
   [0, 1, 2, 3, 4, 0] = mem_store 1 (take 4 [1, 2, 3, 4, 5]) [0, 0, 0, 0, 0, 0 :: byte]"
  using read_partial_delivers [OF sim_read_stream _ sim_read_run] sim_read_stream sim_read_run
  by simp

text \<open>C13. \<open>write_exact\<close> is all or fail: it reports success exactly when its count is the whole
  length, in which case the descriptor has accepted exactly the buffer; otherwise the
  descriptor has accepted a proper prefix of it, whose length is the count reported.\<close>

theorem write_exact_all_or_fail:
  assumes "writes_stream wr out" and "len \<le> length buf"
    and "write_exact wr fd buf len w = Some (r, w')"
  shows "(io_bool r \<longleftrightarrow> n_bytes r = len) \<and> n_bytes r \<le> len \<and>
         out w' fd = out w fd @ take (n_bytes r) buf"
proof -
  from assms(3) obtain q where q: "write_partial wr fd buf len w = Some (q, w')"
    and r: "r = exact_result len q"
    by (auto simp: write_exact_def)
  have n: "n_bytes r = n_bytes q" by (simp add: r exact_result_def)
  have "io_bool r \<longleftrightarrow> n_bytes q = len \<and> io_kind q = IO_Ok"
    by (auto simp: r io_bool_def exact_result_def)
  then show ?thesis
    using write_partial_stream [OF assms(1,2) q] n by (cases "io_kind q") auto
qed

lemma sim_write_run:
  "write_exact sim_write 3 [1, 2, 3] 3 ([Inr 2, Inl EAGAIN, Inl (Eother 32)], [9]) =
   Some (\<lparr>io_kind = IO_Fail, n_bytes = 2\<rparr>, [], [9, 1, 2])"
  by (simp add: write_exact_def exact_result_def write_partial_def write_loop.simps transient_def
      MAX_RW_SIZE_def mem_slice_def)

theorem write_exact_all_or_fail_witness:
  "writes_stream sim_write (\<lambda>w fd. snd w) \<and>
   write_exact sim_write 3 [1, 2, 3] 3 ([Inr 2, Inl EAGAIN, Inl (Eother 32)], [9]) =
     Some (\<lparr>io_kind = IO_Fail, n_bytes = 2\<rparr>, [], [9, 1, 2]) \<and>
   \<not> io_bool \<lparr>io_kind = IO_Fail, n_bytes = 2\<rparr>"
  using write_exact_all_or_fail [OF sim_write_stream _ sim_write_run] sim_write_stream sim_write_run
  by simp

text \<open>C14. Both loops return, for every request, whenever transient failures cannot go on for
  ever; no other assumption about the kernel is needed, not even that a call transfers
  at most what was asked.\<close>

theorem transfer_loops_return:
  assumes "transient_bounded (\<lambda>w (fd, n). rd w fd n) m"
    and "transient_bounded (\<lambda>w (fd, bs). wr w fd bs) m"
  shows "(\<exists>r buf' w'. read_exact rd fd buf base len w = Some (r, buf', w')) \<and>
         (\<exists>r w'. write_exact wr fd buf len w = Some (r, w'))"
  using read_partial_total [OF assms(1), of fd buf base len w]
    write_partial_total [OF assms(2), of fd buf len w]
  by (auto simp: read_exact_def write_exact_def)

theorem transfer_loops_return_witness:
  "transient_bounded (\<lambda>w (fd, n). sim_read w fd n) (\<lambda>w. length (fst w)) \<and>
   (\<exists>r buf' w'. read_exact sim_read 3 [0, 0] 0 2 ([Inl EAGAIN, Inl EINTR], [7]) = Some (r, buf', w'))"
  using transfer_loops_return [OF sim_read_bounded sim_write_bounded] sim_read_bounded by blast

end
