(* ===== verification/Wire_Format.thy ===== *)
theory Wire_Format
  imports Net_IO
begin

text \<open>
  The byte layout of the structures that cross a descriptor: \<open>DataMessage\<close> and
  \<open>DaemonInitMessage\<close> of \<^verbatim>\<open>enu/daemon.h\<close>. The sender writes the object
  representation of the struct and the receiver casts its buffer back, so the format
  is the layout of the ABI (little endian, natural alignment): \<^verbatim>\<open>fs::perms\<close> is an
  unsigned 32-bit enumeration, \<^verbatim>\<open>fs::file_type\<close> a \<^verbatim>\<open>signed char\<close>, and the padding
  bytes hold arbitrary values. The locale \<open>wire_codec\<close> states what the users of a
  format rely on; both structures are interpretations of it.
\<close>

section \<open>Little-endian integers\<close>

fun le_bytes :: "nat \<Rightarrow> nat \<Rightarrow> byte list" where
  "le_bytes 0 k = []"
| "le_bytes (Suc n) k = word_of_nat (k mod 256) # le_bytes n (k div 256)"

fun le_nat :: "byte list \<Rightarrow> nat" where
  "le_nat [] = 0"
| "le_nat (b # bs) = unat b + 256 * le_nat bs"

lemma le_bytes_numeral:
  "le_bytes (numeral n) k = word_of_nat (k mod 256) # le_bytes (pred_numeral n) (k div 256)"
  by (simp only: numeral_eq_Suc [of n] le_bytes.simps)

lemma length_le_bytes [simp]: "length (le_bytes n k) = n"
  by (induction n arbitrary: k) auto

lemma unat_byte_of_mod [simp]: "unat (word_of_nat (k mod 256) :: byte) = k mod 256"
  by (simp add: unat_of_nat)

lemma le_nat_bytes: "le_nat (le_bytes n k) = k mod 256 ^ n"
proof (induction n arbitrary: k)
  case (Suc n)
  have "k mod (256 * 256 ^ n) = 256 * (k div 256 mod 256 ^ n) + k mod 256"
    by (rule mod_mult2_eq)
  then show ?case by (simp add: Suc.IH)
qed simp

lemma unat_mod_width:
  "unat (w :: u16) mod 65536 = unat w" "unat (x :: u32) mod 4294967296 = unat x"
  "unat (y :: u64) mod 18446744073709551616 = unat y"
  using unsigned_less [of w, where 'a = nat] unsigned_less [of x, where 'a = nat]
    unsigned_less [of y, where 'a = nat]
  by simp_all

lemma le_nat_bytes_u16 [simp]: "word_of_nat (le_nat (le_bytes 2 (unat w))) = (w :: u16)"
  by (simp add: le_nat_bytes unat_mod_width)

lemma le_nat_bytes_u32 [simp]: "word_of_nat (le_nat (le_bytes 4 (unat w))) = (w :: u32)"
  by (simp add: le_nat_bytes unat_mod_width)

lemma le_nat_bytes_u64 [simp]: "word_of_nat (le_nat (le_bytes 8 (unat w))) = (w :: u64)"
  by (simp add: le_nat_bytes unat_mod_width)

section \<open>Structures (daemon.h)\<close>

text \<open>
  \<^verbatim>\<open>fs::file_type\<close> has a fixed underlying type, so a value read from the wire is any
  \<^verbatim>\<open>signed char\<close>, not only one of the named constants.
\<close>

type_synonym file_type = byte
type_synonym perms = u32

definition ft_none :: file_type where [enu_defs]: "ft_none = 0"
definition ft_not_found :: file_type where [enu_defs]: "ft_not_found = - 1"
definition ft_regular :: file_type where [enu_defs]: "ft_regular = 1"
definition ft_directory :: file_type where [enu_defs]: "ft_directory = 2"
definition ft_symlink :: file_type where [enu_defs]: "ft_symlink = 3"
definition ft_block :: file_type where [enu_defs]: "ft_block = 4"
definition ft_character :: file_type where [enu_defs]: "ft_character = 5"
definition ft_fifo :: file_type where [enu_defs]: "ft_fifo = 6"
definition ft_socket :: file_type where [enu_defs]: "ft_socket = 7"
definition ft_unknown :: file_type where [enu_defs]: "ft_unknown = 8"

record DataMessage =
  dm_seq :: u32
  dm_perms :: perms
  dm_ftype :: file_type
  dm_path_len :: u16
  dm_fsize :: u64

record DaemonInitMessage =
  base_port :: u16
  n_conns :: u16

definition sizeof_DataMessage :: nat where
  "sizeof_DataMessage = 24"

definition sizeof_DaemonInitMessage :: nat where
  "sizeof_DaemonInitMessage = 4"

text \<open>The object representation; \<open>pad\<close> gives the padding byte at each offset.\<close>

definition put_DataMessage :: "(nat \<Rightarrow> byte) \<Rightarrow> DataMessage \<Rightarrow> byte list" where
  "put_DataMessage pad m =
     le_bytes 4 (unat (dm_seq m)) @ le_bytes 4 (unat (dm_perms m)) @
     [dm_ftype m] @ [pad 9] @ le_bytes 2 (unat (dm_path_len m)) @ map pad [12..<16] @
     le_bytes 8 (unat (dm_fsize m))"

text \<open>\<^verbatim>\<open>reinterpret_cast<DataMessage*>(buf)\<close>: the fields at their offsets.\<close>

definition get_DataMessage :: "byte list \<Rightarrow> DataMessage" where
  "get_DataMessage buf =
     \<lparr>dm_seq = word_of_nat (le_nat (mem_slice 0 4 buf)),
      dm_perms = word_of_nat (le_nat (mem_slice 4 4 buf)),
      dm_ftype = buf ! 8,
      dm_path_len = word_of_nat (le_nat (mem_slice 10 2 buf)),
      dm_fsize = word_of_nat (le_nat (mem_slice 16 8 buf))\<rparr>"

text \<open>\<^verbatim>\<open>std::string{msg->data, msg->path_len}\<close>: the flexible array member starts after the header.\<close>

definition get_path :: "byte list \<Rightarrow> byte list" where
  "get_path buf = mem_slice sizeof_DataMessage (unat (dm_path_len (get_DataMessage buf))) buf"

definition put_DaemonInitMessage :: "(nat \<Rightarrow> byte) \<Rightarrow> DaemonInitMessage \<Rightarrow> byte list" where
  "put_DaemonInitMessage pad m = le_bytes 2 (unat (base_port m)) @ le_bytes 2 (unat (n_conns m))"

definition get_DaemonInitMessage :: "byte list \<Rightarrow> DaemonInitMessage" where
  "get_DaemonInitMessage buf =
     \<lparr>base_port = word_of_nat (le_nat (mem_slice 0 2 buf)),
      n_conns = word_of_nat (le_nat (mem_slice 2 2 buf))\<rparr>"

section \<open>The contract of a wire format\<close>

locale wire_codec =
  fixes put :: "(nat \<Rightarrow> byte) \<Rightarrow> 'm \<Rightarrow> byte list"
    and get :: "byte list \<Rightarrow> 'm"
    and msize :: nat
  assumes length_put: "length (put pad m) = msize"
    and get_put: "get (put pad m @ rest) = m"
begin

lemma put_inject: "put pad m = put pad' m' \<Longrightarrow> m = m'"
  by (metis get_put)

lemma put_prefix_free: "put pad m @ rest = put pad' m' @ rest' \<Longrightarrow> m = m' \<and> rest = rest'"
  by (metis append_eq_append_conv get_put length_put)

text \<open>
  A receiver that reads exactly one structure from a stream beginning with one gets
  that structure and leaves the stream at what follows it.
\<close>

lemma read_exact_get:
  assumes rd: "reads_stream rd inp" and st: "inp w fd = put pad m @ rest"
    and buf: "length buf = msize"
    and ret: "read_exact rd fd buf 0 msize w = Some (r, buf', w')" and ok: "io_bool r"
  shows "get buf' = m \<and> inp w' fd = rest"
proof -
  from ret obtain q where q: "read_partial rd fd buf 0 msize w = Some (q, buf', w')"
    and r: "r = exact_result msize q"
    by (auto simp: read_exact_def)
  from ok r have n: "n_bytes q = msize"
    by (auto simp: exact_result_def io_bool_def split: if_splits)
  from read_partial_stream [OF rd _ q] buf n
  have "buf' = mem_store 0 (take msize (inp w fd)) buf" and "inp w' fd = drop msize (inp w fd)"
    by auto
  with st buf show ?thesis
    using get_put [of pad m "[]"] length_put [of pad m] by (simp add: mem_store_def)
qed

end

text \<open>Reading a field back from between what precedes and what follows it.\<close>

lemma mem_slice_append:
  "length pre = off \<Longrightarrow> length bs = n \<Longrightarrow> mem_slice off n (pre @ bs @ post) = bs"
  by (simp add: mem_slice_def)

lemma get_put_DataMessage: "get_DataMessage (put_DataMessage pad m @ rest) = m"
proof -
  let ?a = "le_bytes 4 (unat (dm_seq m))" and ?b = "le_bytes 4 (unat (dm_perms m))"
    and ?c = "le_bytes 2 (unat (dm_path_len m))" and ?d = "le_bytes 8 (unat (dm_fsize m))"
  let ?x = "put_DataMessage pad m @ rest"
  have "mem_slice 0 4 ?x = ?a"
    using mem_slice_append [of "[]" 0 ?a 4] by (simp add: put_DataMessage_def)
  moreover have "mem_slice 4 4 ?x = ?b"
    using mem_slice_append [of ?a 4 ?b 4] by (simp add: put_DataMessage_def)
  moreover have "?x ! 8 = dm_ftype m"
    by (simp add: put_DataMessage_def nth_append)
  moreover have "mem_slice 10 2 ?x = ?c"
    using mem_slice_append [of "?a @ ?b @ [dm_ftype m] @ [pad 9]" 10 ?c 2]
    by (simp add: put_DataMessage_def)
  moreover have "mem_slice 16 8 ?x = ?d"
    using mem_slice_append [of "?a @ ?b @ [dm_ftype m] @ [pad 9] @ ?c @ map pad [12..<16]" 16 ?d 8]
    by (simp add: put_DataMessage_def)
  ultimately show ?thesis
    by (simp add: get_DataMessage_def)
qed

interpretation hdr: wire_codec put_DataMessage get_DataMessage sizeof_DataMessage
proof
  show "length (put_DataMessage pad m) = sizeof_DataMessage" for pad m
    by (simp add: put_DataMessage_def sizeof_DataMessage_def)
  show "get_DataMessage (put_DataMessage pad m @ rest) = m" for pad m rest
    by (rule get_put_DataMessage)
qed

interpretation init: wire_codec put_DaemonInitMessage get_DaemonInitMessage sizeof_DaemonInitMessage
proof
  show "length (put_DaemonInitMessage pad m) = sizeof_DaemonInitMessage" for pad m
    by (simp add: put_DaemonInitMessage_def sizeof_DaemonInitMessage_def)
  show "get_DaemonInitMessage (put_DaemonInitMessage pad m @ rest) = m" for pad m rest
    using mem_slice_append [of "[]" 0 "le_bytes 2 (unat (base_port m))" 2]
      mem_slice_append [of "le_bytes 2 (unat (base_port m))" 2 "le_bytes 2 (unat (n_conns m))" 2]
    by (simp add: get_DaemonInitMessage_def put_DaemonInitMessage_def)
qed

lemma get_path_put:
  assumes "length path = unat (dm_path_len m)"
  shows "get_path (put_DataMessage pad m @ path @ rest) = path"
  using assms mem_slice_append [OF hdr.length_put, of path]
  by (simp add: get_path_def get_put_DataMessage)

section \<open>Properties\<close>

text \<open>C15. The header round trip: whatever the padding bytes hold and whatever follows, casting the
  received bytes back gives the message that was sent, the path is the bytes right after
  the 24-byte header, and two different messages never have the same representation.\<close>

theorem DataMessage_roundtrip:
  assumes "length path = unat (dm_path_len m)"
  shows "get_DataMessage (put_DataMessage pad m @ path @ rest) = m \<and>
         get_path (put_DataMessage pad m @ path @ rest) = path \<and>
         length (put_DataMessage pad m) = sizeof_DataMessage \<and>
         (put_DataMessage pad m = put_DataMessage pad' m' \<longrightarrow> m = m')"
  using assms get_put_DataMessage get_path_put hdr.length_put hdr.put_inject by metis

theorem DataMessage_roundtrip_witness:
  "get_DataMessage (put_DataMessage (\<lambda>_. 255)
       \<lparr>dm_seq = 7, dm_perms = 420, dm_ftype = 1, dm_path_len = 3, dm_fsize = 70000\<rparr> @ [97, 47, 98] @ []) =
     \<lparr>dm_seq = 7, dm_perms = 420, dm_ftype = 1, dm_path_len = 3, dm_fsize = 70000\<rparr> \<and>
   length [97, 47, 98 :: byte] = unat (3 :: u16)"
  using DataMessage_roundtrip [of "[97, 47, 98]"
      "\<lparr>dm_seq = 7, dm_perms = 420, dm_ftype = 1, dm_path_len = 3, dm_fsize = 70000\<rparr>" "\<lambda>_. 255" "[]"]
  by simp

end
