(* ===== verification/Daemon_Conn.thy ===== *)
theory Daemon_Conn
  imports Wire_Format
begin

text \<open>
  The receiving side of one connection (\<^verbatim>\<open>enu/daemon.h\<close>): the temporary files, the
  \<open>ConnectionState\<close> and the handler that \<open>daemon_main\<close> runs when a client's socket is
  readable. The answers of the system calls come from an environment \<open>env\<close> over an
  arbitrary world; what the daemon does to the outside is recorded in a log, so that
  a property can say which files it installs, with which content, in which order.
\<close>

section \<open>Environment and effects\<close>

record 'w env =
  e_read :: "'w sys_read"
  e_mkstemp :: "'w \<Rightarrow> (fd \<times> byte list) option \<times> 'w"
  e_ftruncate :: "'w \<Rightarrow> fd \<Rightarrow> nat \<Rightarrow> bool \<times> 'w"
  e_mmap :: "'w \<Rightarrow> fd \<Rightarrow> nat \<Rightarrow> bool \<times> 'w"
  e_rename :: "'w \<Rightarrow> byte list \<Rightarrow> byte list \<Rightarrow> bool \<times> 'w"
  e_mkdir :: "'w \<Rightarrow> byte list \<Rightarrow> perms \<Rightarrow> bool \<times> 'w"

text \<open>
  \<open>E_rename a p c\<close>: the temporary file \<open>a\<close>, whose content is at that moment \<open>c\<close>
  (the bytes of its shared mapping), is renamed to \<open>p\<close>.
\<close>

datatype effect =
    E_create fd "byte list" nat
  | E_map fd nat
  | E_fsync fd
  | E_rename "byte list" "byte list" "byte list"
  | E_mkdir "byte list" perms
  | E_close fd
  | E_unlink "byte list"
  | E_bind fd u16
  | E_warn u16
  | E_sleep nat

text \<open>
  How the daemon can stop: a fatal error (which ends the process), its return value, or
  behaviour the language leaves undefined.
\<close>

datatype stop = Fatal string | Return bool | Undefined string

record dstate =
  anon_files :: "byte list set"
  registered :: bool
  elog :: "effect list"

definition emit :: "effect \<Rightarrow> dstate \<Rightarrow> dstate" where
  "emit e d = d\<lparr>elog := elog d @ [e]\<rparr>"

section \<open>Temporary files (daemon.h)\<close>

definition register_tempfile_cleanup :: "dstate \<Rightarrow> dstate" where
  "register_tempfile_cleanup d = (if registered d then d else d\<lparr>registered := True\<rparr>)"

text \<open>The handler \<^verbatim>\<open>atexit\<close> runs, once for each registered path in some order \<open>ps\<close>.\<close>

definition atexit_cleanup :: "byte list list \<Rightarrow> dstate \<Rightarrow> dstate" where
  "atexit_cleanup ps d =
     (if registered d then d\<lparr>elog := elog d @ map E_unlink ps\<rparr> else d)"

definition create_anonfile ::
  "('w, 'z) env_scheme \<Rightarrow> nat \<Rightarrow> perms \<Rightarrow> dstate \<times> 'w \<Rightarrow> stop + (fd \<times> byte list) \<times> dstate \<times> 'w" where
  "create_anonfile E fsize mode s =
     (case s of (d, w) \<Rightarrow>
      let d = register_tempfile_cleanup d in
      (case e_mkstemp E w of
         (None, w) \<Rightarrow> Inl (Fatal ''mkstemp'')
       | (Some (fd, template_path), w) \<Rightarrow>
           (case e_ftruncate E w fd fsize of
              (False, w) \<Rightarrow> Inl (Fatal ''ftruncate'')
            | (True, w) \<Rightarrow>
                Inr ((fd, template_path),
                     emit (E_create fd template_path fsize)
                       (d\<lparr>anon_files := insert template_path (anon_files d)\<rparr>), w))))"

definition move_anonfile ::
  "('w, 'z) env_scheme \<Rightarrow> byte list \<Rightarrow> byte list \<Rightarrow> byte list \<Rightarrow> dstate \<times> 'w \<Rightarrow> stop + dstate \<times> 'w" where
  "move_anonfile E anon_path content perm_path s =
     (case s of (d, w) \<Rightarrow>
      (case e_rename E w (c_str anon_path) (c_str perm_path) of
         (False, w) \<Rightarrow> Inl (Fatal ''rename'')
       | (True, w) \<Rightarrow>
           Inr (emit (E_rename (c_str anon_path) (c_str perm_path) content)
                  (d\<lparr>anon_files := anon_files d - {anon_path}\<rparr>), w)))"

section \<open>Connection state (daemon.h)\<close>

datatype ConnectionKind = Connected | HeaderP1 | HeaderP2 | Receiving

record ConnectionState =
  cs_kind :: ConnectionKind
  cs_seq :: u32
  cs_perms :: perms
  cs_path :: "byte list"
  cs_progress :: nat
  cs_goal :: nat
  cs_anon_path :: "byte list"
  cs_anon_fd :: fd
  cs_anon_buf :: "byte list"
  cs_buf :: "byte list"
  cs_client_fd :: fd
  cs_sock_fd :: fd

text \<open>
  \<^verbatim>\<open>states[client_fd]\<close> value-initialises: the members without an initialiser are zero.
\<close>

definition new_ConnectionState :: ConnectionState where
  "new_ConnectionState =
     \<lparr>cs_kind = Connected, cs_seq = 0, cs_perms = 0, cs_path = [], cs_progress = 0, cs_goal = 0,
      cs_anon_path = [], cs_anon_fd = -1, cs_anon_buf = [], cs_buf = [],
      cs_client_fd = -1, cs_sock_fd = -1\<rparr>"

definition reset_conn :: "ConnectionState \<times> dstate \<Rightarrow> ConnectionState \<times> dstate" where
  "reset_conn s =
     (case s of (c, d) \<Rightarrow>
       (c\<lparr>cs_anon_fd := -1, cs_progress := 0, cs_goal := 0, cs_buf := []\<rparr>,
        emit (E_close (cs_anon_fd c)) d))"

definition close_if_open :: "fd \<Rightarrow> dstate \<Rightarrow> dstate" where
  "close_if_open fd d = (if fd \<noteq> -1 then emit (E_close fd) d else d)"

definition destroy_conn :: "ConnectionState \<Rightarrow> dstate \<Rightarrow> dstate" where
  "destroy_conn c d =
     close_if_open (cs_sock_fd c) (close_if_open (cs_client_fd c) (close_if_open (cs_anon_fd c) d))"

datatype Progress = P_Fail | P_Partial | P_Done

section \<open>The handler of a readable client (daemon\_main)\<close>

text \<open>\<^verbatim>\<open>std::vector::resize\<close>: cut or extend with zeros.\<close>

definition vec_resize :: "nat \<Rightarrow> byte list \<Rightarrow> byte list" where
  "vec_resize n buf = take n buf @ replicate (n - length buf) 0"

text \<open>The lambda \<^verbatim>\<open>advance\<close>, on the memory region \<open>target\<close>.\<close>

definition advance ::
  "('w, 'z) env_scheme \<Rightarrow> fd \<Rightarrow> byte list \<Rightarrow> ConnectionState \<Rightarrow> 'w \<Rightarrow>
   (Progress \<times> byte list \<times> ConnectionState \<times> 'w) option" where
  "advance E fd target c w =
     (case read_partial (e_read E) fd target (cs_progress c) (cs_goal c - cs_progress c) w of
        None \<Rightarrow> None
      | Some (r, target, w) \<Rightarrow>
          if \<not> io_bool r then Some (P_Fail, target, c, w)
          else
            (let c = c\<lparr>cs_progress := cs_progress c + n_bytes r\<rparr> in
             Some (if cs_progress c = cs_goal c then P_Done else P_Partial, target, c, w)))"

type_synonym 'w conn = "ConnectionState \<times> dstate \<times> 'w"

definition stage_connected :: "'w conn \<Rightarrow> 'w conn" where
  "stage_connected s =
     (case s of (c, d, w) \<Rightarrow>
       if cs_kind c = Connected then
         (c\<lparr>cs_buf := vec_resize sizeof_DataMessage (cs_buf c), cs_kind := HeaderP1,
            cs_goal := sizeof_DataMessage\<rparr>, d, w)
       else (c, d, w))"

definition stage_header1 :: "('w, 'z) env_scheme \<Rightarrow> fd \<Rightarrow> 'w conn \<Rightarrow> (stop + 'w conn) option" where
  "stage_header1 E fd s =
     (case s of (c, d, w) \<Rightarrow>
       if cs_kind c = HeaderP1 then
         (case advance E fd (cs_buf c) c w of
            None \<Rightarrow> None
          | Some (P_Fail, buf, c, w) \<Rightarrow> Some (Inl (Return False))
          | Some (P_Partial, buf, c, w) \<Rightarrow> Some (Inr (c\<lparr>cs_buf := buf\<rparr>, d, w))
          | Some (P_Done, buf, c, w) \<Rightarrow>
              (let goal = cs_goal c + unat (dm_path_len (get_DataMessage buf)) in
               Some (Inr (c\<lparr>cs_goal := goal, cs_buf := vec_resize goal buf,
                            cs_kind := HeaderP2\<rparr>, d, w))))
       else Some (Inr (c, d, w)))"

text \<open>
  The whole header is in \<open>buf\<close>: a regular file gets a temporary file and its mapping, whose
  content \<^verbatim>\<open>ftruncate\<close> has made zeros; everything else is a directory. The
  assignment of \<open>perms\<close> is the source's: from the state, not from the message.
\<close>

definition header_done ::
  "('w, 'z) env_scheme \<Rightarrow> byte list \<Rightarrow> 'w conn \<Rightarrow> stop + 'w conn" where
  "header_done E buf s =
     (case s of (c, d, w) \<Rightarrow>
      let msg = get_DataMessage buf;
          c = c\<lparr>cs_buf := buf, cs_seq := dm_seq msg, cs_path := get_path buf,
                cs_perms := cs_perms c\<rparr>
      in
      if dm_ftype msg = ft_regular then
        (case create_anonfile E (unat (dm_fsize msg)) (cs_perms c) (d, w) of
           Inl e \<Rightarrow> Inl e
         | Inr ((anon_fd, anon_path), d, w) \<Rightarrow>
             (let c = c\<lparr>cs_anon_fd := anon_fd, cs_anon_path := anon_path, cs_progress := 0,
                        cs_goal := unat (dm_fsize msg)\<rparr>
              in
              if 0 < unat (dm_fsize msg) then
                (case e_mmap E w anon_fd (unat (dm_fsize msg)) of
                   (False, w) \<Rightarrow> Inl (Fatal ''mmap'')
                 | (True, w) \<Rightarrow>
                     Inr (c\<lparr>cs_anon_buf := replicate (unat (dm_fsize msg)) 0, cs_kind := Receiving\<rparr>,
                          emit (E_map anon_fd (unat (dm_fsize msg))) d, w))
              else Inr (c\<lparr>cs_kind := Receiving\<rparr>, d, w)))
      else
        (case e_mkdir E w (c_str (cs_path c)) (cs_perms c) of
           (False, w) \<Rightarrow> Inl (Fatal ''mkdir'')
         | (True, w) \<Rightarrow>
             (case reset_conn (c, emit (E_mkdir (c_str (cs_path c)) (cs_perms c)) d) of
                (c, d) \<Rightarrow> Inr (c\<lparr>cs_kind := Connected\<rparr>, d, w))))"

definition stage_header2 :: "('w, 'z) env_scheme \<Rightarrow> fd \<Rightarrow> 'w conn \<Rightarrow> (stop + 'w conn) option" where
  "stage_header2 E fd s =
     (case s of (c, d, w) \<Rightarrow>
       if cs_kind c = HeaderP2 then
         (case advance E fd (cs_buf c) c w of
            None \<Rightarrow> None
          | Some (P_Fail, buf, c, w) \<Rightarrow> Some (Inl (Return False))
          | Some (P_Partial, buf, c, w) \<Rightarrow> Some (Inr (c\<lparr>cs_buf := buf\<rparr>, d, w))
          | Some (P_Done, buf, c, w) \<Rightarrow> Some (header_done E buf (c, d, w)))
       else Some (Inr (c, d, w)))"

definition stage_receiving :: "('w, 'z) env_scheme \<Rightarrow> fd \<Rightarrow> 'w conn \<Rightarrow> (stop + 'w conn) option" where
  "stage_receiving E fd s =
     (case s of (c, d, w) \<Rightarrow>
       if cs_kind c = Receiving then
         (case advance E fd (cs_anon_buf c) c w of
            None \<Rightarrow> None
          | Some (P_Fail, buf, c, w) \<Rightarrow> Some (Inl (Return False))
          | Some (P_Partial, buf, c, w) \<Rightarrow> Some (Inr (c\<lparr>cs_anon_buf := buf\<rparr>, d, w))
          | Some (P_Done, buf, c, w) \<Rightarrow>
              (let c = c\<lparr>cs_anon_buf := buf\<rparr>;
                   d = emit (E_fsync (cs_anon_fd c)) d;
                   content = take (cs_goal c) buf
               in
               (case move_anonfile E (cs_anon_path c) content (cs_path c) (d, w) of
                  Inl e \<Rightarrow> Some (Inl e)
                | Inr (d, w) \<Rightarrow>
                    (case reset_conn (c, d) of
                       (c, d) \<Rightarrow> Some (Inr (c\<lparr>cs_kind := Connected\<rparr>, d, w))))))
       else Some (Inr (c, d, w)))"

text \<open>The part of the loop body that runs for a readable client.\<close>

definition on_readable :: "('w, 'z) env_scheme \<Rightarrow> fd \<Rightarrow> 'w conn \<Rightarrow> (stop + 'w conn) option" where
  "on_readable E fd s =
     and_then (and_then (stage_header1 E fd (stage_connected s)) (stage_header2 E fd))
       (stage_receiving E fd)"

end
