(* ===== verification/Daemon_Inv.thy ===== *)
theory Daemon_Inv
  imports Daemon_Conn
begin

text \<open>
  What the handler of a readable client does to the byte stream of its connection: it
  cuts the stream into frames (header, path, content) and performs one action for each,
  whatever the sizes of the pieces in which the bytes arrive. The abstract side is the
  list of frames; \<open>conn_inv\<close> relates a \<open>ConnectionState\<close> to the part of a frame it
  holds, and \<open>conn_advances\<close> is the simulation, proved for every stage and composed.
\<close>

section \<open>Frames and actions\<close>

definition frame_len :: "byte list \<Rightarrow> nat" where
  "frame_len f =
     (let m = get_DataMessage f
      in sizeof_DataMessage + unat (dm_path_len m) +
         (if dm_ftype m = ft_regular then unat (dm_fsize m) else 0))"

definition is_frame :: "byte list \<Rightarrow> bool" where
  "is_frame f \<longleftrightarrow> sizeof_DataMessage \<le> length f \<and> length f = frame_len f"

datatype action = Install "byte list" "byte list" | MakeDir "byte list"

definition frame_action :: "byte list \<Rightarrow> action" where
  "frame_action f =
     (let m = get_DataMessage f
      in if dm_ftype m = ft_regular
         then Install (c_str (get_path f)) (drop (sizeof_DataMessage + unat (dm_path_len m)) f)
         else MakeDir (c_str (get_path f)))"

fun visible :: "effect \<Rightarrow> action list" where
  "visible (E_rename a p content) = [Install p content]"
| "visible (E_mkdir p m) = [MakeDir p]"
| "visible _ = []"

definition actions :: "dstate \<Rightarrow> action list" where
  "actions d = concat (map visible (elog d))"

lemma actions_emit [simp]: "actions (emit e d) = actions d @ visible e"
  by (simp add: actions_def emit_def)

lemma actions_frame [simp]:
  "actions (d\<lparr>anon_files := A\<rparr>) = actions d"
  "actions (register_tempfile_cleanup d) = actions d"
  by (simp_all add: actions_def register_tempfile_cleanup_def)

section \<open>Headers are determined by their first bytes\<close>

lemma mem_slice_prefix: "off + n \<le> length xs \<Longrightarrow> mem_slice off n (xs @ ys) = mem_slice off n xs"
  by (simp add: mem_slice_def)

lemma get_DataMessage_append:
  "sizeof_DataMessage \<le> length xs \<Longrightarrow> get_DataMessage (xs @ ys) = get_DataMessage xs"
  by (simp add: get_DataMessage_def sizeof_DataMessage_def mem_slice_prefix nth_append)

lemma get_DataMessage_take:
  "sizeof_DataMessage \<le> n \<Longrightarrow> n \<le> length xs \<Longrightarrow> get_DataMessage (take n xs) = get_DataMessage xs"
  by (metis append_take_drop_id get_DataMessage_append length_take min.absorb2)

lemma get_path_append:
  "sizeof_DataMessage + unat (dm_path_len (get_DataMessage xs)) \<le> length xs \<Longrightarrow>
   get_path (xs @ ys) = get_path xs"
  by (simp add: get_path_def get_DataMessage_append mem_slice_prefix)

lemma frame_len_append:
  "sizeof_DataMessage \<le> length xs \<Longrightarrow> frame_len (xs @ ys) = frame_len xs"
  by (simp add: frame_len_def get_DataMessage_append)

lemma frame_prefix_unique:
  assumes "is_frame f" "is_frame g" "f @ xs = g @ ys"
  shows "f = g \<and> xs = ys"
proof -
  have "frame_len f = frame_len (f @ xs)" "frame_len g = frame_len (g @ ys)"
    using assms(1,2) by (simp_all add: frame_len_append is_frame_def)
  with assms have "length f = length g" by (simp add: is_frame_def)
  with assms(3) show ?thesis by simp
qed

lemma frame_not_Nil: "is_frame f \<Longrightarrow> f \<noteq> []"
  by (auto simp: is_frame_def sizeof_DataMessage_def)

text \<open>A stream that is a sequence of frames has only one decomposition into frames.\<close>

lemma frames_prefix_unique:
  assumes "list_all is_frame fs" "list_all is_frame gs" "concat fs @ rest = concat gs"
  shows "\<exists>hs. gs = fs @ hs \<and> rest = concat hs"
  using assms
proof (induction fs arbitrary: gs)
  case (Cons f fs)
  from Cons.prems frame_not_Nil [of f] obtain g gs' where gs: "gs = g # gs'" by (cases gs) auto
  with Cons.prems have "f = g \<and> concat fs @ rest = concat gs'"
    using frame_prefix_unique [of f g "concat fs @ rest" "concat gs'"] by auto
  with Cons gs show ?case by auto
qed auto

text \<open>The representation of a message, its path and its content are a frame.\<close>

lemma message_frame:
  assumes "length path = unat (dm_path_len m)"
    and "length content = (if dm_ftype m = ft_regular then unat (dm_fsize m) else 0)"
  shows "is_frame (put_DataMessage pad m @ path @ content)"
    and "frame_action (put_DataMessage pad m @ path @ content) =
         (if dm_ftype m = ft_regular then Install (c_str path) content else MakeDir (c_str path))"
  using assms
  by (simp_all add: is_frame_def frame_len_def frame_action_def Let_def hdr.length_put
      get_put_DataMessage get_path_put)

section \<open>The invariant of a connection\<close>

definition conn_inv :: "ConnectionState \<Rightarrow> byte list \<Rightarrow> bool" where
  "conn_inv c tail \<longleftrightarrow>
     (case cs_kind c of
        Connected \<Rightarrow> tail = [] \<and> cs_progress c = 0 \<and> cs_buf c = []
      | HeaderP1 \<Rightarrow>
          cs_goal c = sizeof_DataMessage \<and> length (cs_buf c) = sizeof_DataMessage \<and>
          cs_progress c \<le> cs_goal c \<and> tail = take (cs_progress c) (cs_buf c)
      | HeaderP2 \<Rightarrow>
          cs_goal c = sizeof_DataMessage + unat (dm_path_len (get_DataMessage (cs_buf c))) \<and>
          length (cs_buf c) = cs_goal c \<and> sizeof_DataMessage \<le> cs_progress c \<and>
          cs_progress c \<le> cs_goal c \<and> tail = take (cs_progress c) (cs_buf c)
      | Receiving \<Rightarrow>
          (let m = get_DataMessage (cs_buf c)
           in length (cs_buf c) = sizeof_DataMessage + unat (dm_path_len m) \<and>
              dm_ftype m = ft_regular \<and> cs_path c = get_path (cs_buf c) \<and>
              cs_goal c = unat (dm_fsize m) \<and> cs_progress c \<le> cs_goal c \<and>
              (0 < cs_goal c \<longrightarrow> length (cs_anon_buf c) = cs_goal c) \<and>
              tail = cs_buf c @ take (cs_progress c) (cs_anon_buf c)))"

text \<open>Between two events no frame is complete: there is always something left to wait for.\<close>

definition conn_waiting :: "ConnectionState \<Rightarrow> bool" where
  "conn_waiting c \<longleftrightarrow> (cs_kind c \<noteq> Connected \<longrightarrow> cs_progress c < cs_goal c)"

text \<open>The bytes left to read are touched by no call but \<^verbatim>\<open>read\<close>.\<close>

definition env_streams :: "('w, 'z) env_scheme \<Rightarrow> ('w \<Rightarrow> fd \<Rightarrow> byte list) \<Rightarrow> bool" where
  "env_streams E inp \<longleftrightarrow>
     reads_stream (e_read E) inp \<and>
     (\<forall>w. inp (snd (e_mkstemp E w)) = inp w) \<and>
     (\<forall>w fd n. inp (snd (e_ftruncate E w fd n)) = inp w) \<and>
     (\<forall>w fd n. inp (snd (e_mmap E w fd n)) = inp w) \<and>
     (\<forall>w p q. inp (snd (e_rename E w p q)) = inp w) \<and>
     (\<forall>w p m. inp (snd (e_mkdir E w p m)) = inp w)"

lemma env_streamsD:
  assumes "env_streams E inp"
  shows "reads_stream (e_read E) inp"
    and "e_mkstemp E w = (a, w') \<Longrightarrow> inp w' = inp w"
    and "e_ftruncate E w fd n = (b, w') \<Longrightarrow> inp w' = inp w"
    and "e_mmap E w fd n = (b, w') \<Longrightarrow> inp w' = inp w"
    and "e_rename E w p q = (b, w') \<Longrightarrow> inp w' = inp w"
    and "e_mkdir E w p m = (b, w') \<Longrightarrow> inp w' = inp w"
  using assms unfolding env_streams_def by (metis snd_conv)+

section \<open>The simulation\<close>

definition conn_advances ::
  "('w \<Rightarrow> fd \<Rightarrow> byte list) \<Rightarrow> fd \<Rightarrow> 'w conn \<Rightarrow> 'w conn \<Rightarrow> bool" where
  "conn_advances inp fd s s' \<longleftrightarrow>
     (case (s, s') of ((c, d, w), (c', d', w')) \<Rightarrow>
       \<forall>tail. conn_inv c tail \<longrightarrow>
         (\<exists>fs tail'. conn_inv c' tail' \<and> list_all is_frame fs \<and>
            tail @ inp w fd = concat fs @ tail' @ inp w' fd \<and>
            actions d' = actions d @ map frame_action fs))"

lemma conn_advances_refl: "conn_advances inp fd s s"
  unfolding conn_advances_def by (cases s) (auto intro!: exI [of _ "[]"])

lemma conn_advances_trans:
  assumes "conn_advances inp fd s t" "conn_advances inp fd t u"
  shows "conn_advances inp fd s u"
proof -
  obtain c d w c1 d1 w1 c2 d2 w2
    where [simp]: "s = (c, d, w)" "t = (c1, d1, w1)" "u = (c2, d2, w2)"
    by (metis prod_cases3)
  show ?thesis
    unfolding conn_advances_def
  proof (clarsimp)
    fix tail assume "conn_inv c tail"
    with assms(1) obtain fs1 tail1 where 1: "conn_inv c1 tail1" "list_all is_frame fs1"
      "tail @ inp w fd = concat fs1 @ tail1 @ inp w1 fd"
      "actions d1 = actions d @ map frame_action fs1"
      by (auto simp: conn_advances_def)
    with assms(2) obtain fs2 tail2 where 2: "conn_inv c2 tail2" "list_all is_frame fs2"
      "tail1 @ inp w1 fd = concat fs2 @ tail2 @ inp w2 fd"
      "actions d2 = actions d1 @ map frame_action fs2"
      by (fastforce simp: conn_advances_def)
    from 1 2 show "\<exists>fs tail'. conn_inv c2 tail' \<and> list_all is_frame fs \<and>
        tail @ inp w fd = concat fs @ tail' @ inp w2 fd \<and>
        actions d2 = actions d @ map frame_action fs"
      by (intro exI [of _ "fs1 @ fs2"] exI [of _ tail2]) simp
  qed
qed

text \<open>What \<open>advance\<close> does to its region and to the stream.\<close>

lemma advance_stream:
  assumes E: "env_streams E inp" and ret: "advance E fd target c w = Some (p, t', c', w')"
    and le: "cs_progress c \<le> cs_goal c" and fits: "cs_goal c \<le> length target" and p: "p \<noteq> P_Fail"
  obtains n where "c' = c\<lparr>cs_progress := cs_progress c + n\<rparr>" "cs_progress c + n \<le> cs_goal c"
    "p = P_Done \<longleftrightarrow> cs_progress c + n = cs_goal c" "length t' = length target"
    "take (cs_progress c + n) t' = take (cs_progress c) target @ take n (inp w fd)"
    "inp w fd = take n (inp w fd) @ inp w' fd"
proof -
  let ?k = "cs_progress c"
  from ret p obtain r where
    r: "read_partial (e_read E) fd target ?k (cs_goal c - ?k) w = Some (r, t', w')"
    and c': "c' = c\<lparr>cs_progress := ?k + n_bytes r\<rparr>"
    and p': "p = (if ?k + n_bytes r = cs_goal c then P_Done else P_Partial)"
    by (auto simp: advance_def Let_def split: option.splits prod.splits if_splits)
  from read_partial_stream [OF env_streamsD(1) [OF E] _ r] le fits
  have n: "n_bytes r \<le> cs_goal c - ?k" "n_bytes r \<le> length (inp w fd)"
    and t': "t' = mem_store ?k (take (n_bytes r) (inp w fd)) target"
    and w': "inp w' fd = drop (n_bytes r) (inp w fd)" by auto
  show ?thesis
  proof (rule that [of "n_bytes r"])
    show "length t' = length target"
      using n le fits by (simp add: t')
    have "take (?k + length (take (n_bytes r) (inp w fd))) t' =
          take ?k target @ take (n_bytes r) (inp w fd)"
      unfolding t' using le fits by (intro take_mem_store_end) simp
    then show "take (?k + n_bytes r) t' = take ?k target @ take (n_bytes r) (inp w fd)"
      using n by (simp add: min_absorb2)
  qed (use n le c' p' w' in auto)
qed

section \<open>Every stage advances the connection\<close>

lemma stage_connected_advances: "conn_advances inp fd s (stage_connected s)"
proof -
  obtain c d w where s: "s = (c, d, w)" by (metis prod_cases3)
  show ?thesis
  proof (cases "cs_kind c = Connected")
    case True
    then show ?thesis
      unfolding s conn_advances_def
      by (auto simp: stage_connected_def conn_inv_def vec_resize_def intro!: exI [of _ "[]"])
  next
    case False
    then have "stage_connected s = s" by (simp add: s stage_connected_def)
    then show ?thesis by (simp add: conn_advances_refl)
  qed
qed

lemma stage_header1_advances:
  assumes E: "env_streams E inp" and ret: "stage_header1 E fd s = Some (Inr s')"
  shows "conn_advances inp fd s s'"
proof -
  obtain c d w where s: "s = (c, d, w)" by (metis prod_cases3)
  show ?thesis
  proof (cases "cs_kind c = HeaderP1")
    case False
    with ret have "s' = s" by (simp add: s stage_header1_def)
    then show ?thesis by (simp add: conn_advances_refl)
  next
    case True
    with ret obtain p buf c1 w1 where adv: "advance E fd (cs_buf c) c w = Some (p, buf, c1, w1)"
      and p: "p \<noteq> P_Fail"
      by (auto simp: s stage_header1_def split: option.splits prod.splits Progress.splits)
    have "\<exists>fs tail'. conn_inv (fst s') tail' \<and> list_all is_frame fs \<and>
            tail @ inp w fd = concat fs @ tail' @ inp (snd (snd s')) fd \<and>
            actions (fst (snd s')) = actions d @ map frame_action fs"
      if inv: "conn_inv c tail" for tail
    proof -
      from inv True have inv': "cs_goal c = sizeof_DataMessage"
        "length (cs_buf c) = sizeof_DataMessage" "cs_progress c \<le> cs_goal c"
        "tail = take (cs_progress c) (cs_buf c)"
        by (simp_all add: conn_inv_def)
      from inv' obtain n where n: "c1 = c\<lparr>cs_progress := cs_progress c + n\<rparr>"
        "cs_progress c + n \<le> cs_goal c" "p = P_Done \<longleftrightarrow> cs_progress c + n = cs_goal c"
        "length buf = length (cs_buf c)"
        "take (cs_progress c + n) buf = take (cs_progress c) (cs_buf c) @ take n (inp w fd)"
        "inp w fd = take n (inp w fd) @ inp w1 fd"
        by (rule_tac advance_stream [OF E adv _ _ p]) auto
      have stream: "tail @ inp w fd = take (cs_progress c + n) buf @ inp w1 fd"
        using n(5,6) inv'(4) by simp
      show ?thesis
      proof (cases p)
        case P_Partial
        with ret adv True have "s' = (c1\<lparr>cs_buf := buf\<rparr>, d, w1)"
          by (simp add: s stage_header1_def)
        with n(1,2,4) inv'(1,2) stream True show ?thesis
          by (intro exI [of _ "[]"] exI [of _ "take (cs_progress c + n) buf"])
            (simp add: conn_inv_def)
      next
        case P_Done
        let ?plen = "unat (dm_path_len (get_DataMessage buf))"
        from P_Done n inv' have full: "cs_progress c + n = sizeof_DataMessage"
          "length buf = sizeof_DataMessage" by simp_all
        from P_Done ret adv True n(1) inv'(1) have s': "s' =
          (c1\<lparr>cs_goal := sizeof_DataMessage + ?plen,
              cs_buf := vec_resize (sizeof_DataMessage + ?plen) buf, cs_kind := HeaderP2\<rparr>, d, w1)"
          by (simp add: s stage_header1_def Let_def)
        have rs: "vec_resize (sizeof_DataMessage + ?plen) buf = buf @ replicate ?plen 0"
          using full by (simp add: vec_resize_def)
        have "get_DataMessage (buf @ replicate ?plen 0) = get_DataMessage buf"
          using full by (intro get_DataMessage_append) simp
        moreover from stream full have "tail @ inp w fd = buf @ inp w1 fd" by simp
        ultimately show ?thesis
          using s' rs n(1) full
          by (intro exI [of _ "[]"] exI [of _ buf]) (simp add: conn_inv_def)
      qed (use p in simp)
    qed
    then show ?thesis
      by (cases s') (simp add: conn_advances_def s)
  qed
qed

lemma create_anonfile_frame:
  assumes "env_streams E inp" "create_anonfile E n m (d, w) = Inr (fp, d', w')"
  shows "inp w' = inp w \<and> actions d' = actions d"
  using assms(2)
  by (auto simp: create_anonfile_def Let_def env_streamsD(2,3) [OF assms(1)]
      split: prod.splits option.splits bool.splits)

text \<open>A complete header: either the content is now expected, or a directory frame is complete.\<close>

lemma header_done_advances:
  assumes E: "env_streams E inp" and ret: "header_done E buf (c, d, w) = Inr (c', d', w')"
    and len: "length buf = sizeof_DataMessage + unat (dm_path_len (get_DataMessage buf))"
  shows "\<exists>fs tail'. conn_inv c' tail' \<and> list_all is_frame fs \<and> buf = concat fs @ tail' \<and>
           inp w' = inp w \<and> actions d' = actions d @ map frame_action fs"
proof (cases "dm_ftype (get_DataMessage buf) = ft_regular")
  case True
  from ret True obtain anon_fd anon_path d1 w1
    where cr: "create_anonfile E (unat (dm_fsize (get_DataMessage buf))) (cs_perms c) (d, w) =
               Inr ((anon_fd, anon_path), d1, w1)"
    by (auto simp: header_done_def Let_def split: sum.splits prod.splits)
  note fr = create_anonfile_frame [OF E cr]
  have "conn_inv c' buf \<and> inp w' = inp w \<and> actions d' = actions d"
  proof (cases "0 < unat (dm_fsize (get_DataMessage buf))")
    case pos: True
    with ret cr True fr len show ?thesis
      by (auto simp: header_done_def Let_def conn_inv_def env_streamsD(4) [OF E]
          split: prod.splits bool.splits)
  next
    case False
    with ret cr True fr len show ?thesis
      by (auto simp: header_done_def Let_def conn_inv_def)
  qed
  then show ?thesis
    by (intro exI [of _ "[]"] exI [of _ buf]) simp
next
  case False
  with len have "is_frame buf" by (simp add: is_frame_def frame_len_def)
  moreover from False have "frame_action buf = MakeDir (c_str (get_path buf))"
    by (simp add: frame_action_def)
  moreover from ret False have "conn_inv c' [] \<and> inp w' = inp w \<and>
      actions d' = actions d @ [MakeDir (c_str (get_path buf))]"
    by (auto simp: header_done_def Let_def conn_inv_def reset_conn_def env_streamsD(6) [OF E]
        split: prod.splits bool.splits)
  ultimately show ?thesis
    by (intro exI [of _ "[buf]"] exI [of _ "[]"]) simp
qed

lemma stage_header2_advances:
  assumes E: "env_streams E inp" and ret: "stage_header2 E fd s = Some (Inr s')"
  shows "conn_advances inp fd s s'"
proof -
  obtain c d w where s: "s = (c, d, w)" by (metis prod_cases3)
  obtain c' d' w' where s': "s' = (c', d', w')" by (metis prod_cases3)
  show ?thesis
  proof (cases "cs_kind c = HeaderP2")
    case False
    with ret have "s' = s" by (simp add: s stage_header2_def)
    then show ?thesis by (simp add: conn_advances_refl)
  next
    case True
    with ret obtain p buf c1 w1 where adv: "advance E fd (cs_buf c) c w = Some (p, buf, c1, w1)"
      and p: "p \<noteq> P_Fail"
      by (auto simp: s stage_header2_def split: option.splits prod.splits Progress.splits)
    have "\<exists>fs tail'. conn_inv c' tail' \<and> list_all is_frame fs \<and>
            tail @ inp w fd = concat fs @ tail' @ inp w' fd \<and>
            actions d' = actions d @ map frame_action fs"
      if inv: "conn_inv c tail" for tail
    proof -
      from inv True have inv':
        "cs_goal c = sizeof_DataMessage + unat (dm_path_len (get_DataMessage (cs_buf c)))"
        "length (cs_buf c) = cs_goal c" "sizeof_DataMessage \<le> cs_progress c"
        "cs_progress c \<le> cs_goal c" "tail = take (cs_progress c) (cs_buf c)"
        by (simp_all add: conn_inv_def)
      from inv' obtain n where n: "c1 = c\<lparr>cs_progress := cs_progress c + n\<rparr>"
        "cs_progress c + n \<le> cs_goal c" "p = P_Done \<longleftrightarrow> cs_progress c + n = cs_goal c"
        "length buf = length (cs_buf c)"
        "take (cs_progress c + n) buf = take (cs_progress c) (cs_buf c) @ take n (inp w fd)"
        "inp w fd = take n (inp w fd) @ inp w1 fd"
        by (rule_tac advance_stream [OF E adv _ _ p]) auto
      have stream: "tail @ inp w fd = take (cs_progress c + n) buf @ inp w1 fd"
        using n(5,6) inv'(5) by simp
      have "get_DataMessage buf = get_DataMessage (take (cs_progress c + n) buf)"
        using inv' n(2,4) by (intro get_DataMessage_take [symmetric]) simp_all
      also have "\<dots> = get_DataMessage (take (cs_progress c) (cs_buf c))"
        unfolding n(5) using inv'(2-4) by (intro get_DataMessage_append) simp
      also have "\<dots> = get_DataMessage (cs_buf c)"
        using inv'(2-4) by (intro get_DataMessage_take) simp_all
      finally have hdr_same: "get_DataMessage buf = get_DataMessage (cs_buf c)" .
      show ?thesis
      proof (cases p)
        case P_Partial
        with ret adv True have "s' = (c1\<lparr>cs_buf := buf\<rparr>, d, w1)"
          by (simp add: s stage_header2_def)
        with n(1,2,4) inv'(1-3) stream True hdr_same show ?thesis
          by (intro exI [of _ "[]"] exI [of _ "take (cs_progress c + n) buf"])
            (simp add: conn_inv_def s')
      next
        case P_Done
        with ret adv True have hd: "header_done E buf (c1, d, w1) = Inr (c', d', w')"
          by (simp add: s s' stage_header2_def)
        have "length buf = sizeof_DataMessage + unat (dm_path_len (get_DataMessage buf))"
          using n(4) inv'(1,2) hdr_same by simp
        from header_done_advances [OF E hd this] obtain fs tail'
          where "conn_inv c' tail'" "list_all is_frame fs" "buf = concat fs @ tail'"
            "inp w' = inp w1" "actions d' = actions d @ map frame_action fs" by blast
        moreover have "tail @ inp w fd = buf @ inp w1 fd"
          using stream P_Done n(2-4) inv'(2) by simp
        ultimately show ?thesis by (intro exI [of _ fs] exI [of _ tail']) simp
      qed (use p in simp)
    qed
    then show ?thesis
      by (simp add: conn_advances_def s s')
  qed
qed

lemma content_frame:
  assumes len: "length buf = sizeof_DataMessage + unat (dm_path_len (get_DataMessage buf))"
    and reg: "dm_ftype (get_DataMessage buf) = ft_regular"
    and content: "length content = unat (dm_fsize (get_DataMessage buf))"
  shows "is_frame (buf @ content)"
    "frame_action (buf @ content) = Install (c_str (get_path buf)) content"
proof -
  have "get_DataMessage (buf @ content) = get_DataMessage buf"
    using len by (intro get_DataMessage_append) simp
  then show "is_frame (buf @ content)"
    "frame_action (buf @ content) = Install (c_str (get_path buf)) content"
    using assms get_path_append [of buf content]
    by (simp_all add: is_frame_def frame_len_def frame_action_def Let_def)
qed

lemma stage_receiving_advances:
  assumes E: "env_streams E inp" and ret: "stage_receiving E fd s = Some (Inr s')"
  shows "conn_advances inp fd s s'"
proof -
  obtain c d w where s: "s = (c, d, w)" by (metis prod_cases3)
  obtain c' d' w' where s': "s' = (c', d', w')" by (metis prod_cases3)
  show ?thesis
  proof (cases "cs_kind c = Receiving")
    case False
    with ret have "s' = s" by (simp add: s stage_receiving_def)
    then show ?thesis by (simp add: conn_advances_refl)
  next
    case True
    with ret obtain p buf c1 w1 where adv: "advance E fd (cs_anon_buf c) c w = Some (p, buf, c1, w1)"
      and p: "p \<noteq> P_Fail"
      by (auto simp: s stage_receiving_def split: option.splits prod.splits Progress.splits)
    have "\<exists>fs tail'. conn_inv c' tail' \<and> list_all is_frame fs \<and>
            tail @ inp w fd = concat fs @ tail' @ inp w' fd \<and>
            actions d' = actions d @ map frame_action fs"
      if inv: "conn_inv c tail" for tail
    proof -
      let ?m = "get_DataMessage (cs_buf c)"
      from inv True have inv':
        "length (cs_buf c) = sizeof_DataMessage + unat (dm_path_len ?m)"
        "dm_ftype ?m = ft_regular" "cs_path c = get_path (cs_buf c)"
        "cs_goal c = unat (dm_fsize ?m)" "cs_progress c \<le> cs_goal c"
        "0 < cs_goal c \<Longrightarrow> length (cs_anon_buf c) = cs_goal c"
        "tail = cs_buf c @ take (cs_progress c) (cs_anon_buf c)"
        by (simp_all add: conn_inv_def Let_def)
      then have fits: "cs_goal c \<le> length (cs_anon_buf c)" by fastforce
      from inv' obtain n where n: "c1 = c\<lparr>cs_progress := cs_progress c + n\<rparr>"
        "cs_progress c + n \<le> cs_goal c" "p = P_Done \<longleftrightarrow> cs_progress c + n = cs_goal c"
        "length buf = length (cs_anon_buf c)"
        "take (cs_progress c + n) buf = take (cs_progress c) (cs_anon_buf c) @ take n (inp w fd)"
        "inp w fd = take n (inp w fd) @ inp w1 fd"
        by (rule_tac advance_stream [OF E adv _ fits p]) auto
      have stream: "tail @ inp w fd = cs_buf c @ take (cs_progress c + n) buf @ inp w1 fd"
        using n(5,6) inv'(7) by simp
      show ?thesis
      proof (cases p)
        case P_Partial
        with ret adv True have "s' = (c1\<lparr>cs_anon_buf := buf\<rparr>, d, w1)"
          by (simp add: s stage_receiving_def)
        with n(1,2,4) inv'(1-4,6) stream True show ?thesis
          by (intro exI [of _ "[]"] exI [of _ "cs_buf c @ take (cs_progress c + n) buf"])
            (simp add: conn_inv_def s')
      next
        case P_Done
        let ?f = "cs_buf c @ take (cs_goal c) buf"
        from P_Done ret adv True n(1) have res: "conn_inv c' [] \<and> inp w' = inp w1 \<and>
            actions d' = actions d @ [Install (c_str (cs_path c)) (take (cs_goal c) buf)]"
          by (auto simp: s s' stage_receiving_def Let_def move_anonfile_def reset_conn_def
              conn_inv_def env_streamsD(5) [OF E] split: prod.splits bool.splits sum.splits)
        have "length (take (cs_goal c) buf) = unat (dm_fsize ?m)"
          using n(4) fits inv'(4) by simp
        note fr = content_frame [OF inv'(1,2) this]
        have "tail @ inp w fd = ?f @ inp w1 fd"
          using stream P_Done n(3) by simp
        with res fr inv'(3) show ?thesis
          by (intro exI [of _ "[?f]"] exI [of _ "[]"]) simp
      qed (use p in simp)
    qed
    then show ?thesis
      by (simp add: conn_advances_def s s')
  qed
qed

lemma on_readable_advances:
  assumes E: "env_streams E inp" and ret: "on_readable E fd s = Some (Inr s')"
  shows "conn_advances inp fd s s'"
proof -
  from ret obtain t u where "stage_header1 E fd (stage_connected s) = Some (Inr t)"
    "stage_header2 E fd t = Some (Inr u)" "stage_receiving E fd u = Some (Inr s')"
    by (auto simp: on_readable_def and_then_Inr)
  then show ?thesis
    by (meson E conn_advances_trans stage_connected_advances stage_header1_advances
        stage_header2_advances stage_receiving_advances)
qed

section \<open>Nothing complete is left waiting\<close>

lemma advance_kind:
  assumes "advance E fd target c w = Some (p, t', c', w')" "cs_progress c \<le> cs_goal c" "p = P_Partial"
    "env_streams E inp" "cs_goal c \<le> length target"
  shows "cs_kind c' = cs_kind c \<and> cs_progress c' < cs_goal c'"
proof -
  from assms have "p \<noteq> P_Fail" by simp
  from advance_stream [OF assms(4,1,2,5) this] obtain n where
    "c' = c\<lparr>cs_progress := cs_progress c + n\<rparr>" "cs_progress c + n \<le> cs_goal c"
    "p = P_Done \<longleftrightarrow> cs_progress c + n = cs_goal c" by metis
  with assms(3) show ?thesis by simp
qed

lemma stage_header1_waits:
  assumes E: "env_streams E inp" and inv: "conn_inv c tail"
    and ret: "stage_header1 E fd (c, d, w) = Some (Inr (c', d', w'))"
  shows "cs_kind c' = HeaderP1 \<longrightarrow> cs_progress c' < cs_goal c'"
proof (cases "cs_kind c = HeaderP1")
  case True
  with inv have "cs_progress c \<le> cs_goal c" "cs_goal c \<le> length (cs_buf c)"
    by (simp_all add: conn_inv_def)
  with True ret show ?thesis
    by (auto simp: stage_header1_def Let_def split: option.splits prod.splits Progress.splits
        dest: advance_kind [OF _ _ _ E])
next
  case False
  with ret show ?thesis by (simp add: stage_header1_def)
qed

lemma header_done_kind:
  "header_done E buf s = Inr (c', d', w') \<Longrightarrow> cs_kind c' = Receiving \<or> cs_kind c' = Connected"
  by (auto simp: header_done_def Let_def split: sum.splits prod.splits bool.splits if_splits)

lemma stage_header2_waits:
  assumes E: "env_streams E inp" and inv: "conn_inv c tail"
    and W: "cs_kind c = HeaderP1 \<longrightarrow> cs_progress c < cs_goal c"
    and ret: "stage_header2 E fd (c, d, w) = Some (Inr (c', d', w'))"
  shows "cs_kind c' = HeaderP1 \<or> cs_kind c' = HeaderP2 \<longrightarrow> cs_progress c' < cs_goal c'"
proof (cases "cs_kind c = HeaderP2")
  case True
  with inv have le: "cs_progress c \<le> cs_goal c" "cs_goal c \<le> length (cs_buf c)"
    by (simp_all add: conn_inv_def)
  with True ret le show ?thesis
    by (auto simp: stage_header2_def split: option.splits prod.splits Progress.splits
        dest: advance_kind [OF _ _ _ E] header_done_kind)
next
  case False
  with ret W show ?thesis by (auto simp: stage_header2_def)
qed

lemma stage_receiving_waits:
  assumes E: "env_streams E inp" and inv: "conn_inv c tail"
    and W: "cs_kind c = HeaderP1 \<or> cs_kind c = HeaderP2 \<longrightarrow> cs_progress c < cs_goal c"
    and ret: "stage_receiving E fd (c, d, w) = Some (Inr (c', d', w'))"
  shows "conn_waiting c'"
proof (cases "cs_kind c = Receiving")
  case True
  with inv have le: "cs_progress c \<le> cs_goal c" "cs_goal c \<le> length (cs_anon_buf c)"
    by (auto simp: conn_inv_def Let_def)
  from True ret le show ?thesis
    by (auto simp: stage_receiving_def Let_def conn_waiting_def
        split: option.splits prod.splits Progress.splits sum.splits dest: advance_kind [OF _ _ _ E])
next
  case False
  with ret W show ?thesis
    by (cases "cs_kind c") (auto simp: stage_receiving_def conn_waiting_def)
qed

lemma conn_advances_inv:
  assumes "conn_advances inp fd (c, d, w) (c', d', w')" "conn_inv c tail"
  obtains tail' where "conn_inv c' tail'"
  using assms by (auto simp: conn_advances_def)

lemma on_readable_waits:
  assumes E: "env_streams E inp" and inv: "conn_inv c tail"
    and ret: "on_readable E fd (c, d, w) = Some (Inr (c', d', w'))"
  shows "conn_waiting c'"
proof -
  obtain c0 d0 w0 where s0: "stage_connected (c, d, w) = (c0, d0, w0)" by (metis prod_cases3)
  from ret s0 obtain c1 d1 w1 c2 d2 w2 where
    1: "stage_header1 E fd (c0, d0, w0) = Some (Inr (c1, d1, w1))" and
    2: "stage_header2 E fd (c1, d1, w1) = Some (Inr (c2, d2, w2))" and
    3: "stage_receiving E fd (c2, d2, w2) = Some (Inr (c', d', w'))"
    by (auto simp: on_readable_def and_then_Inr)
  obtain t0 where i0: "conn_inv c0 t0"
    using stage_connected_advances [of inp fd "(c, d, w)"] inv s0 by (metis conn_advances_inv)
  obtain t1 where i1: "conn_inv c1 t1"
    by (rule conn_advances_inv [OF stage_header1_advances [OF E 1] i0])
  obtain t2 where i2: "conn_inv c2 t2"
    by (rule conn_advances_inv [OF stage_header2_advances [OF E 2] i1])
  show ?thesis
    using stage_header1_waits [OF E i0 1] stage_header2_waits [OF E i1 _ 2]
      stage_receiving_waits [OF E i2 _ 3] by blast
qed

section \<open>Serving a connection\<close>

text \<open>\<open>n\<close> wake-ups of one connection; what happens on others in between does not touch it.\<close>

fun serve :: "('w, 'z) env_scheme \<Rightarrow> fd \<Rightarrow> nat \<Rightarrow> 'w conn \<Rightarrow> (stop + 'w conn) option" where
  "serve E fd 0 s = Some (Inr s)"
| "serve E fd (Suc n) s = and_then (on_readable E fd s) (serve E fd n)"

lemma serve_advances:
  assumes E: "env_streams E inp" and ret: "serve E fd n s = Some (Inr s')"
  shows "conn_advances inp fd s s'"
  using ret
proof (induction n arbitrary: s)
  case 0
  then show ?case by (simp add: conn_advances_refl)
next
  case (Suc n)
  then obtain t where "on_readable E fd s = Some (Inr t)" "serve E fd n t = Some (Inr s')"
    by (auto simp: and_then_Inr)
  with Suc.IH E show ?case by (blast intro: conn_advances_trans on_readable_advances)
qed

lemma serve_waits:
  assumes E: "env_streams E inp" and "conn_inv c tail" "conn_waiting c"
    and "serve E fd n (c, d, w) = Some (Inr (c', d', w'))"
  shows "conn_waiting c'"
  using assms(2-)
proof (induction n arbitrary: c d w tail)
  case (Suc n)
  then obtain c1 d1 w1 where 1: "on_readable E fd (c, d, w) = Some (Inr (c1, d1, w1))"
    and 2: "serve E fd n (c1, d1, w1) = Some (Inr (c', d', w'))"
    by (auto simp: and_then_Inr)
  obtain t1 where "conn_inv c1 t1"
    by (rule conn_advances_inv [OF on_readable_advances [OF E 1] Suc.prems(1)])
  with Suc.IH 2 on_readable_waits [OF E Suc.prems(1) 1] show ?case by blast
qed simp

text \<open>The part of a frame held by a waiting connection is a proper prefix of every frame it begins.\<close>

lemma waiting_tail_partial:
  assumes inv: "conn_inv c tail" and W: "conn_waiting c" and eq: "tail = concat fs"
    and fr: "list_all is_frame fs"
  shows "fs = []"
proof (rule ccontr)
  assume "fs \<noteq> []"
  then obtain f gs where fs: "fs = f # gs" by (cases fs) auto
  with fr have f: "is_frame f" by simp
  then have len: "sizeof_DataMessage \<le> length f" "length f = frame_len f" by (simp_all add: is_frame_def)
  then have tl: "sizeof_DataMessage \<le> length tail" "frame_len f = frame_len tail"
    "frame_len f \<le> length tail"
    using eq fs frame_len_append [of f "concat gs"] by simp_all
  show False
  proof (cases "cs_kind c")
    case Connected
    with inv tl show False by (simp add: conn_inv_def sizeof_DataMessage_def)
  next
    case HeaderP1
    with inv W tl show False by (simp add: conn_inv_def conn_waiting_def)
  next
    case HeaderP2
    then have "frame_len tail = frame_len (cs_buf c)"
      using inv by (simp add: conn_inv_def frame_len_def get_DataMessage_take)
    with HeaderP2 inv W tl show False
      by (simp add: conn_inv_def conn_waiting_def frame_len_def Let_def)
  next
    case Receiving
    then have "frame_len tail = frame_len (cs_buf c)"
      using inv by (simp add: conn_inv_def Let_def frame_len_append)
    with Receiving inv W tl show False
      by (simp add: conn_inv_def conn_waiting_def frame_len_def Let_def)
  qed
qed

section \<open>A cooperative environment, for the witnesses\<close>

definition sim_env :: "sim env" where
  "sim_env =
     \<lparr>e_read = sim_read, e_mkstemp = (\<lambda>w. (Some (9, [116]), w)),
      e_ftruncate = (\<lambda>w fd n. (True, w)), e_mmap = (\<lambda>w fd n. (True, w)),
      e_rename = (\<lambda>w p q. (True, w)), e_mkdir = (\<lambda>w p m. (True, w))\<rparr>"

lemma sim_env_sel [simp]:
  "e_read sim_env = sim_read" "e_mkstemp sim_env w = (Some (9, [116]), w)"
  "e_ftruncate sim_env w fd n = (True, w)" "e_mmap sim_env w fd n = (True, w)"
  "e_rename sim_env w p q = (True, w)" "e_mkdir sim_env w p m = (True, w)"
  by (simp_all add: sim_env_def)

lemma sim_env_streams: "env_streams sim_env (\<lambda>w fd. snd w)"
  using sim_read_stream by (simp add: env_streams_def sim_env_def)

definition init_dstate :: dstate where
  "init_dstate = \<lparr>anon_files = {}, registered = False, elog = []\<rparr>"

text \<open>A frame for a file \<^verbatim>\<open>f\<close> of two bytes, and one wake-up that receives it in pieces.\<close>

definition ex_msg :: DataMessage where
  "ex_msg = \<lparr>dm_seq = 1, dm_perms = 420, dm_ftype = 1, dm_path_len = 1, dm_fsize = 2\<rparr>"

definition ex_frame :: "byte list" where
  "ex_frame = [1, 0, 0, 0, 164, 1, 0, 0, 1, 0, 1, 0, 0, 0, 0, 0, 2, 0, 0, 0, 0, 0, 0, 0, 102, 10, 11]"

lemma ex_put: "put_DataMessage (\<lambda>_. 0) ex_msg =
    [1, 0, 0, 0, 164, 1, 0, 0, 1, 0, 1, 0, 0, 0, 0, 0, 2, 0, 0, 0, 0, 0, 0, 0]"
  by (simp add: put_DataMessage_def ex_msg_def le_bytes_numeral)

lemma ex_frame_put: "ex_frame = put_DataMessage (\<lambda>_. 0) ex_msg @ [102] @ [10, 11]"
  by (simp add: ex_put ex_frame_def)

lemma ex_get:
  "get_DataMessage (1 # 0 # 0 # 0 # 164 # 1 # 0 # 0 # 1 # 0 # 1 # 0 # 0 # 0 # 0 # 0 # 2 # 0 # 0 #
     0 # 0 # 0 # 0 # 0 # rest) = ex_msg"
  using hdr.get_put [of "\<lambda>_. 0" ex_msg rest] unfolding ex_put by simp

lemma ex_is_frame: "is_frame ex_frame" "frame_action ex_frame = Install [102] [10, 11]"
  using message_frame [of "[102]" ex_msg "[10, 11]" "\<lambda>_. 0"]
  by (simp_all add: ex_frame_put ex_msg_def ft_regular_def c_str_def)

lemmas conn_eval = on_readable_def stage_connected_def new_ConnectionState_def stage_header1_def
  stage_header2_def stage_receiving_def header_done_def create_anonfile_def move_anonfile_def
  reset_conn_def advance_def vec_resize_def read_partial_def read_loop.simps
  io_bool_def transient_def MAX_RW_SIZE_def mem_store_def mem_slice_def get_path_def
  sizeof_DataMessage_def ft_regular_def c_str_def register_tempfile_cleanup_def emit_def
  init_dstate_def

lemma ex_serve:
  "\<exists>c d. serve sim_env 5 1 (new_ConnectionState, init_dstate, [Inr 3, Inl EAGAIN], ex_frame) =
     Some (Inr (c, d, [], [])) \<and> cs_kind c = Connected"
  unfolding ex_frame_def by (simp add: conn_eval ex_get ex_msg_def)

text \<open>The frames that have been acted on, over any number of wake-ups.\<close>

lemma conn_transfer:
  assumes E: "env_streams E inp" and sent: "list_all is_frame sent" "inp w fd = concat sent"
    and run: "serve E fd n (new_ConnectionState, d, w) = Some (Inr (c', d', w'))"
  shows "\<exists>k \<le> length sent. actions d' = actions d @ map frame_action (take k sent) \<and>
           (inp w' fd = [] \<longrightarrow> k = length sent)"
proof -
  have new: "conn_inv new_ConnectionState []" "conn_waiting new_ConnectionState"
    by (simp_all add: conn_inv_def conn_waiting_def new_ConnectionState_def)
  from serve_advances [OF E run] new(1) obtain fs tail' where
    fs: "conn_inv c' tail'" "list_all is_frame fs" "inp w fd = concat fs @ tail' @ inp w' fd"
      "actions d' = actions d @ map frame_action fs"
    by (fastforce simp: conn_advances_def)
  with sent obtain hs where hs: "sent = fs @ hs" "tail' @ inp w' fd = concat hs"
    using frames_prefix_unique [of fs sent "tail' @ inp w' fd"] by auto
  have "k = length sent" if "inp w' fd = []" "k = length fs" for k
  proof -
    have "hs = []"
      using waiting_tail_partial [OF fs(1) serve_waits [OF E new run]] that hs sent(1) by auto
    with hs that show ?thesis by simp
  qed
  with fs hs show ?thesis by (intro exI [of _ "length fs"]) simp
qed

text \<open>Memory safety of reception: in every state a connection reaches, the bytes received so far
  and the bytes still asked for lie within the buffer the next read fills (the header buffer
  or the mapping of the temporary file), so no read can write outside it.\<close>

lemma conn_reads_in_bounds:
  assumes E: "env_streams E inp"
    and run: "serve E fd n (new_ConnectionState, d, w) = Some (Inr (c', d', w'))"
  shows "cs_kind c' \<noteq> Connected \<longrightarrow>
         cs_progress c' < cs_goal c' \<and>
         cs_goal c' \<le> length (if cs_kind c' = Receiving then cs_anon_buf c' else cs_buf c')"
proof -
  have new: "conn_inv new_ConnectionState []" "conn_waiting new_ConnectionState"
    by (simp_all add: conn_inv_def conn_waiting_def new_ConnectionState_def)
  obtain tail' where "conn_inv c' tail'"
    by (rule conn_advances_inv [OF serve_advances [OF E run] new(1)])
  with serve_waits [OF E new run] show ?thesis
    by (cases "cs_kind c'") (auto simp: conn_inv_def conn_waiting_def Let_def)
qed

section \<open>Properties\<close>

text \<open>C2. Reception is exact. If the bytes that a fresh connection delivers are a sequence of frames,
  then after any number of wake-ups, however the bytes are split over reads, the daemon has
  performed the actions of the first \<open>k\<close> frames, once each and in order: a regular file is
  installed at its path with exactly the content sent, anything else becomes a directory.
  Once the stream is used up, every frame has been acted on.\<close>

theorem conn_transfer_exact:
  assumes "env_streams E inp" and "list_all is_frame sent" "inp w fd = concat sent"
    and "serve E fd n (new_ConnectionState, d, w) = Some (Inr (c', d', w'))"
  shows "\<exists>k \<le> length sent. actions d' = actions d @ map frame_action (take k sent) \<and>
           (inp w' fd = [] \<longrightarrow> k = length sent)"
  by (rule conn_transfer [OF assms])

theorem conn_transfer_exact_witness:
  "\<exists>c d. serve sim_env 5 1 (new_ConnectionState, init_dstate, [Inr 3, Inl EAGAIN], ex_frame) =
       Some (Inr (c, d, [], [])) \<and>
     actions d = actions init_dstate @ [Install [102] [10, 11]]"
proof -
  obtain c d where run: "serve sim_env 5 1
      (new_ConnectionState, init_dstate, [Inr 3, Inl EAGAIN], ex_frame) = Some (Inr (c, d, [], []))"
    using ex_serve by blast
  have "list_all is_frame [ex_frame]" by (simp add: ex_is_frame)
  from conn_transfer_exact [OF sim_env_streams this _ run] have
    "actions d = actions init_dstate @ [Install [102] [10, 11]]"
    by (auto simp: ex_is_frame)
  with run show ?thesis by blast
qed

end
