(* ===== verification/Daemon_Loop.thy ===== *)
theory Daemon_Loop
  imports Daemon_Inv
begin

text \<open>
  The rest of \<^verbatim>\<open>enu/daemon.h\<close>: opening the listening sockets, connecting to them, and
  \<open>daemon_main\<close> with its poll loop over all descriptors. The loop never returns on its own;
  \<open>daemon_run\<close> performs a given number of turns of it, so that every property is about every
  state the loop reaches.
\<close>

unbundle bit_operations_syntax

section \<open>Environment of the loop\<close>

record 'w net_env = "'w env" +
  e_socket :: "'w \<Rightarrow> fd option \<times> 'w"
  e_setsockopt :: "'w \<Rightarrow> fd \<Rightarrow> bool \<times> 'w"
  e_bind :: "'w \<Rightarrow> fd \<Rightarrow> u16 \<Rightarrow> bool \<times> 'w"
  e_listen :: "'w \<Rightarrow> fd \<Rightarrow> nat \<Rightarrow> bool \<times> 'w"
  e_getfl :: "'w \<Rightarrow> fd \<Rightarrow> u32 option \<times> 'w"
  e_setfl :: "'w \<Rightarrow> fd \<Rightarrow> u32 \<Rightarrow> bool \<times> 'w"
  e_poll :: "'w \<Rightarrow> fd list \<Rightarrow> (nat \<Rightarrow> u16) sysret \<times> 'w"
  e_accept :: "'w \<Rightarrow> fd \<Rightarrow> fd option \<times> 'w"
  e_connect :: "'w \<Rightarrow> fd \<Rightarrow> u16 \<Rightarrow> u32 \<Rightarrow> unit sysret \<times> 'w"

section \<open>Sockets (daemon.h)\<close>

definition O_NONBLOCK :: u32 where
  "O_NONBLOCK = 2048"

definition set_nonblocking :: "('w, 'z) net_env_scheme \<Rightarrow> fd \<Rightarrow> 'w \<Rightarrow> stop + 'w" where
  "set_nonblocking E fd w =
     (case e_getfl E w fd of
        (None, w) \<Rightarrow> Inl (Fatal ''fcntl(fd, F_GETFL, 0)'')
      | (Some flags, w) \<Rightarrow> Inr (snd (e_setfl E w fd (flags OR O_NONBLOCK))))"

definition bind_daemon :: "('w, 'z) net_env_scheme \<Rightarrow> u16 \<Rightarrow> dstate \<times> 'w \<Rightarrow> stop + fd \<times> dstate \<times> 'w"
  where
  "bind_daemon E port s =
     (case s of (d, w) \<Rightarrow>
      (case e_socket E w of
         (None, w) \<Rightarrow> Inl (Fatal ''socket()'')
       | (Some fd, w) \<Rightarrow>
           (case e_setsockopt E w fd of
              (False, w) \<Rightarrow> Inl (Fatal ''setsockopt'')
            | (True, w) \<Rightarrow>
                (case e_bind E w fd port of
                   (False, w) \<Rightarrow> Inl (Fatal ''bind'')
                 | (True, w) \<Rightarrow>
                     (case e_listen E w fd 1 of
                        (False, w) \<Rightarrow> Inl (Fatal ''listen'')
                      | (True, w) \<Rightarrow>
                          (case set_nonblocking E fd w of
                             Inl e \<Rightarrow> Inl e
                           | Inr w \<Rightarrow> Inr (fd, emit (E_bind fd port) d, w)))))))"

text \<open>The retry loop of \<open>connect_to_daemon\<close>, from attempt \<open>5 - k\<close> with the given delay.\<close>

fun connect_attempts ::
  "('w, 'z) net_env_scheme \<Rightarrow> fd \<Rightarrow> u16 \<Rightarrow> u32 \<Rightarrow> nat \<Rightarrow> nat \<Rightarrow> dstate \<times> 'w \<Rightarrow> stop + fd \<times> dstate \<times> 'w"
  where
  "connect_attempts E fd port addr delay 0 s = Inl (Fatal ''connect - retries exhausted'')"
| "connect_attempts E fd port addr delay (Suc k) s =
     (case s of (d, w) \<Rightarrow>
      (case e_connect E w fd port addr of
         (Inr _, w) \<Rightarrow> Inr (fd, d, w)
       | (Inl e, w) \<Rightarrow>
           if e \<noteq> ECONNREFUSED \<and> e \<noteq> ENETUNREACH \<and> e \<noteq> EHOSTUNREACH \<and> e \<noteq> ETIMEDOUT \<and> e \<noteq> EINTR
           then Inl (Fatal ''connect'')
           else connect_attempts E fd port addr (delay * 2) k (emit (E_sleep delay) d, w)))"

text \<open>
  As written: the \<^verbatim>\<open>pfatal("socket()")\<close> after the call of \<^verbatim>\<open>socket\<close> has no guard, and it
  does not return.
\<close>

definition connect_to_daemon ::
  "('w, 'z) net_env_scheme \<Rightarrow> u16 \<Rightarrow> u32 \<Rightarrow> dstate \<times> 'w \<Rightarrow> (stop + fd \<times> dstate \<times> 'w) option" where
  "connect_to_daemon E port addr s =
     (case s of (d, w) \<Rightarrow>
      (case e_socket E w of
         (sock, w) \<Rightarrow>
           (let fd = (case sock of None \<Rightarrow> -1 | Some fd \<Rightarrow> fd)
            in and_then (Some (Inl (Fatal ''socket()'')))
                 (\<lambda>_ :: unit. Some (connect_attempts E fd port addr 1 5 (d, w))))))"

section \<open>The poll loop (daemon\_main)\<close>

definition POLLIN :: u16 where "POLLIN = 1"
definition POLLERR :: u16 where "POLLERR = 8"
definition POLLHUP :: u16 where "POLLHUP = 16"

record pollfd =
  pfd_fd :: fd
  pfd_revents :: u16

record dloop =
  fds :: "pollfd list"
  fds_cap :: nat
  socket_fds :: "fd set"
  states :: "fd \<rightharpoonup> ConnectionState"
  dst :: dstate

text \<open>\<^verbatim>\<open>states[fd]\<close>: the entry, created by value-initialisation when there is none.\<close>

definition state_at :: "(fd \<rightharpoonup> ConnectionState) \<Rightarrow> fd \<Rightarrow> ConnectionState" where
  "state_at m fd = (case m fd of None \<Rightarrow> new_ConnectionState | Some c \<Rightarrow> c)"

text \<open>Erasing entry \<open>idx\<close>: the state's destructor runs, the descriptor leaves the vector.\<close>

definition drop_client :: "nat \<Rightarrow> dloop \<Rightarrow> dloop" where
  "drop_client idx L =
     (let fd = pfd_fd (fds L ! idx) in
      L\<lparr>dst := (case states L fd of None \<Rightarrow> dst L | Some c \<Rightarrow> destroy_conn c (dst L)),
        states := (states L)(fd := None),
        fds := take idx (fds L) @ drop (Suc idx) (fds L)\<rparr>)"

text \<open>
  A readable listening socket. Only the \<open>fds_cap\<close> elements that \<^verbatim>\<open>reserve\<close> asked for are
  sure to fit: appending to a full vector moves it, after which the reference \<^verbatim>\<open>pfd\<close>
  that the code still reads is dangling.
\<close>

definition accept_client ::
  "('w, 'z) net_env_scheme \<Rightarrow> nat \<Rightarrow> fd \<Rightarrow> dloop \<Rightarrow> 'w \<Rightarrow> stop + dloop \<times> 'w" where
  "accept_client E nc fd L w =
     (if length (fds L) > nc * 2 then Inl (Fatal ''one too many connections accepted'')
      else
        (case e_accept E w fd of
           (None, w) \<Rightarrow> Inl (Fatal ''accept'')
         | (Some client_fd, w) \<Rightarrow>
             if length (fds L) < fds_cap L then
               (let c = (state_at (states L) client_fd)\<lparr>cs_client_fd := client_fd, cs_sock_fd := fd\<rparr>
                in Inr (L\<lparr>fds := fds L @ [\<lparr>pfd_fd = client_fd, pfd_revents = 0\<rparr>],
                          states := (states L)(client_fd \<mapsto> c)\<rparr>, w))
             else Inl (Undefined ''pfd used after fds was reallocated'')))"

text \<open>One turn of the \<^verbatim>\<open>for\<close> loop; the flag says that the entry was erased (\<^verbatim>\<open>--idx\<close>).\<close>

definition poll_entry ::
  "('w, 'z) net_env_scheme \<Rightarrow> nat \<Rightarrow> nat \<Rightarrow> dloop \<Rightarrow> 'w \<Rightarrow> (stop + bool \<times> dloop \<times> 'w) option" where
  "poll_entry E nc idx L w =
     (let pfd = fds L ! idx; fd = pfd_fd pfd; rv = pfd_revents pfd in
      if rv AND (POLLHUP OR POLLERR) \<noteq> 0 then Some (Inr (True, drop_client idx L, w))
      else if rv AND POLLIN = 0 then
        Some (Inr (False, L\<lparr>dst := emit (E_warn rv) (dst L)\<rparr>, w))
      else if fd \<in> socket_fds L then
        (case accept_client E nc fd L w of
           Inl e \<Rightarrow> Some (Inl e)
         | Inr (L, w) \<Rightarrow> Some (Inr (False, L, w)))
      else
        (case on_readable E fd (state_at (states L) fd, dst L, w) of
           None \<Rightarrow> None
         | Some (Inl e) \<Rightarrow> Some (Inl e)
         | Some (Inr (c, d, w)) \<Rightarrow>
             Some (Inr (False, L\<lparr>states := (states L)(fd \<mapsto> c), dst := d\<rparr>, w))))"

text \<open>
  The inner loop ends: an entry is passed or erased in every turn, and an entry that is
  added reports no event, so it adds none itself.
\<close>

definition entry_weight :: "pollfd \<Rightarrow> nat" where
  "entry_weight p = (if pfd_revents p AND POLLIN = 0 then 1 else 2)"

definition rest_weight :: "nat \<Rightarrow> dloop \<Rightarrow> nat" where
  "rest_weight idx L = sum_list (map entry_weight (drop idx (fds L)))"

lemma rest_weight_split:
  assumes "idx < length (fds L)"
  shows "rest_weight idx L = entry_weight (fds L ! idx) + rest_weight (Suc idx) L"
  using assms by (simp add: rest_weight_def Cons_nth_drop_Suc [symmetric])

lemma entry_weight_pos: "0 < entry_weight p"
  by (simp add: entry_weight_def)

lemma poll_entry_weight:
  assumes idx: "idx < length (fds L)" and ret: "poll_entry E nc idx L w = Some (Inr (er, L', w'))"
  shows "rest_weight (if er then idx else Suc idx) L' < rest_weight idx L"
proof -
  note split = rest_weight_split [OF idx]
  let ?p = "fds L ! idx"
  show ?thesis
  proof (cases "pfd_revents ?p AND (POLLHUP OR POLLERR) \<noteq> 0")
    case True
    with ret have "er" "fds L' = take idx (fds L) @ drop (Suc idx) (fds L)"
      by (auto simp: poll_entry_def Let_def drop_client_def)
    with idx split entry_weight_pos [of ?p] show ?thesis
      by (simp add: rest_weight_def)
  next
    case False
    show ?thesis
    proof (cases "pfd_revents ?p AND POLLIN = 0")
      case True
      with False ret have "\<not> er" "fds L' = fds L" by (auto simp: poll_entry_def Let_def)
      with split entry_weight_pos [of ?p] show ?thesis by (simp add: rest_weight_def)
    next
      case ev: False
      then have two: "entry_weight ?p = 2" by (simp add: entry_weight_def)
      have "\<not> er \<and> (fds L' = fds L \<or> (\<exists>cfd. fds L' = fds L @ [\<lparr>pfd_fd = cfd, pfd_revents = 0\<rparr>]))"
        using False ev ret
        by (auto simp: poll_entry_def Let_def accept_client_def
            split: if_splits sum.splits option.splits prod.splits)
      with split two idx show ?thesis by (auto simp: rest_weight_def entry_weight_def)
    qed
  qed
qed

function poll_for ::
  "('w, 'z) net_env_scheme \<Rightarrow> nat \<Rightarrow> nat \<Rightarrow> dloop \<Rightarrow> 'w \<Rightarrow> (stop + dloop \<times> 'w) option" where
  "poll_for E nc idx L w =
     (if idx < length (fds L) then
        (case poll_entry E nc idx L w of
           None \<Rightarrow> None
         | Some (Inl e) \<Rightarrow> Some (Inl e)
         | Some (Inr (er, L', w')) \<Rightarrow> poll_for E nc (if er then idx else Suc idx) L' w')
      else Some (Inr (L, w)))"
  by pat_completeness auto
termination
  by (relation "measure (\<lambda>(E, nc, idx, L, w). rest_weight idx L)")
    (auto dest: poll_entry_weight)

declare poll_for.simps [simp del]

text \<open>One turn of \<^verbatim>\<open>while (true)\<close>.\<close>

definition daemon_turn ::
  "('w, 'z) net_env_scheme \<Rightarrow> nat \<Rightarrow> dloop \<times> 'w \<Rightarrow> (stop + dloop \<times> 'w) option" where
  "daemon_turn E nc s =
     (case s of (L, w) \<Rightarrow>
      (case e_poll E w (map pfd_fd (fds L)) of
         (Inl e, w) \<Rightarrow> if e = EINTR then Some (Inr (L, w)) else Some (Inl (Fatal ''poll''))
       | (Inr evs, w) \<Rightarrow>
           poll_for E nc 0
             (L\<lparr>fds := map (\<lambda>i. (fds L ! i)\<lparr>pfd_revents := evs i\<rparr>) [0..<length (fds L)]\<rparr>) w))"

fun daemon_run ::
  "('w, 'z) net_env_scheme \<Rightarrow> nat \<Rightarrow> nat \<Rightarrow> dloop \<times> 'w \<Rightarrow> (stop + dloop \<times> 'w) option" where
  "daemon_run E nc 0 s = Some (Inr s)"
| "daemon_run E nc (Suc n) s = and_then (daemon_turn E nc s) (daemon_run E nc n)"

text \<open>The loop that opens the listening sockets; \<open>k\<close> of them are left.\<close>

fun bind_all :: "('w, 'z) net_env_scheme \<Rightarrow> u16 \<Rightarrow> u16 \<Rightarrow> nat \<Rightarrow> dloop \<times> 'w \<Rightarrow> stop + dloop \<times> 'w"
  where
  "bind_all E base conn 0 s = Inr s"
| "bind_all E base conn (Suc k) s =
     (case s of (L, w) \<Rightarrow>
      (case bind_daemon E (base + conn) (dst L, w) of
         Inl e \<Rightarrow> Inl e
       | Inr (sock, d, w) \<Rightarrow>
           bind_all E base (conn + 1) k
             (L\<lparr>fds := fds L @ [\<lparr>pfd_fd = sock, pfd_revents = 0\<rparr>],
                socket_fds := insert sock (socket_fds L), dst := d\<rparr>, w)))"

definition daemon_main ::
  "('w, 'z) net_env_scheme \<Rightarrow> nat \<Rightarrow> dstate \<times> 'w \<Rightarrow> (stop + dloop \<times> 'w) option" where
  "daemon_main E turns s =
     (case s of (d, w) \<Rightarrow>
      (case read_exact (e_read E) 0 (replicate sizeof_DaemonInitMessage 0) 0 sizeof_DaemonInitMessage w of
         None \<Rightarrow> None
       | Some (r, buf, w) \<Rightarrow>
           if \<not> io_bool r then Some (Inl (Return False))
           else
             (let dmsg = get_DaemonInitMessage buf; nc = unat (n_conns dmsg);
                  L = \<lparr>fds = [], fds_cap = nc * 2, socket_fds = {}, states = Map.empty, dst = d\<rparr>
              in and_then (Some (bind_all E (base_port dmsg) 0 nc (L, w))) (daemon_run E nc turns))))"

section \<open>The invariant of the loop\<close>

text \<open>
  What holds of every connection and of the log: the receive buffers are consistent, nothing
  complete is waiting, and \<open>perms\<close> has never been given a value.
\<close>

fun mkdir_mode_zero :: "effect \<Rightarrow> bool" where
  "mkdir_mode_zero (E_mkdir p m) \<longleftrightarrow> m = 0"
| "mkdir_mode_zero _ \<longleftrightarrow> True"

definition conn_ok :: "ConnectionState \<Rightarrow> bool" where
  "conn_ok c \<longleftrightarrow> (\<exists>tail. conn_inv c tail) \<and> conn_waiting c \<and> cs_perms c = 0"

definition loop_ok :: "dloop \<Rightarrow> bool" where
  "loop_ok L \<longleftrightarrow>
     (\<forall>fd c. states L fd = Some c \<longrightarrow> conn_ok c) \<and> list_all mkdir_mode_zero (elog (dst L))"

lemma new_conn_ok: "conn_ok new_ConnectionState"
  by (auto simp: conn_ok_def conn_inv_def conn_waiting_def new_ConnectionState_def)

lemma state_at_ok: "loop_ok L \<Longrightarrow> conn_ok (state_at (states L) fd)"
  by (auto simp: loop_ok_def state_at_def new_conn_ok split: option.splits)

lemma conn_ok_fds [simp]: "conn_ok (c\<lparr>cs_client_fd := a, cs_sock_fd := b\<rparr>) = conn_ok c"
  by (cases "cs_kind c") (auto simp: conn_ok_def conn_inv_def conn_waiting_def Let_def)

text \<open>The handler keeps the unset \<open>perms\<close>, and hence the mode of every \<^verbatim>\<open>mkdir\<close>.\<close>

definition perms_ok :: "'w conn \<Rightarrow> bool" where
  "perms_ok s \<longleftrightarrow> (case s of (c, d, w) \<Rightarrow> cs_perms c = 0 \<and> list_all mkdir_mode_zero (elog d))"

lemma advance_perms: "advance E fd t c w = Some (p, t', c', w') \<Longrightarrow> cs_perms c' = cs_perms c"
  by (auto simp: advance_def Let_def split: option.splits prod.splits if_splits)

lemmas perms_simps = perms_ok_def emit_def

lemma create_anonfile_perms:
  "create_anonfile E n m (d, w) = Inr (fp, d', w') \<Longrightarrow> list_all mkdir_mode_zero (elog d) \<Longrightarrow>
   list_all mkdir_mode_zero (elog d')"
  by (auto simp: create_anonfile_def Let_def perms_simps register_tempfile_cleanup_def
      split: prod.splits option.splits bool.splits)

lemma header_done_perms:
  assumes "header_done E buf s = Inr s'" "perms_ok s"
  shows "perms_ok s'"
proof -
  obtain c d w where s: "s = (c, d, w)" by (metis prod_cases3)
  show ?thesis
    using assms create_anonfile_perms
    by (fastforce simp: s header_done_def Let_def perms_simps reset_conn_def
        split: sum.splits prod.splits bool.splits if_splits)
qed

lemma stage_perms:
  "perms_ok s \<Longrightarrow> perms_ok (stage_connected s)"
  "stage_header1 E fd s = Some (Inr s') \<Longrightarrow> perms_ok s \<Longrightarrow> perms_ok s'"
  "stage_header2 E fd s = Some (Inr s') \<Longrightarrow> perms_ok s \<Longrightarrow> perms_ok s'"
  "stage_receiving E fd s = Some (Inr s') \<Longrightarrow> perms_ok s \<Longrightarrow> perms_ok s'"
proof -
  obtain c d w where s: "s = (c, d, w)" by (metis prod_cases3)
  show "perms_ok s \<Longrightarrow> perms_ok (stage_connected s)"
    by (auto simp: s stage_connected_def perms_ok_def)
  show "stage_header1 E fd s = Some (Inr s') \<Longrightarrow> perms_ok s \<Longrightarrow> perms_ok s'"
    by (auto simp: s stage_header1_def perms_ok_def Let_def dest: advance_perms
        split: option.splits prod.splits Progress.splits if_splits)
  show "perms_ok s'" if "stage_header2 E fd s = Some (Inr s')" "perms_ok s"
  proof (cases "cs_kind c = HeaderP2")
    case True
    with that s obtain p buf c1 w1 where adv: "advance E fd (cs_buf c) c w = Some (p, buf, c1, w1)"
      by (auto simp: stage_header2_def split: option.splits)
    have ok: "perms_ok (c1, d, w1)"
      using that s advance_perms [OF adv] by (simp add: perms_ok_def)
    show ?thesis
    proof (cases p)
      case P_Done
      with that s True adv have "header_done E buf (c1, d, w1) = Inr s'"
        by (simp add: stage_header2_def)
      then show ?thesis using ok by (rule header_done_perms)
    qed (use that s True adv ok in \<open>auto simp: stage_header2_def perms_ok_def\<close>)
  qed (use that s in \<open>simp add: stage_header2_def\<close>)
  show "perms_ok s'" if "stage_receiving E fd s = Some (Inr s')" "perms_ok s"
  proof (cases "cs_kind c = Receiving")
    case True
    with that s obtain p buf c1 w1 where adv: "advance E fd (cs_anon_buf c) c w = Some (p, buf, c1, w1)"
      by (auto simp: stage_receiving_def split: option.splits)
    have ok: "cs_perms c1 = 0" "list_all mkdir_mode_zero (elog d)"
      using that s advance_perms [OF adv] by (simp_all add: perms_ok_def)
    show ?thesis
      using that s True adv ok
      by (cases p) (auto simp: stage_receiving_def Let_def perms_simps move_anonfile_def reset_conn_def
          split: prod.splits bool.splits)
  qed (use that s in \<open>simp add: stage_receiving_def\<close>)
qed

lemma on_readable_ok:
  assumes E: "env_streams E inp" and ok: "conn_ok c" "list_all mkdir_mode_zero (elog d)"
    and ret: "on_readable E fd (c, d, w) = Some (Inr (c', d', w'))"
  shows "conn_ok c' \<and> list_all mkdir_mode_zero (elog d')"
proof -
  have "perms_ok (c', d', w')"
  proof -
    from ret obtain t u where "stage_header1 E fd (stage_connected (c, d, w)) = Some (Inr t)"
      "stage_header2 E fd t = Some (Inr u)" "stage_receiving E fd u = Some (Inr (c', d', w'))"
      by (auto simp: on_readable_def and_then_Inr)
    moreover have "perms_ok (c, d, w)" using ok by (simp add: perms_ok_def conn_ok_def)
    ultimately show ?thesis by (blast intro: stage_perms)
  qed
  moreover from ok obtain tail where "conn_inv c tail" by (auto simp: conn_ok_def)
  moreover from this obtain tail' where "conn_inv c' tail'"
    using conn_advances_inv [OF on_readable_advances [OF E ret]] by blast
  ultimately show ?thesis
    using on_readable_waits [OF E _ ret] by (auto simp: conn_ok_def perms_ok_def)
qed

section \<open>Every turn keeps the invariant\<close>

lemma destroy_conn_log:
  "list_all mkdir_mode_zero (elog d) \<Longrightarrow> list_all mkdir_mode_zero (elog (destroy_conn c d))"
  by (simp add: destroy_conn_def close_if_open_def emit_def)

lemma accept_client_ok:
  assumes "accept_client E nc fd L w = Inr (L', w')" "loop_ok L"
  shows "loop_ok L'"
  using assms state_at_ok [OF assms(2)]
  by (auto simp: accept_client_def Let_def loop_ok_def split: if_splits option.splits prod.splits)

lemma poll_entry_ok:
  assumes E: "env_streams E inp" and ok: "loop_ok L"
    and ret: "poll_entry E nc idx L w = Some (Inr (er, L', w'))"
  shows "loop_ok L'"
proof -
  let ?p = "fds L ! idx"
  consider (hup) "pfd_revents ?p AND (POLLHUP OR POLLERR) \<noteq> 0"
    | (idle) "pfd_revents ?p AND (POLLHUP OR POLLERR) = 0" "pfd_revents ?p AND POLLIN = 0"
    | (ready) "pfd_revents ?p AND (POLLHUP OR POLLERR) = 0" "pfd_revents ?p AND POLLIN \<noteq> 0"
    by blast
  then show ?thesis
  proof cases
    case hup
    with ret ok show ?thesis
      by (auto simp: poll_entry_def Let_def drop_client_def loop_ok_def destroy_conn_log
          split: option.splits if_splits)
  next
    case idle
    with ret ok show ?thesis
      by (auto simp: poll_entry_def Let_def loop_ok_def emit_def)
  next
    case ready
    show ?thesis
    proof (cases "pfd_fd ?p \<in> socket_fds L")
      case True
      with ready ret ok show ?thesis
        by (auto simp: poll_entry_def Let_def split: sum.splits intro: accept_client_ok)
    next
      case False
      with ready ret obtain c d w1 where
        rd: "on_readable E (pfd_fd ?p) (state_at (states L) (pfd_fd ?p), dst L, w) = Some (Inr (c, d, w1))"
        and L': "L' = L\<lparr>states := (states L)(pfd_fd ?p \<mapsto> c), dst := d\<rparr>"
        by (auto simp: poll_entry_def Let_def split: option.splits sum.splits)
      from on_readable_ok [OF E state_at_ok [OF ok] _ rd] ok
      have "conn_ok c \<and> list_all mkdir_mode_zero (elog d)" by (simp add: loop_ok_def)
      with ok L' show ?thesis by (simp add: loop_ok_def)
    qed
  qed
qed

text \<open>An invariant of single entries is one of the whole \<^verbatim>\<open>for\<close> loop, of a turn and of a run.\<close>

lemma poll_for_invariant:
  assumes step: "\<And>idx L w er L' w'. I L \<Longrightarrow> poll_entry E nc idx L w = Some (Inr (er, L', w')) \<Longrightarrow> I L'"
  shows "I L \<Longrightarrow> poll_for E nc idx L w = Some (Inr (L', w')) \<Longrightarrow> I L'"
proof (induction "rest_weight idx L" arbitrary: idx L w rule: less_induct)
  case less
  show ?case
  proof (cases "idx < length (fds L)")
    case True
    with less.prems obtain er L1 w1 where pe: "poll_entry E nc idx L w = Some (Inr (er, L1, w1))"
      and rest: "poll_for E nc (if er then idx else Suc idx) L1 w1 = Some (Inr (L', w'))"
      by (auto simp: poll_for.simps [of E nc idx L w] split: option.splits sum.splits)
    from poll_entry_weight [OF True pe] step [OF less.prems(1) pe] rest show ?thesis
      by (rule less.hyps)
  next
    case False
    with less.prems show ?thesis by (simp add: poll_for.simps [of E nc idx L w])
  qed
qed

lemma daemon_run_invariant:
  assumes step: "\<And>idx L w er L' w'. I L \<Longrightarrow> poll_entry E nc idx L w = Some (Inr (er, L', w')) \<Longrightarrow> I L'"
    and rev: "\<And>L f. I L \<Longrightarrow> I (L\<lparr>fds := map (\<lambda>i. (fds L ! i)\<lparr>pfd_revents := f i\<rparr>) [0..<length (fds L)]\<rparr>)"
  shows "I L \<Longrightarrow> daemon_run E nc n (L, w) = Some (Inr (L', w')) \<Longrightarrow> I L'"
proof (induction n arbitrary: L w)
  case (Suc n)
  then obtain L1 w1 where t: "daemon_turn E nc (L, w) = Some (Inr (L1, w1))"
    and r: "daemon_run E nc n (L1, w1) = Some (Inr (L', w'))"
    by (auto simp: and_then_Inr)
  have pf: "I L1" if "I L0" "poll_for E nc 0 L0 w0 = Some (Inr (L1, w1))" for L0 w0
    by (rule poll_for_invariant [of I E nc L0 0 w0 L1 w1]) (fact step that)+
  have "I L1"
    using t rev [OF Suc.prems(1)] Suc.prems(1) pf
    by (auto simp: daemon_turn_def split: prod.splits sum.splits if_splits)
  with Suc.IH r show ?case by blast
qed simp

lemma daemon_run_ok:
  assumes E: "env_streams E inp" and "loop_ok L" "daemon_run E nc n (L, w) = Some (Inr (L', w'))"
  shows "loop_ok L'"
proof (rule daemon_run_invariant [of loop_ok E nc L n w L' w'])
  show "loop_ok L1" if "loop_ok L0" "poll_entry E nc idx L0 w0 = Some (Inr (er, L1, w1))"
    for idx L0 w0 er L1 w1
    using E that by (rule poll_entry_ok)
qed (use assms in \<open>simp_all add: loop_ok_def\<close>)

text \<open>The listening sockets are opened before there is any connection.\<close>

lemma bind_daemon_log:
  assumes "bind_daemon E port (d, w) = Inr (fd, d', w')"
  shows "d' = emit (E_bind fd port) d"
  using assms by (auto simp: bind_daemon_def split: option.splits prod.splits bool.splits sum.splits)

lemma bind_all_ok:
  "bind_all E base conn k (L, w) = Inr (L', w') \<Longrightarrow> loop_ok L \<Longrightarrow> loop_ok L'"
proof (induction k arbitrary: conn L w)
  case (Suc k)
  then obtain sock d w1 where b: "bind_daemon E (base + conn) (dst L, w) = Inr (sock, d, w1)"
    by (auto split: sum.splits)
  with Suc.prems Suc.IH show ?case
    by (auto simp: bind_daemon_log [OF b] loop_ok_def emit_def)
qed simp

lemma daemon_main_ok:
  assumes E: "env_streams E inp" and log: "list_all mkdir_mode_zero (elog d)"
    and run: "daemon_main E turns (d, w) = Some (Inr (L, w'))"
  shows "loop_ok L"
proof -
  from run obtain nc base L0 w0 L1 w1
    where b: "bind_all E base 0 nc (L0, w0) = Inr (L1, w1)"
      and r: "daemon_run E nc turns (L1, w1) = Some (Inr (L, w'))"
      and L0: "states L0 = Map.empty" "dst L0 = d"
    by (auto simp: daemon_main_def Let_def and_then_Inr split: option.splits prod.splits if_splits)
  from L0 log have "loop_ok L0" by (simp add: loop_ok_def)
  from daemon_run_ok [OF E bind_all_ok [OF b this] r] show ?thesis .
qed

section \<open>The listening sockets\<close>

fun bound_ports :: "effect list \<Rightarrow> u16 list" where
  "bound_ports [] = []"
| "bound_ports (E_bind fd p # es) = p # bound_ports es"
| "bound_ports (_ # es) = bound_ports es"

lemma bound_ports_append [simp]: "bound_ports (es @ fs) = bound_ports es @ bound_ports fs"
  by (induction es rule: bound_ports.induct) auto

lemma bind_all_ports:
  assumes "bind_all E base conn k (L, w) = Inr (L', w')"
  shows "bound_ports (elog (dst L')) =
           bound_ports (elog (dst L)) @ map (\<lambda>i. base + conn + of_nat i) [0..<k] \<and>
         length (fds L') = length (fds L) + k \<and> socket_fds L \<subseteq> socket_fds L' \<and>
         fds_cap L' = fds_cap L \<and> states L' = states L"
  using assms
proof (induction k arbitrary: conn L w)
  case (Suc k)
  then obtain sock d w1 where b: "bind_daemon E (base + conn) (dst L, w) = Inr (sock, d, w1)"
    by (auto split: sum.splits)
  let ?L = "L\<lparr>fds := fds L @ [\<lparr>pfd_fd = sock, pfd_revents = 0\<rparr>],
              socket_fds := insert sock (socket_fds L), dst := d\<rparr>"
  from b Suc.prems have "bind_all E base (conn + 1) k (?L, w1) = Inr (L', w')" by simp
  from Suc.IH [OF this] bind_daemon_log [OF b] show ?case
    by (auto simp: emit_def map_upt_Suc algebra_simps simp del: upt_Suc)
qed simp

section \<open>A turn of the loop completes\<close>

lemma advance_returns:
  assumes "transient_bounded (\<lambda>w (fd, n). e_read E w fd n) m"
  shows "advance E fd t c w \<noteq> None"
  using read_partial_total [OF assms, of fd t "cs_progress c" "cs_goal c - cs_progress c" w]
  by (auto simp: advance_def Let_def)

lemma on_readable_returns:
  assumes "transient_bounded (\<lambda>w (fd, n). e_read E w fd n) m"
  shows "on_readable E fd s \<noteq> None"
proof -
  have "stage_header1 E fd s \<noteq> None" for s
    by (auto simp: stage_header1_def Let_def advance_returns [OF assms] split: prod.splits option.splits Progress.splits)
  moreover have "stage_header2 E fd s \<noteq> None" for s
    by (auto simp: stage_header2_def advance_returns [OF assms] split: prod.splits option.splits Progress.splits)
  moreover have "stage_receiving E fd s \<noteq> None" for s
    by (auto simp: stage_receiving_def Let_def advance_returns [OF assms]
        split: prod.splits option.splits Progress.splits sum.splits)
  ultimately show ?thesis
    by (auto simp: on_readable_def and_then_def split: option.splits sum.splits)
qed

lemma poll_entry_returns:
  assumes "transient_bounded (\<lambda>w (fd, n). e_read E w fd n) m"
  shows "poll_entry E nc idx L w \<noteq> None"
  by (auto simp: poll_entry_def Let_def on_readable_returns [OF assms] split: option.splits sum.splits)

lemma poll_for_returns:
  assumes "transient_bounded (\<lambda>w (fd, n). e_read E w fd n) m"
  shows "poll_for E nc idx L w \<noteq> None"
proof (induction "rest_weight idx L" arbitrary: idx L w rule: less_induct)
  case less
  show ?case
  proof (cases "idx < length (fds L)")
    case True
    have "poll_for E nc (if er then idx else Suc idx) L1 w1 \<noteq> None"
      if "poll_entry E nc idx L w = Some (Inr (er, L1, w1))" for er L1 w1
      by (rule less [OF poll_entry_weight [OF True that]])
    then show ?thesis
      using poll_entry_returns [OF assms, of nc idx L w]
      by (auto simp: poll_for.simps [of E nc idx L w] split: option.splits sum.splits)
  next
    case False
    then show ?thesis by (simp add: poll_for.simps [of E nc idx L w])
  qed
qed

text \<open>The milliseconds a run has slept.\<close>

fun slept :: "effect list \<Rightarrow> nat" where
  "slept [] = 0"
| "slept (E_sleep n # es) = n + slept es"
| "slept (_ # es) = slept es"

lemma slept_append [simp]: "slept (es @ fs) = slept es + slept fs"
  by (induction es rule: slept.induct) auto

section \<open>A cooperative environment, for the witnesses\<close>

text \<open>Descriptor 3 listens, descriptor 7 is the client; the client is ready once it is there.\<close>

definition sim_net :: "sim net_env" where
  "sim_net =
     \<lparr>e_read = sim_read, e_mkstemp = (\<lambda>w. (Some (9, [116]), w)),
      e_ftruncate = (\<lambda>w fd n. (True, w)), e_mmap = (\<lambda>w fd n. (True, w)),
      e_rename = (\<lambda>w p q. (True, w)), e_mkdir = (\<lambda>w p m. (True, w)),
      e_socket = (\<lambda>w. (Some 3, w)), e_setsockopt = (\<lambda>w fd. (True, w)),
      e_bind = (\<lambda>w fd p. (True, w)), e_listen = (\<lambda>w fd n. (True, w)),
      e_getfl = (\<lambda>w fd. (Some 2, w)), e_setfl = (\<lambda>w fd n. (True, w)),
      e_poll = (\<lambda>w l. (Inr (\<lambda>i. if i + 1 = length l then POLLIN else 0), w)),
      e_accept = (\<lambda>w fd. (Some 7, w)), 
      e_connect = (\<lambda>w fd p a. case fst w of Inl e # sc \<Rightarrow> (Inl e, sc, snd w) | _ \<Rightarrow> (Inr (), w))\<rparr>"

lemma sim_net_sel [simp]:
  "e_read sim_net = sim_read" "e_mkstemp sim_net w = (Some (9, [116]), w)"
  "e_ftruncate sim_net w fd n = (True, w)" "e_mmap sim_net w fd n = (True, w)"
  "e_rename sim_net w p q = (True, w)" "e_mkdir sim_net w p m = (True, w)"
  "e_socket sim_net w = (Some 3, w)" "e_setsockopt sim_net w fd = (True, w)"
  "e_bind sim_net w fd port = (True, w)" "e_listen sim_net w fd n = (True, w)"
  "e_getfl sim_net w fd = (Some 2, w)" "e_setfl sim_net w fd fl = (True, w)"
  "e_poll sim_net w l = (Inr (\<lambda>i. if i + 1 = length l then POLLIN else 0), w)"
  "e_accept sim_net w fd = (Some 7, w)"
  "e_connect sim_net w fd port a =
     (case fst w of Inl e # sc \<Rightarrow> (Inl e, sc, snd w) | _ \<Rightarrow> (Inr (), w))"
  by (simp_all add: sim_net_def)

lemma sim_net_streams: "env_streams sim_net (\<lambda>w fd. snd w)"
  using sim_read_stream by (simp add: env_streams_def sim_net_def)

text \<open>One connection on port 50000; the client sends a directory, then the start of a header.\<close>

definition ex_dir_msg :: DataMessage where
  "ex_dir_msg = \<lparr>dm_seq = 1, dm_perms = 493, dm_ftype = 2, dm_path_len = 1, dm_fsize = 0\<rparr>"

definition ex_net_stream :: "byte list" where
  "ex_net_stream = [80, 195, 1, 0, 1, 0, 0, 0, 237, 1, 0, 0, 2, 0, 1, 0, 0, 0, 0, 0, 0, 0, 0, 0,
     0, 0, 0, 0, 100, 1, 0]"

lemma ex_dir_put: "put_DataMessage (\<lambda>_. 0) ex_dir_msg =
    [1, 0, 0, 0, 237, 1, 0, 0, 2, 0, 1, 0, 0, 0, 0, 0, 0, 0, 0, 0, 0, 0, 0, 0]"
  by (simp add: put_DataMessage_def ex_dir_msg_def le_bytes_numeral)

lemma ex_dir_get:
  "get_DataMessage (1 # 0 # 0 # 0 # 237 # 1 # 0 # 0 # 2 # 0 # 1 # 0 # 0 # 0 # 0 # 0 # 0 # 0 # 0 #
     0 # 0 # 0 # 0 # 0 # rest) = ex_dir_msg"
  using hdr.get_put [of "\<lambda>_. 0" ex_dir_msg rest] unfolding ex_dir_put by simp

lemma ex_init_get: "get_DaemonInitMessage [80, 195, 1, 0] = \<lparr>base_port = 50000, n_conns = 1\<rparr>"
  by (simp add: get_DaemonInitMessage_def mem_slice_def)

lemmas loop_eval = daemon_main_def read_exact_def exact_result_def sizeof_DaemonInitMessage_def
  bind_daemon_def set_nonblocking_def daemon_turn_def poll_for.simps poll_entry_def accept_client_def
  state_at_def POLLIN_def POLLHUP_def POLLERR_def

text \<open>Two turns of the loop on two such clients, one that stops inside a header.\<close>

lemma ex_run_partial:
  "\<exists>L c w'. daemon_main sim_net (Suc (Suc 0)) (init_dstate, [], [80, 195, 1, 0, 1, 0]) = Some (Inr (L, w')) \<and>
     states L 7 = Some c \<and> cs_kind c = HeaderP1"
  by (simp add: loop_eval conn_eval ex_init_get)

lemma ex_run_dir:
  "\<exists>L w'. daemon_main sim_net (Suc (Suc 0)) (init_dstate, [], ex_net_stream) = Some (Inr (L, w')) \<and>
     (\<exists>mode. E_mkdir [100] mode \<in> set (elog (dst L)))"
  by (simp add: loop_eval conn_eval ex_init_get ex_dir_get ex_dir_msg_def ex_net_stream_def)

text \<open>The retry loop of a connection is bounded and patient only for the listed errors: it returns the
  descriptor of its argument after a successful connect, having slept at most
  \<open>2 ^ k - 1\<close> times the initial delay over its \<open>k\<close> attempts.\<close>

lemma connect_attempts_bounded:
  assumes "connect_attempts E fd port addr delay k (d, w) = Inr (fd', d', w')"
  shows "fd' = fd \<and> slept (elog d') + delay \<le> slept (elog d) + delay * 2 ^ k"
  using assms
proof (induction k arbitrary: delay d w)
  case (Suc k)
  show ?case
  proof (cases "e_connect E w fd port addr")
    case (Pair r w1)
    show ?thesis
    proof (cases r)
      case (Inr u)
      with Pair Suc.prems show ?thesis by simp
    next
      case (Inl e)
      with Pair Suc.prems have
        "connect_attempts E fd port addr (delay * 2) k (emit (E_sleep delay) d, w1) = Inr (fd', d', w')"
        by (simp split: if_splits)
      from Suc.IH [OF this] show ?thesis by (simp add: emit_def)
    qed
  qed
qed simp

section \<open>Properties\<close>



text \<open>C10. Everything the daemon loop does is within bounds: in every state that \<open>daemon_main\<close>
  reaches, with any number of connections and any interleaving of their events, each
  connection that is in the middle of a message has asked for at most what its buffer holds.\<close>

theorem daemon_main_in_bounds:
  assumes "env_streams E inp"
    and "daemon_main E turns (init_dstate, w) = Some (Inr (L, w'))"
    and "states L fd = Some c" and "cs_kind c \<noteq> Connected"
  shows "cs_progress c < cs_goal c \<and>
         cs_goal c \<le> length (if cs_kind c = Receiving then cs_anon_buf c else cs_buf c)"
proof -
  have "list_all mkdir_mode_zero (elog init_dstate)" by (simp add: init_dstate_def)
  from daemon_main_ok [OF assms(1) this assms(2)] assms(3) have "conn_ok c"
    by (simp add: loop_ok_def)
  then show ?thesis
    using assms(4) by (cases "cs_kind c") (auto simp: conn_ok_def conn_inv_def conn_waiting_def Let_def)
qed

theorem daemon_main_in_bounds_witness:
  "\<exists>L c w'. daemon_main sim_net (Suc (Suc 0)) (init_dstate, [], [80, 195, 1, 0, 1, 0]) = Some (Inr (L, w')) \<and>
     states L 7 = Some c \<and> cs_kind c = HeaderP1 \<and>
     cs_progress c < cs_goal c \<and> cs_goal c \<le> length (cs_buf c)"
proof -
  obtain L c w' where run: "daemon_main sim_net (Suc (Suc 0)) (init_dstate, [], [80, 195, 1, 0, 1, 0]) = Some (Inr (L, w'))"
    and c: "states L 7 = Some c" "cs_kind c = HeaderP1"
    using ex_run_partial by blast
  from daemon_main_in_bounds [OF sim_net_streams run c(1)] run c show ?thesis by auto
qed

text \<open>C26. The permissions of a message are never applied: every directory the daemon creates is
  created with mode 0, whatever the sender's message says.\<close>

theorem daemon_mkdir_mode:
  assumes "env_streams E inp"
    and "daemon_main E turns (init_dstate, w) = Some (Inr (L, w'))"
    and "E_mkdir p mode \<in> set (elog (dst L))"
  shows "mode = 0"
proof -
  have "list_all mkdir_mode_zero (elog init_dstate)" by (simp add: init_dstate_def)
  from daemon_main_ok [OF assms(1) this assms(2)] assms(3) have "mkdir_mode_zero (E_mkdir p mode)"
    unfolding loop_ok_def list_all_iff by blast
  then show ?thesis by simp
qed

theorem daemon_mkdir_mode_witness:
  "\<exists>L w'. daemon_main sim_net (Suc (Suc 0)) (init_dstate, [], ex_net_stream) = Some (Inr (L, w')) \<and>
     E_mkdir [100] 0 \<in> set (elog (dst L))"
proof -
  obtain L w' mode where run: "daemon_main sim_net (Suc (Suc 0)) (init_dstate, [], ex_net_stream) = Some (Inr (L, w'))"
    and m: "E_mkdir [100] mode \<in> set (elog (dst L))"
    using ex_run_dir by blast
  from daemon_mkdir_mode [OF sim_net_streams run m] run m show ?thesis by auto
qed




text \<open>C29. The daemon listens on the \<open>n_conns\<close> consecutive ports from \<open>base_port\<close> on, one
  descriptor each, in 16-bit arithmetic: past 65535 the numbers continue at 0. Port
  \<open>base_port + n_conns\<close> is not among them unless the count wraps all the way round.\<close>

theorem daemon_ports:
  assumes "bind_all E base 0 nc (L, w) = Inr (L', w')" and "nc < 65536"
    and "bound_ports (elog (dst L)) = []"
  shows "bound_ports (elog (dst L')) = map (\<lambda>i. base + of_nat i) [0..<nc] \<and>
         length (fds L') = length (fds L) + nc \<and>
         base + of_nat nc \<notin> set (bound_ports (elog (dst L')))"
proof -
  have ports: "bound_ports (elog (dst L')) = map (\<lambda>i. base + of_nat i) [0..<nc]"
    and "length (fds L') = length (fds L) + nc"
    using bind_all_ports [OF assms(1)] assms(3) by simp_all
  moreover have "of_nat nc \<notin> (of_nat :: nat \<Rightarrow> u16) ` {0..<nc}"
    using assms(2) by (auto dest!: arg_cong [where f = unat] simp: unat_of_nat)
  ultimately show ?thesis by (auto simp: image_iff)
qed

theorem daemon_ports_witness:
  "\<exists>L' w'. bind_all sim_net 65535 0 (Suc (Suc 0))
     (\<lparr>fds = [], fds_cap = 4, socket_fds = {}, states = Map.empty, dst = init_dstate\<rparr>, [], []) = Inr (L', w') \<and>
     bound_ports (elog (dst L')) = map (\<lambda>i. 65535 + of_nat i) [0..<Suc (Suc 0)] \<and> length (fds L') = 2 \<and>
     65535 + of_nat (Suc (Suc 0)) \<notin> set (bound_ports (elog (dst L')))"
proof -
  let ?L = "\<lparr>fds = [], fds_cap = 4, socket_fds = {}, states = Map.empty, dst = init_dstate\<rparr>"
  obtain L' w' where run: "bind_all sim_net 65535 0 (Suc (Suc 0)) (?L, [], []) = Inr (L', w')"
    by (simp add: bind_daemon_def set_nonblocking_def)
  have "bound_ports (elog (dst ?L)) = []" by (simp add: init_dstate_def)
  from daemon_ports [OF run _ this] run show ?thesis by auto
qed

end
