(* ===== verification/Arg_Parser.thy ===== *)
theory Arg_Parser
  imports Enu_Prelude
begin

text \<open>
  The command line (\<^verbatim>\<open>enu/argparser.cpp\<close>, \<^verbatim>\<open>enu/argparser.h\<close>). The parser consumes words from the
  front of \<^verbatim>\<open>prog_args\<close>; its specification is a grammar of options (\<open>opt\<close>), each with the
  words that spell it and its effect on the arguments. The theorems say that the parser
  accepts exactly the sentences of the grammar and which error it reports otherwise.
  Doubles are an abstract type: \<^verbatim>\<open>std::stod\<close> is an argument \<open>stod\<close> that gives the number or
  nothing when it throws.
\<close>

section \<open>Model (argparser.h, argparser.cpp)\<close>

record 'd Args =
  a_daemon :: bool
  a_sequencer :: bool
  a_path :: string
  a_latency :: 'd
  a_user_host :: string

text \<open>How \<^verbatim>\<open>parse\<close> ends without a result: \<^verbatim>\<open>exit(1)\<close>, an exception, undefined behaviour.\<close>

datatype parse_error =
    RequiresValue string
  | InvalidArgument string
  | MissingHost
  | StodThrows string
  | NoProgramName

definition strip_dash :: "string \<Rightarrow> string option" where
  "strip_dash arg =
     (if take 2 arg = ''--'' then Some (drop 2 arg)
      else if take 1 arg = ''-'' then Some (drop 1 arg)
      else None)"

text \<open>
  The readers look at \<^verbatim>\<open>prog_args[0]\<close>; they are called on a non-empty span only. A reader that
  does not apply gives None and leaves the span as it is.
\<close>

fun read_flag :: "string \<Rightarrow> string list \<Rightarrow> string list option" where
  "read_flag exp [] = None"
| "read_flag exp (arg # prog_args) = (if strip_dash arg = Some exp then Some prog_args else None)"

definition read_value :: "string \<Rightarrow> string list \<Rightarrow> parse_error + (string \<times> string list) option" where
  "read_value exp prog_args =
     (case read_flag exp prog_args of
        None \<Rightarrow> Inr None
      | Some [] \<Rightarrow> Inl (RequiresValue exp)
      | Some (v # rest) \<Rightarrow> Inr (Some (v, rest)))"

fun read_target_host :: "string list \<Rightarrow> (string \<times> string list) option" where
  "read_target_host [] = None"
| "read_target_host (arg # prog_args) =
     (if count_list arg CHR ''@'' = 1 then Some (arg, prog_args) else None)"

text \<open>The body of the \<^verbatim>\<open>while\<close> loop: the arguments and the words left.\<close>

definition parse_step ::
  "(string \<Rightarrow> 'd option) \<Rightarrow> 'd Args \<Rightarrow> string list \<Rightarrow> parse_error + 'd Args \<times> string list" where
  "parse_step stod arg ws =
     (case read_flag ''daemon'' ws of
        Some rest \<Rightarrow> Inr (arg\<lparr>a_daemon := True\<rparr>, rest)
      | None \<Rightarrow>
     (case read_value ''path'' ws of
        Inl e \<Rightarrow> Inl e
      | Inr (Some (v, rest)) \<Rightarrow> Inr (arg\<lparr>a_path := v\<rparr>, rest)
      | Inr None \<Rightarrow>
     (case read_value ''latency'' ws of
        Inl e \<Rightarrow> Inl e
      | Inr (Some (v, rest)) \<Rightarrow>
          (case stod v of
             None \<Rightarrow> Inl (StodThrows v)
           | Some x \<Rightarrow> Inr (arg\<lparr>a_latency := x\<rparr>, rest))
      | Inr None \<Rightarrow>
     (case read_target_host ws of
        Some (v, rest) \<Rightarrow> Inr (arg\<lparr>a_user_host := v\<rparr>, rest)
      | None \<Rightarrow> Inl (InvalidArgument (hd ws))))))"

lemma parse_step_shorter:
  assumes "parse_step stod arg ws = Inr (arg', rest)"
  shows "length rest < length ws"
  using assms
  by (cases ws) (auto simp: parse_step_def read_value_def split: option.splits sum.splits list.splits if_splits)

function parse_loop :: "(string \<Rightarrow> 'd option) \<Rightarrow> 'd Args \<Rightarrow> string list \<Rightarrow> parse_error + 'd Args" where
  "parse_loop stod arg ws =
     (if ws = [] then Inr arg
      else (case parse_step stod arg ws of
              Inl e \<Rightarrow> Inl e
            | Inr (arg', rest) \<Rightarrow> parse_loop stod arg' rest))"
  by pat_completeness auto
termination
  by (relation "measure (\<lambda>(stod, arg, ws). length ws)") (auto dest: parse_step_shorter)

declare parse_loop.simps [simp del]

definition default_Args :: "'d \<Rightarrow> 'd Args" where
  "default_Args zero =
     \<lparr>a_daemon = False, a_sequencer = False, a_path = [], a_latency = zero, a_user_host = []\<rparr>"

text \<open>
  \<open>zero\<close> is the double 0.0. With no program name the span gets the extent \<^verbatim>\<open>(size_t)-1\<close>.
\<close>

fun parse :: "(string \<Rightarrow> 'd option) \<Rightarrow> 'd \<Rightarrow> string list \<Rightarrow> parse_error + 'd Args" where
  "parse stod zero [] = Inl NoProgramName"
| "parse stod zero (prog # prog_args) =
     (case parse_loop stod (default_Args zero) prog_args of
        Inl e \<Rightarrow> Inl e
      | Inr arg \<Rightarrow>
          if \<not> a_daemon arg \<and> \<not> a_sequencer arg \<and> a_user_host arg = [] then Inl MissingHost
          else Inr arg)"

section \<open>Specification: a grammar of options\<close>

text \<open>The flag \<open>long\<close> chooses between two dashes and one.\<close>

datatype opt =
    Daemon_opt (long: bool)
  | Path_opt (long: bool) string
  | Latency_opt (long: bool) string
  | Host_opt string

definition flag :: "bool \<Rightarrow> string \<Rightarrow> string" where
  "flag l name = (if l then ''--'' @ name else ''-'' @ name)"

fun opt_words :: "opt \<Rightarrow> string list" where
  "opt_words (Daemon_opt l) = [flag l ''daemon'']"
| "opt_words (Path_opt l v) = [flag l ''path'', v]"
| "opt_words (Latency_opt l v) = [flag l ''latency'', v]"
| "opt_words (Host_opt v) = [v]"

fun opt_ok :: "(string \<Rightarrow> 'd option) \<Rightarrow> opt \<Rightarrow> bool" where
  "opt_ok stod (Latency_opt l v) \<longleftrightarrow> stod v \<noteq> None"
| "opt_ok stod (Host_opt v) \<longleftrightarrow> count_list v CHR ''@'' = 1"
| "opt_ok stod _ \<longleftrightarrow> True"

fun opt_apply :: "(string \<Rightarrow> 'd option) \<Rightarrow> opt \<Rightarrow> 'd Args \<Rightarrow> 'd Args" where
  "opt_apply stod (Daemon_opt l) arg = arg\<lparr>a_daemon := True\<rparr>"
| "opt_apply stod (Path_opt l v) arg = arg\<lparr>a_path := v\<rparr>"
| "opt_apply stod (Latency_opt l v) arg = arg\<lparr>a_latency := the (stod v)\<rparr>"
| "opt_apply stod (Host_opt v) arg = arg\<lparr>a_user_host := v\<rparr>"

text \<open>The words after which no option can follow, and the error for them.\<close>

inductive stuck :: "(string \<Rightarrow> 'd option) \<Rightarrow> string list \<Rightarrow> parse_error \<Rightarrow> bool" for stod where
  no_path_value: "stuck stod [flag l ''path''] (RequiresValue ''path'')"
| no_latency_value: "stuck stod [flag l ''latency''] (RequiresValue ''latency'')"
| bad_latency: "stod v = None \<Longrightarrow> stuck stod (flag l ''latency'' # v # rest) (StodThrows v)"
| unknown: "strip_dash w \<notin> {Some ''daemon'', Some ''path'', Some ''latency''} \<Longrightarrow>
    count_list w CHR ''@'' \<noteq> 1 \<Longrightarrow> stuck stod (w # rest) (InvalidArgument w)"

inductive_cases stuck_NilE: "stuck stod [] e"

section \<open>The parser against its grammar\<close>

lemma strip_dash_flag:
  assumes "n \<noteq> []" and "hd n \<noteq> CHR ''-''"
  shows "strip_dash w = Some n \<longleftrightarrow> (\<exists>l. w = flag l n)"
proof
  assume "strip_dash w = Some n"
  then have "w = flag (take 2 w = ''--'') n"
    by (auto simp: strip_dash_def flag_def split: if_splits)
      (metis append_take_drop_id append_Cons append_Nil, metis append_take_drop_id append_Cons append_Nil)
  then show "\<exists>l. w = flag l n" by blast
next
  assume "\<exists>l. w = flag l n"
  with assms show "strip_dash w = Some n"
    by (cases n) (auto simp: strip_dash_def flag_def split: if_splits)
qed

lemma strip_dash_names [simp]:
  "strip_dash w = Some ''daemon'' \<longleftrightarrow> (\<exists>l. w = flag l ''daemon'')"
  "strip_dash w = Some ''path'' \<longleftrightarrow> (\<exists>l. w = flag l ''path'')"
  "strip_dash w = Some ''latency'' \<longleftrightarrow> (\<exists>l. w = flag l ''latency'')"
  by (simp_all add: strip_dash_flag)

lemma flag_inject [simp]:
  "flag l ''daemon'' \<noteq> flag k ''path''" "flag l ''daemon'' \<noteq> flag k ''latency''"
  "flag l ''path'' \<noteq> flag k ''daemon''" "flag l ''path'' \<noteq> flag k ''latency''"
  "flag l ''latency'' \<noteq> flag k ''daemon''" "flag l ''latency'' \<noteq> flag k ''path''"
  by (auto simp: flag_def)

lemma flag_no_at [simp]:
  "count_list (flag l ''daemon'') CHR ''@'' = 0" "count_list (flag l ''path'') CHR ''@'' = 0"
  "count_list (flag l ''latency'') CHR ''@'' = 0"
  by (simp_all add: flag_def)

lemma host_no_flag:
  assumes "count_list v CHR ''@'' = 1"
  shows "v \<noteq> flag l ''daemon''" "v \<noteq> flag l ''path''" "v \<noteq> flag l ''latency''"
  using assms by auto

lemma step_opt:
  assumes "opt_ok stod opt"
  shows "parse_step stod arg (opt_words opt @ rest) = Inr (opt_apply stod opt arg, rest)"
  using assms
  by (cases opt) (auto simp: parse_step_def read_value_def host_no_flag)

lemma step_stuck:
  assumes "stuck stod ws e"
  shows "parse_step stod arg ws = Inl e" and "ws \<noteq> []"
  using assms by (induction rule: stuck.induct) (auto simp: parse_step_def read_value_def)

lemma words_progress:
  assumes "ws \<noteq> []"
  obtains opt rest where "opt_ok stod opt" "ws = opt_words opt @ rest" | e where "stuck stod ws e"
proof (cases ws)
  case (Cons w rest)
  consider (d) l where "w = flag l ''daemon''" | (p) l where "w = flag l ''path''"
    | (t) l where "w = flag l ''latency''"
    | (h) "strip_dash w \<notin> {Some ''daemon'', Some ''path'', Some ''latency''}"
    by auto
  then show ?thesis
  proof cases
    case d
    with Cons that(1) [of "Daemon_opt l" rest] show ?thesis by simp
  next
    case p
    with Cons that(1) [of "Path_opt l (hd rest)" "tl rest"] that(2) stuck.no_path_value [of stod l]
    show ?thesis by (cases rest) auto
  next
    case t
    with Cons that(1) [of "Latency_opt l (hd rest)" "tl rest"] that(2)
      stuck.no_latency_value [of stod l] stuck.bad_latency [of stod "hd rest" l "tl rest"]
    show ?thesis by (cases rest) auto
  next
    case h
    with Cons that(1) [of "Host_opt w" rest] that(2) stuck.unknown [OF h, of stod rest]
    show ?thesis by auto
  qed
qed (use assms in simp)

lemma opt_words_nonempty [simp]: "opt_words opt \<noteq> []"
  by (cases opt) auto

lemma parse_loop_opts:
  assumes "list_all (opt_ok stod) opts"
  shows "parse_loop stod arg (concat (map opt_words opts) @ rest) =
         parse_loop stod (fold (opt_apply stod) opts arg) rest"
  using assms
proof (induction opts arbitrary: arg)
  case (Cons opt opts)
  then have "parse_loop stod arg (opt_words opt @ concat (map opt_words opts) @ rest) =
      parse_loop stod (opt_apply stod opt arg) (concat (map opt_words opts) @ rest)"
    by (subst parse_loop.simps) (simp add: step_opt)
  with Cons show ?case by simp
qed simp

lemma parse_loop_stuck: "stuck stod ws e \<Longrightarrow> parse_loop stod arg ws = Inl e"
  by (subst parse_loop.simps) (simp add: step_stuck)

lemma words_split:
  "\<exists>opts rest. list_all (opt_ok stod) opts \<and> ws = concat (map opt_words opts) @ rest \<and>
     (rest = [] \<or> (\<exists>e. stuck stod rest e))"
proof (induction "length ws" arbitrary: ws rule: less_induct)
  case less
  show ?case
  proof (cases "ws = []")
    case True
    then show ?thesis by (intro exI [of _ "[]"]) simp
  next
    case False
    from words_progress [OF this, of stod] show ?thesis
    proof cases
      case (1 opt rest)
      have "length rest < length ws" using 1(2) by simp
      from less [OF this] obtain opts rest' where
        "list_all (opt_ok stod) opts" "rest = concat (map opt_words opts) @ rest'"
        "rest' = [] \<or> (\<exists>e. stuck stod rest' e)" by blast
      with 1 show ?thesis by (intro exI [of _ "opt # opts"] exI [of _ rest']) simp
    next
      case (2 e)
      then show ?thesis by (intro exI [of _ "[]"] exI [of _ ws]) auto
    qed
  qed
qed

lemma opts_sequencer [simp]: "a_sequencer (fold (opt_apply stod) opts arg) = a_sequencer arg"
proof (induction opts arbitrary: arg)
  case (Cons opt opts)
  then show ?case by (cases opt) simp_all
qed simp

lemma parse_loop_sentence:
  assumes "list_all (opt_ok stod) opts"
  shows "parse_loop stod arg (concat (map opt_words opts)) = Inr (fold (opt_apply stod) opts arg)"
  using parse_loop_opts [OF assms, of arg "[]"] by (simp add: parse_loop.simps [of _ _ "[]"])

lemma parse_loop_result:
  "parse_loop stod arg ws = Inr arg' \<longleftrightarrow>
     (\<exists>opts. list_all (opt_ok stod) opts \<and> ws = concat (map opt_words opts) \<and>
        arg' = fold (opt_apply stod) opts arg)"
proof
  assume run: "parse_loop stod arg ws = Inr arg'"
  obtain opts rest where "list_all (opt_ok stod) opts" "ws = concat (map opt_words opts) @ rest"
    "rest = [] \<or> (\<exists>e. stuck stod rest e)" using words_split by metis
  with run show "\<exists>opts. list_all (opt_ok stod) opts \<and> ws = concat (map opt_words opts) \<and>
      arg' = fold (opt_apply stod) opts arg"
    by (auto simp: parse_loop_opts parse_loop_stuck parse_loop.simps [of _ _ "[]"])
next
  assume "\<exists>opts. list_all (opt_ok stod) opts \<and> ws = concat (map opt_words opts) \<and>
      arg' = fold (opt_apply stod) opts arg"
  then show "parse_loop stod arg ws = Inr arg'" by (auto simp: parse_loop_sentence)
qed

lemma parse_loop_error:
  "parse_loop stod arg ws = Inl e \<longleftrightarrow>
     (\<exists>opts rest. list_all (opt_ok stod) opts \<and> ws = concat (map opt_words opts) @ rest \<and>
        stuck stod rest e)"
proof
  assume run: "parse_loop stod arg ws = Inl e"
  obtain opts rest where "list_all (opt_ok stod) opts" "ws = concat (map opt_words opts) @ rest"
    "rest = [] \<or> (\<exists>e. stuck stod rest e)" using words_split by metis
  with run show "\<exists>opts rest. list_all (opt_ok stod) opts \<and>
      ws = concat (map opt_words opts) @ rest \<and> stuck stod rest e"
    by (auto simp: parse_loop_opts parse_loop_stuck parse_loop.simps [of _ _ "[]"])
qed (auto simp: parse_loop_opts parse_loop_stuck)

section \<open>Properties\<close>

text \<open>C16. The parser accepts exactly the sentences of the grammar: it returns arguments if and only
  if the words after the program name are the words of a sequence of options, each valid by
  itself, in which \<^verbatim>\<open>--daemon\<close> or a host occurs; the result is the defaults with the options
  applied from left to right, so a later option overrides an earlier one.\<close>

theorem parse_accepts:
  "parse stod zero (prog # ws) = Inr arg \<longleftrightarrow>
     (\<exists>opts. list_all (opt_ok stod) opts \<and> ws = concat (map opt_words opts) \<and>
        arg = fold (opt_apply stod) opts (default_Args zero) \<and>
        (a_daemon arg \<or> a_user_host arg \<noteq> []))"
proof -
  have seq: "\<not> a_sequencer (default_Args zero)" by (simp add: default_Args_def)
  have "parse stod zero (prog # ws) = Inr arg \<longleftrightarrow>
      parse_loop stod (default_Args zero) ws = Inr arg \<and>
      (a_daemon arg \<or> a_sequencer arg \<or> a_user_host arg \<noteq> [])"
    by (auto split: sum.splits)
  with seq show ?thesis by (auto simp: parse_loop_result)
qed

theorem parse_accepts_witness:
  "parse (\<lambda>v. if v = ''0.5'' then Some (5 :: nat) else None) 0
     [''enu'', ''--path'', ''x'', ''-latency'', ''0.5'', ''--path'', ''y'', ''me@host''] =
   Inr \<lparr>a_daemon = False, a_sequencer = False, a_path = ''y'', a_latency = 5, a_user_host = ''me@host''\<rparr>"
  unfolding parse_accepts
  by (rule exI [of _ "[Path_opt True ''x'', Latency_opt False ''0.5'', Path_opt True ''y'', Host_opt ''me@host'']"])
    (simp add: flag_def default_Args_def)

text \<open>C30. Every rejection is reported with the right cause: an error of the loop is reported exactly
  when valid options are followed by words at which no option can start, and it names the
  first such word; the missing host is reported exactly for a valid sequence without
  \<^verbatim>\<open>--daemon\<close> and without a host. Every input is accepted or rejected with one error.\<close>

theorem parse_rejects:
  "parse stod zero (prog # ws) = Inl e \<longleftrightarrow>
     (\<exists>opts rest. list_all (opt_ok stod) opts \<and> ws = concat (map opt_words opts) @ rest \<and>
        stuck stod rest e) \<or>
     e = MissingHost \<and>
     (\<exists>opts. list_all (opt_ok stod) opts \<and> ws = concat (map opt_words opts) \<and>
        \<not> a_daemon (fold (opt_apply stod) opts (default_Args zero)) \<and>
        a_user_host (fold (opt_apply stod) opts (default_Args zero)) = [])"
proof -
  have seq: "\<not> a_sequencer (default_Args zero)" by (simp add: default_Args_def)
  have "parse stod zero (prog # ws) = Inl e \<longleftrightarrow>
      parse_loop stod (default_Args zero) ws = Inl e \<or>
      e = MissingHost \<and> (\<exists>arg. parse_loop stod (default_Args zero) ws = Inr arg \<and>
        \<not> a_daemon arg \<and> \<not> a_sequencer arg \<and> a_user_host arg = [])"
    by (auto split: sum.splits)
  with seq show ?thesis by (auto simp: parse_loop_result parse_loop_error)
qed

theorem parse_rejects_witness:
  "parse (\<lambda>v. None :: nat option) 0 [''enu'', ''--daemon'', ''-path''] = Inl (RequiresValue ''path'')"
  unfolding parse_rejects
  by (rule disjI1, rule exI [of _ "[Daemon_opt True]"], rule exI [of _ "[''-path'']"])
    (use stuck.no_path_value [of "\<lambda>v. None :: nat option" False] in \<open>simp add: flag_def\<close>)

end
