(* ===== verification/Shm_Queue.thy ===== *)
theory Shm_Queue
  imports Enu_Prelude
begin

text \<open>
  The shared-memory queue (\<^verbatim>\<open>enu/shm.h\<close>): one producer appends to a ring of 32-bit words, readers in
  other processes follow with a position of their own. First \<open>push\<close> and \<open>pop\<close> as whole calls
  and a bounded first-in first-out contract they satisfy; then the same calls cut into their
  accesses to the shared memory, with a producer and a reader interleaved.
\<close>

section \<open>Model (shm.h)\<close>

definition shmkey :: u32 where
  "shmkey = 0x43576825"

definition SHM_SIZE :: nat where
  "SHM_SIZE = 1024 * 4"

text \<open>\<^verbatim>\<open>SHM_SIZE / sizeof(uint32_t) - sizeof(uint32_t)\<close>: 1020 elements.\<close>

definition buf_size :: nat where
  "buf_size = SHM_SIZE div 4 - 4"

lemma buf_size_eq [simp]: "buf_size = 1020"
  by (simp add: buf_size_def SHM_SIZE_def)

record ShmQueue =
  q_head :: u32
  q_buf :: "u32 list"

record ShmReader =
  r_tail :: u32

text \<open>
  The layout \<^verbatim>\<open>alignas(64)\<close> gives: \<open>q_head\<close> at 0, \<open>q_buf\<close> at 64, the size a multiple of 64.
\<close>

definition buf_offset :: "nat \<Rightarrow> nat" where
  "buf_offset i = 64 + 4 * i"

definition sizeof_ShmQueue :: nat where
  "sizeof_ShmQueue = 64 * ((64 + 4 * buf_size + 63) div 64)"

text \<open>\<^verbatim>\<open>open\<close>: the segment and its mapping; \<open>shmget\<close> and \<open>shmat\<close> are the system's.\<close>

datatype shm_error = Shmget_failed | Shmat_failed

definition open_shm ::
  "('w \<Rightarrow> u32 \<Rightarrow> nat \<Rightarrow> int option \<times> 'w) \<Rightarrow> ('w \<Rightarrow> int \<Rightarrow> 'addr option \<times> 'w) \<Rightarrow> 'w \<Rightarrow>
   (shm_error + 'addr) \<times> 'w" where
  "open_shm shmget shmat w =
     (case shmget w shmkey SHM_SIZE of
        (None, w) \<Rightarrow> (Inl Shmget_failed, w)
      | (Some shmid, w) \<Rightarrow>
          (case shmat w shmid of
             (None, w) \<Rightarrow> (Inl Shmat_failed, w)
           | (Some addr, w) \<Rightarrow> (Inr addr, w)))"

text \<open>The position is a \<^verbatim>\<open>size_t\<close> in the calls and 32 bits wide in memory.\<close>

definition slot :: "u64 \<Rightarrow> nat" where
  "slot idx = unat idx mod buf_size"

definition push :: "u64 \<Rightarrow> ShmQueue \<Rightarrow> ShmQueue" where
  "push v q =
     (let idx = ucast (q_head q) in
      q\<lparr>q_buf := (q_buf q)[slot idx := ucast v], q_head := ucast (idx + 1)\<rparr>)"

definition reader :: "ShmQueue \<Rightarrow> ShmReader" where
  "reader q = \<lparr>r_tail = q_head q\<rparr>"

text \<open>
  \<open>from_bool\<close> is the conversion of \<^verbatim>\<open>return false\<close> to \<^verbatim>\<open>std::optional<T>\<close>, \<open>from_u32\<close> that of a stored
  word to \<open>T\<close>.
\<close>

definition pop :: "(bool \<Rightarrow> 't option) \<Rightarrow> (u32 \<Rightarrow> 't) \<Rightarrow> ShmQueue \<Rightarrow> ShmReader \<Rightarrow> 't option \<times> ShmReader"
  where
  "pop from_bool from_u32 q r =
     (if r_tail r = q_head q then (from_bool False, r)
      else (Some (from_u32 (q_buf q ! slot (ucast (r_tail r)))), r\<lparr>r_tail := r_tail r + 1\<rparr>))"

text \<open>
  For \<^verbatim>\<open>T = uint32_t\<close>: a \<^verbatim>\<open>bool\<close> converts to a number, so \<^verbatim>\<open>return false\<close> is an optional that
  holds 0.
\<close>

definition optional_u32 :: "bool \<Rightarrow> u32 option" where
  "optional_u32 b = Some (if b then 1 else 0)"

abbreviation pop_u32 :: "ShmQueue \<Rightarrow> ShmReader \<Rightarrow> u32 option \<times> ShmReader" where
  "pop_u32 \<equiv> pop optional_u32 (\<lambda>x. x)"

section \<open>A bounded first-in first-out contract\<close>

text \<open>
  \<open>view\<close> is what is still to be read; \<open>room\<close> says when a value may be appended. \<open>get\<close> is only
  asked when something is there.
\<close>

locale bounded_fifo =
  fixes inv :: "'s \<Rightarrow> bool" and view :: "'s \<Rightarrow> 'a list" and room :: "nat \<Rightarrow> 's \<Rightarrow> bool"
    and put :: "'v \<Rightarrow> 's \<Rightarrow> 's" and get :: "'s \<Rightarrow> 'a \<times> 's" and enc :: "'v \<Rightarrow> 'a"
  assumes put_view: "inv s \<Longrightarrow> room (Suc n) s \<Longrightarrow> view (put v s) = view s @ [enc v]"
    and put_inv: "inv s \<Longrightarrow> room (Suc n) s \<Longrightarrow> inv (put v s) \<and> room n (put v s)"
    and get_view: "inv s \<Longrightarrow> view s = x # xs \<Longrightarrow> fst (get s) = x \<and> view (snd (get s)) = xs"
    and get_inv: "inv s \<Longrightarrow> view s \<noteq> [] \<Longrightarrow> inv (snd (get s))"
begin

fun drain :: "nat \<Rightarrow> 's \<Rightarrow> 'a list \<times> 's" where
  "drain 0 s = ([], s)"
| "drain (Suc n) s = (let (x, s) = get s; (xs, s) = drain n s in (x # xs, s))"

lemma puts_view:
  "inv s \<Longrightarrow> room (length vs) s \<Longrightarrow>
   view (fold put vs s) = view s @ map enc vs \<and> inv (fold put vs s)"
proof (induction vs arbitrary: s)
  case (Cons v vs)
  then show ?case
    using put_view [of s "length vs" v] put_inv [of s "length vs" v] Cons.IH [of "put v s"] by simp
qed simp

lemma drain_view:
  "inv s \<Longrightarrow> n \<le> length (view s) \<Longrightarrow>
   fst (drain n s) = take n (view s) \<and> view (snd (drain n s)) = drop n (view s)"
proof (induction n arbitrary: s)
  case (Suc n)
  then obtain x xs where "view s = x # xs" by (cases "view s") auto
  with Suc.prems get_view [of s x xs] get_inv [of s] Suc.IH [of "snd (get s)"] show ?case
    by (auto simp: Let_def split: prod.splits)
qed simp

lemma puts_drain:
  "inv s \<Longrightarrow> view s = [] \<Longrightarrow> room (length vs) s \<Longrightarrow>
   fst (drain (length vs) (fold put vs s)) = map enc vs"
  using puts_view [of s vs] drain_view [of "fold put vs s" "length vs"] by simp

end

section \<open>push and pop satisfy it\<close>

text \<open>The state a producer and one reader share, within one round of the 32-bit position.\<close>

type_synonym shm = "ShmQueue \<times> ShmReader"

definition lag :: "shm \<Rightarrow> nat" where
  "lag s = (case s of (q, r) \<Rightarrow> unat (q_head q) - unat (r_tail r))"

definition shm_inv :: "shm \<Rightarrow> bool" where
  "shm_inv s \<longleftrightarrow>
     (case s of (q, r) \<Rightarrow> length (q_buf q) = buf_size \<and> unat (r_tail r) \<le> unat (q_head q) \<and>
        unat (q_head q) \<le> unat (r_tail r) + buf_size)"

definition shm_view :: "shm \<Rightarrow> u32 list" where
  "shm_view s =
     (case s of (q, r) \<Rightarrow> map (\<lambda>i. q_buf q ! (i mod buf_size)) [unat (r_tail r)..<unat (q_head q)])"

definition shm_room :: "nat \<Rightarrow> shm \<Rightarrow> bool" where
  "shm_room n s \<longleftrightarrow>
     (case s of (q, r) \<Rightarrow> unat (q_head q) - unat (r_tail r) + n \<le> buf_size \<and> unat (q_head q) + n < 2 ^ 32)"

definition shm_put :: "u64 \<Rightarrow> shm \<Rightarrow> shm" where
  "shm_put v s = (case s of (q, r) \<Rightarrow> (push v q, r))"

definition shm_get :: "shm \<Rightarrow> u32 \<times> shm" where
  "shm_get s = (case s of (q, r) \<Rightarrow> (case pop_u32 q r of (x, r) \<Rightarrow> (the x, q, r)))"

lemma unat_ucast_u64 [simp]: "unat (ucast (h :: u32) :: u64) = unat h"
  using unsigned_less [of h, where 'a = nat]
  by (simp add: unsigned_ucast_eq take_bit_nat_eq_self_iff)

lemma slot_ucast [simp]: "slot (ucast (h :: u32)) = unat h mod buf_size"
  by (simp add: slot_def)

lemma unat_next_head:
  assumes "unat (h :: u32) + 1 < 2 ^ 32"
  shows "unat (h + 1) = unat h + 1"
  using assms by (simp add: unat_word_ariths)

lemma ucast_next_head [simp]: "ucast (ucast (h :: u32) + (1 :: u64)) = h + 1"
proof -
  have "unat (ucast (ucast h + (1 :: u64)) :: u32) = unat (h + 1)"
    by (simp add: unsigned_ucast_eq unat_word_ariths take_bit_eq_mod mod_mod_cancel)
  then show ?thesis by (simp only: unsigned_word_eqI [where 'a = nat])
qed

lemma slots_distinct:
  assumes "i < j" and "j < i + buf_size"
  shows "i mod buf_size \<noteq> j mod buf_size"
proof
  assume "i mod buf_size = j mod buf_size"
  then have "buf_size dvd j - i" using assms(1) by (metis mod_eq_dvd_iff_nat less_imp_le)
  with assms show False by (auto dest: dvd_imp_le)
qed

lemma push_sel [simp]:
  "q_head (push v q) = q_head q + 1"
  "q_buf (push v q) = (q_buf q)[unat (q_head q) mod buf_size := ucast v]"
  by (simp_all add: push_def Let_def)

lemma shm_put_view:
  assumes "shm_inv s" and "shm_room (Suc n) s"
  shows "shm_view (shm_put v s) = shm_view s @ [ucast v]"
    and "shm_inv (shm_put v s) \<and> shm_room n (shm_put v s)"
proof -
  obtain q r where s: "s = (q, r)" by (cases s)
  let ?h = "unat (q_head q)" and ?t = "unat (r_tail r)"
  have len: "length (q_buf q) = buf_size" and t: "?t \<le> ?h" "?h - ?t + Suc n \<le> buf_size"
    and "?h + Suc n < 2 ^ 32"
    using assms by (simp_all add: s shm_inv_def shm_room_def)
  then have next_head: "unat (q_head q + 1) = ?h + 1" by (intro unat_next_head) simp
  have old: "(q_buf q)[?h mod buf_size := ucast v] ! (i mod buf_size) = q_buf q ! (i mod buf_size)"
    if "i \<in> set [?t..<?h]" for i
  proof -
    have "i mod buf_size \<noteq> ?h mod buf_size" using that t by (intro slots_distinct) auto
    then show ?thesis by (rule nth_list_update_neq [OF not_sym])
  qed
  have "?h mod buf_size < length (q_buf q)" by (simp add: len)
  then show "shm_view (shm_put v s) = shm_view s @ [ucast v]"
    unfolding s shm_view_def shm_put_def prod.case push_sel next_head
    using t old by (simp del: buf_size_eq)
  show "shm_inv (shm_put v s) \<and> shm_room n (shm_put v s)"
    using t len \<open>?h + Suc n < 2 ^ 32\<close>
    by (simp add: s shm_inv_def shm_room_def shm_put_def next_head) linarith
qed

lemma shm_get_view:
  assumes "shm_inv s" and "shm_view s = x # xs"
  shows "fst (shm_get s) = x \<and> shm_view (snd (shm_get s)) = xs \<and> shm_inv (snd (shm_get s))"
proof -
  obtain q r where s: "s = (q, r)" by (cases s)
  let ?h = "unat (q_head q)" and ?t = "unat (r_tail r)"
  have lt: "?t < ?h" using assms(2) by (auto simp: s shm_view_def intro: ccontr)
  moreover have "?h < 2 ^ 32" using unsigned_less [of "q_head q", where 'a = nat] by simp
  ultimately have next_tail: "unat (r_tail r + 1) = ?t + 1" by (intro unat_next_head) simp
  have "r_tail r \<noteq> q_head q" using lt by auto
  then have get: "shm_get s = (q_buf q ! (?t mod buf_size), q, r\<lparr>r_tail := r_tail r + 1\<rparr>)"
    by (simp add: s shm_get_def pop_def del: buf_size_eq)
  have "shm_view s = (q_buf q ! (?t mod buf_size)) # map (\<lambda>i. q_buf q ! (i mod buf_size)) [Suc ?t..<?h]"
    using lt by (simp add: s shm_view_def upt_conv_Cons del: buf_size_eq)
  with assms(2) have "x = q_buf q ! (?t mod buf_size)"
    "xs = map (\<lambda>i. q_buf q ! (i mod buf_size)) [Suc ?t..<?h]" by simp_all
  with get next_tail lt assms(1) show ?thesis
    by (simp add: shm_view_def shm_inv_def s del: buf_size_eq)
qed

interpretation ring: bounded_fifo shm_inv shm_view shm_room shm_put shm_get ucast
proof
  fix s :: shm and v :: u64 and n x xs
  show "shm_view (shm_put v s) = shm_view s @ [ucast v]" if "shm_inv s" "shm_room (Suc n) s"
    using that by (rule shm_put_view)
  show "shm_inv (shm_put v s) \<and> shm_room n (shm_put v s)" if "shm_inv s" "shm_room (Suc n) s"
    using that by (rule shm_put_view)
  show "fst (shm_get s) = x \<and> shm_view (snd (shm_get s)) = xs"
    if "shm_inv s" "shm_view s = x # xs" using shm_get_view [OF that] by simp
  show "shm_inv (snd (shm_get s))" if "shm_inv s" "shm_view s \<noteq> []"
    using shm_get_view [OF that(1)] that(2) by (cases "shm_view s") auto
qed

section \<open>Producer and reader interleaved\<close>

text \<open>
  The calls cut at their accesses to shared memory. \<open>P_loaded idx v\<close>: \<open>push(v)\<close> has loaded the
  head; \<open>P_stored idx v\<close>: it has also written the slot. \<open>R_loaded h\<close>: \<open>pop\<close> has loaded the head.
  \<open>pushed\<close> and \<open>popped\<close> record the completed calls that moved a value.
\<close>

datatype producer = P_idle | P_loaded u64 u64 | P_stored u64 u64
datatype consumer = R_idle | R_loaded u32

record shm_sys =
  sq :: ShmQueue
  pr_pc :: producer
  rdr :: ShmReader
  rd_pc :: consumer
  pushed :: "u64 list"
  popped :: "u32 list"

inductive shm_step :: "shm_sys \<Rightarrow> shm_sys \<Rightarrow> bool" where
  push_load: "pr_pc s = P_idle \<Longrightarrow> shm_step s (s\<lparr>pr_pc := P_loaded (ucast (q_head (sq s))) v\<rparr>)"
| push_store: "pr_pc s = P_loaded idx v \<Longrightarrow>
    shm_step s (s\<lparr>sq := (sq s)\<lparr>q_buf := (q_buf (sq s))[slot idx := ucast v]\<rparr>, pr_pc := P_stored idx v\<rparr>)"
| push_publish: "pr_pc s = P_stored idx v \<Longrightarrow>
    shm_step s (s\<lparr>sq := (sq s)\<lparr>q_head := ucast (idx + 1)\<rparr>, pr_pc := P_idle, pushed := pushed s @ [v]\<rparr>)"
| pop_load: "rd_pc s = R_idle \<Longrightarrow> shm_step s (s\<lparr>rd_pc := R_loaded (q_head (sq s))\<rparr>)"
| pop_nothing: "rd_pc s = R_loaded h \<Longrightarrow> r_tail (rdr s) = h \<Longrightarrow> shm_step s (s\<lparr>rd_pc := R_idle\<rparr>)"
| pop_value: "rd_pc s = R_loaded h \<Longrightarrow> r_tail (rdr s) \<noteq> h \<Longrightarrow>
    shm_step s (s\<lparr>rd_pc := R_idle, rdr := (rdr s)\<lparr>r_tail := r_tail (rdr s) + 1\<rparr>,
      popped := popped s @ [q_buf (sq s) ! slot (ucast (r_tail (rdr s)))]\<rparr>)"

text \<open>Uninterrupted, the steps of a call are the call.\<close>

lemma push_steps:
  assumes "pr_pc s = P_idle"
  shows "shm_step\<^sup>*\<^sup>* s (s\<lparr>sq := push v (sq s), pushed := pushed s @ [v]\<rparr>)"
proof -
  let ?idx = "ucast (q_head (sq s)) :: u64"
  define s1 where "s1 = s\<lparr>pr_pc := P_loaded ?idx v\<rparr>"
  define s2 where "s2 = s1\<lparr>sq := (sq s1)\<lparr>q_buf := (q_buf (sq s1))[slot ?idx := ucast v]\<rparr>, pr_pc := P_stored ?idx v\<rparr>"
  define s3 where "s3 = s2\<lparr>sq := (sq s2)\<lparr>q_head := ucast (?idx + 1)\<rparr>, pr_pc := P_idle, pushed := pushed s2 @ [v]\<rparr>"
  have "shm_step s s1" unfolding s1_def using assms by (rule push_load)
  moreover have "shm_step s1 s2" unfolding s2_def by (rule push_store) (simp add: s1_def)
  moreover have "shm_step s2 s3" unfolding s3_def by (rule push_publish) (simp add: s2_def)
  moreover have "s3 = s\<lparr>sq := push v (sq s), pushed := pushed s @ [v]\<rparr>"
    using assms by (simp add: s1_def s2_def s3_def push_def Let_def)
  ultimately show ?thesis by (metis converse_rtranclp_into_rtranclp rtranclp.rtrancl_refl)
qed

text \<open>
  The runs in which the reader is never a whole ring behind the slot being written and the
  position does not wrap. \<open>h0\<close> is the head when the reader was made.
\<close>

definition in_flight :: "shm_sys \<Rightarrow> nat" where
  "in_flight s = (case pr_pc s of P_stored idx v \<Rightarrow> 1 | _ \<Rightarrow> 0)"

definition keeps_up :: "u32 \<Rightarrow> shm_sys \<Rightarrow> bool" where
  "keeps_up h0 s \<longleftrightarrow>
     length (pushed s) + in_flight s \<le> length (popped s) + buf_size \<and>
     unat h0 + length (pushed s) + in_flight s < 2 ^ 32"

inductive shm_run :: "u32 \<Rightarrow> shm_sys \<Rightarrow> shm_sys \<Rightarrow> bool" for h0 s where
  run_start: "shm_run h0 s s"
| run_step: "shm_run h0 s s' \<Longrightarrow> shm_step s' s'' \<Longrightarrow> keeps_up h0 s'' \<Longrightarrow> shm_run h0 s s''"

definition shm_start :: "u32 \<Rightarrow> u32 list \<Rightarrow> shm_sys" where
  "shm_start h0 buf =
     (let q = \<lparr>q_head = h0, q_buf = buf\<rparr> in
      \<lparr>sq = q, pr_pc = P_idle, rdr = reader q, rd_pc = R_idle, pushed = [], popped = []\<rparr>)"

definition producer_ok :: "shm_sys \<Rightarrow> bool" where
  "producer_ok s \<longleftrightarrow>
     (case pr_pc s of
        P_idle \<Rightarrow> True
      | P_loaded idx v \<Rightarrow> idx = ucast (q_head (sq s))
      | P_stored idx v \<Rightarrow> idx = ucast (q_head (sq s)) \<and> q_buf (sq s) ! slot idx = ucast v)"

definition consumer_ok :: "shm_sys \<Rightarrow> bool" where
  "consumer_ok s \<longleftrightarrow>
     (case rd_pc s of
        R_idle \<Rightarrow> True
      | R_loaded h \<Rightarrow> unat (r_tail (rdr s)) \<le> unat h \<and> unat h \<le> unat (q_head (sq s)))"

definition ring_ok :: "u32 \<Rightarrow> shm_sys \<Rightarrow> bool" where
  "ring_ok h0 s \<longleftrightarrow>
     length (q_buf (sq s)) = buf_size \<and>
     unat (q_head (sq s)) = unat h0 + length (pushed s) \<and>
     unat (r_tail (rdr s)) = unat h0 + length (popped s) \<and>
     length (popped s) \<le> length (pushed s) \<and>
     (\<forall>i < length (pushed s). length (popped s) \<le> i \<longrightarrow>
        q_buf (sq s) ! ((unat h0 + i) mod buf_size) = ucast (pushed s ! i)) \<and>
     popped s = take (length (popped s)) (map ucast (pushed s))"

lemmas shm_ok_defs = producer_ok_def consumer_ok_def ring_ok_def

lemma ring_step:
  assumes "shm_step s s'" and "producer_ok s" "consumer_ok s" "ring_ok h0 s" and "keeps_up h0 s'"
  shows "producer_ok s' \<and> consumer_ok s' \<and> ring_ok h0 s'"
  using assms
proof (cases rule: shm_step.cases)
  case (push_store idx v)
  then have idx: "slot idx = (unat h0 + length (pushed s)) mod buf_size" "idx = ucast (q_head (sq s))"
    using assms(2,4) by (auto simp: shm_ok_defs)
  have "(q_buf (sq s))[slot idx := ucast v] ! ((unat h0 + i) mod buf_size) = ucast (pushed s ! i)"
    if "i < length (pushed s)" "length (popped s) \<le> i" for i
  proof -
    have "(unat h0 + i) mod buf_size \<noteq> (unat h0 + length (pushed s)) mod buf_size"
      using that assms(5) push_store by (intro slots_distinct) (auto simp: keeps_up_def in_flight_def)
    then show ?thesis
      using that assms(4) by (simp add: idx(1) nth_list_update_neq [OF not_sym] ring_ok_def del: buf_size_eq)
  qed
  with push_store assms(3,4) idx show ?thesis by (auto simp: shm_ok_defs split: consumer.splits)
next
  case (push_publish idx v)
  have "unat (q_head (sq s) + 1) = unat (q_head (sq s)) + 1"
    using assms(4,5) push_publish by (intro unat_next_head) (auto simp: shm_ok_defs keeps_up_def in_flight_def)
  with push_publish assms(2-4) show ?thesis
    by (auto simp: shm_ok_defs nth_append less_Suc_eq split: consumer.splits)
next
  case (pop_value h)
  have lt: "unat (r_tail (rdr s)) < unat (q_head (sq s))"
    using pop_value assms(3) by (auto simp: consumer_ok_def le_less unsigned_word_eqI)
  moreover have "unat (q_head (sq s)) < 2 ^ 32"
    using unsigned_less [of "q_head (sq s)", where 'a = nat] by simp
  ultimately have next_tail: "unat (r_tail (rdr s) + 1) = unat (r_tail (rdr s)) + 1"
    by (intro unat_next_head) simp
  have n: "length (popped s) < length (pushed s)" using lt assms(4) by (simp add: ring_ok_def)
  then have "q_buf (sq s) ! slot (ucast (r_tail (rdr s))) = ucast (pushed s ! length (popped s))"
    using assms(4) by (simp add: ring_ok_def)
  with pop_value next_tail n assms(2-4) show ?thesis
    by (auto simp: shm_ok_defs take_Suc_conv_app_nth split: producer.splits)
qed (auto simp: shm_ok_defs split: consumer.splits producer.splits)

lemma run_ok:
  assumes "shm_run h0 (shm_start h0 buf) s" and "length buf = buf_size"
  shows "producer_ok s \<and> consumer_ok s \<and> ring_ok h0 s"
  using assms(1)
proof (induction rule: shm_run.induct)
  case run_start
  then show ?case using assms(2) by (simp add: shm_ok_defs shm_start_def reader_def Let_def)
next
  case (run_step s' s'')
  then show ?case using ring_step by blast
qed

section \<open>Overrun\<close>

text \<open>Several calls of \<open>pop\<close>.\<close>

fun pops :: "nat \<Rightarrow> ShmQueue \<Rightarrow> ShmReader \<Rightarrow> u32 option list" where
  "pops 0 q r = []"
| "pops (Suc n) q r = (case pop_u32 q r of (x, r) \<Rightarrow> x # pops n q r)"

lemma pops_drain: "pops n q r = map Some (fst (ring.drain n (q, r)))"
proof (induction n arbitrary: r)
  case (Suc n)
  obtain x r' where pop: "pop_u32 q r = (Some x, r')"
    by (cases "r_tail r = q_head q") (simp_all add: pop_def optional_u32_def)
  then have "shm_get (q, r) = (x, q, r')" by (simp add: shm_get_def)
  with pop Suc show ?case by (simp add: Let_def split: prod.splits)
qed simp

lemma fold_put: "fold shm_put vs (q, r) = (fold push vs q, r)"
  by (induction vs arbitrary: q) (simp_all add: shm_put_def)

lemma fold_push_head: "q_head (fold push vs q) = q_head q + of_nat (length vs)"
  by (induction vs arbitrary: q) simp_all

lemma fold_push_length [simp]: "length (q_buf (fold push vs q)) = length (q_buf q)"
  by (induction vs arbitrary: q) simp_all

lemma fold_push_last:
  assumes "length (q_buf q) = buf_size" and "length vs = Suc n"
  shows "q_buf (fold push vs q) ! (unat (q_head q + of_nat n) mod buf_size) = ucast (last vs)"
proof -
  from assms(2) obtain us v where vs: "vs = us @ [v]" "length us = n"
    by (cases vs rule: rev_cases) auto
  then show ?thesis using assms(1) by (simp add: fold_push_head)
qed

section \<open>Properties\<close>

text \<open>C31. Calls one after the other: up to 1020 values pushed after a reader was made come out of it in
  order, each cut to 32 bits, as long as the 32-bit position does not wrap.\<close>

theorem shm_fifo:
  assumes "length (q_buf q) = buf_size" and "length vs \<le> buf_size"
    and "unat (q_head q) + length vs < 2 ^ 32"
  shows "pops (length vs) (fold push vs q) (reader q) = map (\<lambda>v. Some (ucast v)) vs"
proof -
  have "shm_inv (q, reader q)" "shm_view (q, reader q) = []" "shm_room (length vs) (q, reader q)"
    using assms by (simp_all add: shm_inv_def shm_view_def shm_room_def reader_def)
  from ring.puts_drain [OF this] show ?thesis by (simp add: pops_drain fold_put)
qed

theorem shm_fifo_witness:
  "pops (Suc (Suc (Suc 0))) (fold push [7, 4294967301, 9] \<lparr>q_head = 4, q_buf = replicate 1020 0\<rparr>)
     (reader \<lparr>q_head = 4, q_buf = replicate 1020 0\<rparr>) = [Some 7, Some 5, Some 9]"
  using shm_fifo [of "\<lparr>q_head = 4, q_buf = replicate 1020 0\<rparr>" "[7, 4294967301, 9]"]
  by (simp del: pops.simps)



text \<open>C32. An overrun is silent: nothing tells the reader that values were overwritten. After 1021
  pushes it reads the last value in place of the first; and because 1020 does not divide
  \<open>2 ^ 32\<close>, 257 pushes are enough when the position wraps to 0 on the way.\<close>

theorem shm_overrun_silent:
  assumes "length (q_buf q) = buf_size"
  shows "(unat (q_head q) + 1021 < 2 ^ 32 \<and> length vs = 1021 \<longrightarrow>
            fst (pop_u32 (fold push vs q) (reader q)) = Some (ucast (last vs))) \<and>
         (q_head q = - 256 \<and> length vs = 257 \<longrightarrow>
            fst (pop_u32 (fold push vs q) (reader q)) = Some (ucast (last vs)))"
proof (intro conjI impI)
  assume "unat (q_head q) + 1021 < 2 ^ 32 \<and> length vs = 1021"
  then have n: "length vs = Suc 1020" and "unat (q_head q + 1020) = unat (q_head q) + 1020"
    by (simp_all add: unat_word_ariths)
  then have "q_buf (fold push vs q) ! (unat (q_head q) mod buf_size) = ucast (last vs)"
    using fold_push_last [OF assms n] by simp
  then show "fst (pop_u32 (fold push vs q) (reader q)) = Some (ucast (last vs))"
    using n by (simp add: pop_def reader_def fold_push_head)
next
  assume h: "q_head q = - 256 \<and> length vs = 257"
  then have n: "length vs = Suc 256" by simp
  have "q_buf (fold push vs q) ! 0 = ucast (last vs)"
    using fold_push_last [OF assms n] h by simp
  then show "fst (pop_u32 (fold push vs q) (reader q)) = Some (ucast (last vs))"
    using h by (simp add: pop_def reader_def fold_push_head slot_def)
qed

theorem shm_overrun_silent_witness:
  "fst (pop_u32 (fold push (replicate 1020 1 @ [2]) \<lparr>q_head = 0, q_buf = replicate 1020 0\<rparr>)
     (reader \<lparr>q_head = 0, q_buf = replicate 1020 0\<rparr>)) = Some 2 \<and>
   fst (pop_u32 (fold push (replicate 256 1 @ [2]) \<lparr>q_head = - 256, q_buf = replicate 1020 0\<rparr>)
     (reader \<lparr>q_head = - 256, q_buf = replicate 1020 0\<rparr>)) = Some 2"
  using shm_overrun_silent [of "\<lparr>q_head = 0, q_buf = replicate 1020 0\<rparr>" "replicate 1020 1 @ [2]"]
    shm_overrun_silent [of "\<lparr>q_head = - 256, q_buf = replicate 1020 0\<rparr>" "replicate 256 1 @ [2]"]
  by (simp del: fold_append)

end
