(* ===== verification/Fs_Watch.thy ===== *)
theory Fs_Watch
  imports Enu_Prelude
begin

text \<open>
  The file system watcher (\<^verbatim>\<open>enu/watcher.h\<close>, \<^verbatim>\<open>enu/fsevent.cpp\<close>, \<^verbatim>\<open>enu/inotify.cpp\<close>) and its use in
  \<open>watch_dir\<close> (\<^verbatim>\<open>enu/main.cpp\<close>). The system delivers batches of raw events; \<open>event_callback\<close>
  turns a batch into events for the handler, pairing renames of one inode. The
  specification says for each position of the batch what it contributes.
\<close>

unbundle bit_operations_syntax

section \<open>Events (watcher.h)\<close>

datatype FsEventKind = Created | Deleted | Modify | Meta | Moved | Sync | Unrecoverable

record FsEvent =
  ev_kind :: FsEventKind
  ev_path :: "byte list"
  ev_dest :: "byte list"

section \<open>The callback (fsevent.cpp)\<close>

text \<open>The flags of the event stream, by their documented values.\<close>

definition MustScanSubDirs :: u32 where "MustScanSubDirs = 0x1"
definition UserDropped :: u32 where "UserDropped = 0x2"
definition RootChanged :: u32 where "RootChanged = 0x20"
definition Mount :: u32 where "Mount = 0x40"
definition Unmount :: u32 where "Unmount = 0x80"
definition ItemCreated :: u32 where "ItemCreated = 0x100"
definition ItemRemoved :: u32 where "ItemRemoved = 0x200"
definition ItemInodeMetaMod :: u32 where "ItemInodeMetaMod = 0x400"
definition ItemRenamed :: u32 where "ItemRenamed = 0x800"
definition ItemChangeOwner :: u32 where "ItemChangeOwner = 0x4000"

lemmas flag_defs = MustScanSubDirs_def UserDropped_def RootChanged_def Mount_def Unmount_def
  ItemCreated_def ItemRemoved_def ItemInodeMetaMod_def ItemRenamed_def ItemChangeOwner_def

text \<open>
  A raw event: the path in UTF-8, the size of the buffer reserved for it (the maximum size for
  its length, plus one), the inode and the flags.
\<close>

record raw_event =
  re_path :: "byte list"
  re_max :: nat
  re_inode :: u64
  re_flags :: u32

text \<open>
  \<^verbatim>\<open>CFStringGetCString\<close> into a string of \<open>re_max\<close> zeros: it fails when path and terminator do not
  fit, and the string keeps its length.
\<close>

definition decode_path :: "raw_event \<Rightarrow> byte list option" where
  "decode_path e =
     (if length (re_path e) + 1 \<le> re_max e
      then Some (re_path e @ replicate (re_max e - length (re_path e)) 0)
      else None)"

definition has_flag :: "u32 \<Rightarrow> raw_event \<Rightarrow> bool" where
  "has_flag f e \<longleftrightarrow> re_flags e AND f \<noteq> 0"

definition event :: "FsEventKind \<Rightarrow> byte list \<Rightarrow> byte list \<Rightarrow> FsEvent" where
  "event k p d = \<lparr>ev_kind = k, ev_path = p, ev_dest = d\<rparr>"

text \<open>
  One turn of the loop. \<open>chained\<close> maps an inode to the path of its last rename. The failed
  conversion of a path is fatal.
\<close>

definition callback_step ::
  "raw_event \<Rightarrow> FsEvent list \<times> (u64 \<rightharpoonup> byte list) \<Rightarrow> (FsEvent list \<times> (u64 \<rightharpoonup> byte list)) option" where
  "callback_step e s =
     (case s of (events, chained) \<Rightarrow>
      (case decode_path e of
         None \<Rightarrow> None
       | Some path \<Rightarrow>
           if has_flag (RootChanged OR Mount OR Unmount) e then
             Some (events @ [event Unrecoverable [] []], chained)
           else if has_flag (UserDropped OR MustScanSubDirs) e then
             Some (events @ [event Sync [] []], chained)
           else
             (let events = (if has_flag ItemCreated e then events @ [event Created path []] else events);
                  (events, chained) =
                    (if has_flag ItemRenamed e then
                       (case chained (re_inode e) of
                          Some src \<Rightarrow> (events @ [event Moved src path], chained(re_inode e \<mapsto> path))
                        | None \<Rightarrow> (events, chained(re_inode e \<mapsto> path)))
                     else (events, chained));
                  events = (if has_flag (ItemChangeOwner OR ItemInodeMetaMod) e
                            then events @ [event Meta path []] else events);
                  events = (if has_flag ItemRemoved e then events @ [event Deleted path []] else events)
              in Some (events, chained))))"

fun callback_loop ::
  "raw_event list \<Rightarrow> FsEvent list \<times> (u64 \<rightharpoonup> byte list) \<Rightarrow> (FsEvent list \<times> (u64 \<rightharpoonup> byte list)) option" where
  "callback_loop [] s = Some s"
| "callback_loop (e # es) s =
     (case callback_step e s of None \<Rightarrow> None | Some s \<Rightarrow> callback_loop es s)"

text \<open>The events handed to the handler, in order; None is the fatal error.\<close>

definition event_callback :: "raw_event list \<Rightarrow> FsEvent list option" where
  "event_callback es = map_option fst (callback_loop es ([], Map.empty))"

section \<open>The life of a watcher\<close>

text \<open>
  \<open>w_handler\<close> is the object the stream's context points to. The stream delivers batches only
  between \<^verbatim>\<open>FSEventStreamStart\<close> and \<^verbatim>\<open>FSEventStreamStop\<close>.
\<close>

datatype stream = Stopped | Running | Released

record 'h Watcher =
  w_path :: "byte list"
  w_stream :: stream
  w_handler :: "'h option"

text \<open>
  \<open>create\<close> stands for \<^verbatim>\<open>FSEventStreamCreate\<close>: whether a stream on these paths, with this latency
  and these flags, could be made; otherwise the process ends.
\<close>

definition create_flags :: u32 where
  "create_flags = 0 OR 0x2 OR 0x40 OR 0x1 OR 0x10"

definition create_stream ::
  "(byte list list \<Rightarrow> 'd \<Rightarrow> u32 \<Rightarrow> bool) \<Rightarrow> byte list list \<Rightarrow> 'd \<Rightarrow> stream option" where
  "create_stream create paths_to_watch latency =
     (if create paths_to_watch latency create_flags then Some Stopped else None)"

definition new_Watcher ::
  "(byte list list \<Rightarrow> 'd \<Rightarrow> u32 \<Rightarrow> bool) \<Rightarrow> byte list \<Rightarrow> 'd \<Rightarrow> 'h Watcher option" where
  "new_Watcher create path latency =
     map_option (\<lambda>st. \<lparr>w_path = path, w_stream = st, w_handler = None\<rparr>)
       (create_stream create [path] latency)"

text \<open>\<open>ok\<close>: the result of \<^verbatim>\<open>FSEventStreamStart\<close>; a failure is fatal.\<close>

definition run_in_thread :: "bool \<Rightarrow> 'h \<Rightarrow> 'h Watcher \<Rightarrow> 'h Watcher option" where
  "run_in_thread ok h w =
     (if ok then Some (w\<lparr>w_handler := Some h, w_stream := Running\<rparr>) else None)"

definition delete_Watcher :: "'h Watcher \<Rightarrow> 'h Watcher" where
  "delete_Watcher w = w\<lparr>w_stream := Released\<rparr>"

text \<open>A batch that arrives: what the handler is called with.\<close>

definition deliver :: "'h Watcher \<Rightarrow> raw_event list \<Rightarrow> ('h \<times> FsEvent list) option" where
  "deliver w es =
     (case (w_stream w, w_handler w) of
        (Running, Some h) \<Rightarrow> map_option (Pair h) (event_callback es)
      | _ \<Rightarrow> None)"

text \<open>The three members in the Linux file do nothing.\<close>

definition run_in_thread_inotify :: "'h \<Rightarrow> 'h Watcher \<Rightarrow> 'h Watcher" where
  "run_in_thread_inotify h w = w"

text \<open>
  \<open>watch_dir\<close>: the watcher is a local variable, so its destructor runs when the function
  returns. The handler prints one line.
\<close>

fun kind_name :: "FsEventKind \<Rightarrow> string" where
  "kind_name Created = ''created''"
| "kind_name Deleted = ''deleted''"
| "kind_name Modify = ''modify''"
| "kind_name Meta = ''meta''"
| "kind_name Moved = ''moved''"
| "kind_name Sync = ''sync''"
| "kind_name Unrecoverable = ''unrecoverable''"

definition watch_line :: "FsEvent \<Rightarrow> string \<times> byte list \<times> byte list" where
  "watch_line e = (kind_name (ev_kind e), ev_path e, ev_dest e)"

definition watch_dir ::
  "(byte list list \<Rightarrow> 'd \<Rightarrow> u32 \<Rightarrow> bool) \<Rightarrow> bool \<Rightarrow> byte list \<Rightarrow> 'd \<Rightarrow>
   (FsEvent \<Rightarrow> string \<times> byte list \<times> byte list) Watcher option" where
  "watch_dir create ok path latency =
     (case new_Watcher create path latency of
        None \<Rightarrow> None
      | Some w \<Rightarrow> map_option delete_Watcher (run_in_thread ok watch_line w))"

section \<open>What each raw event contributes\<close>

definition normal :: "raw_event \<Rightarrow> bool" where
  "normal e \<longleftrightarrow> \<not> has_flag (RootChanged OR Mount OR Unmount) e \<and>
     \<not> has_flag (UserDropped OR MustScanSubDirs) e"

definition full_path :: "raw_event \<Rightarrow> byte list" where
  "full_path e = re_path e @ replicate (re_max e - length (re_path e)) 0"

definition renames :: "raw_event list \<Rightarrow> u64 \<Rightarrow> raw_event list" where
  "renames es ino = filter (\<lambda>e. normal e \<and> has_flag ItemRenamed e \<and> re_inode e = ino) es"

text \<open>The path of the last rename of the inode among the earlier events.\<close>

definition last_rename :: "raw_event list \<Rightarrow> u64 \<rightharpoonup> byte list" where
  "last_rename es ino = (if renames es ino = [] then None else Some (full_path (last (renames es ino))))"

definition contribution :: "raw_event list \<Rightarrow> raw_event \<Rightarrow> FsEvent list" where
  "contribution earlier e =
     (if has_flag (RootChanged OR Mount OR Unmount) e then [event Unrecoverable [] []]
      else if has_flag (UserDropped OR MustScanSubDirs) e then [event Sync [] []]
      else
        (if has_flag ItemCreated e then [event Created (full_path e) []] else []) @
        (if has_flag ItemRenamed e then
           (case last_rename earlier (re_inode e) of
              None \<Rightarrow> [] | Some src \<Rightarrow> [event Moved src (full_path e)])
         else []) @
        (if has_flag (ItemChangeOwner OR ItemInodeMetaMod) e then [event Meta (full_path e) []] else []) @
        (if has_flag ItemRemoved e then [event Deleted (full_path e) []] else []))"

lemma renames_snoc:
  "renames (es @ [e]) ino =
     renames es ino @ (if normal e \<and> has_flag ItemRenamed e \<and> re_inode e = ino then [e] else [])"
  by (simp add: renames_def)

lemma last_rename_snoc:
  "last_rename (es @ [e]) =
     (if normal e \<and> has_flag ItemRenamed e then (last_rename es)(re_inode e \<mapsto> full_path e)
      else last_rename es)"
  by (rule ext) (simp add: last_rename_def renames_snoc)

lemma last_rename_Nil: "last_rename [] = Map.empty"
  by (rule ext) (simp add: last_rename_def renames_def)

lemma callback_step_spec:
  "callback_step e (events, last_rename pre) =
     (if decode_path e = None then None
      else Some (events @ contribution pre e, last_rename (pre @ [e])))"
  by (simp add: callback_step_def contribution_def decode_path_def full_path_def last_rename_snoc
      normal_def Let_def split: option.splits)

lemma callback_loop_spec:
  "callback_loop es (events, last_rename pre) =
     (if \<forall>e \<in> set es. decode_path e \<noteq> None then
        Some (events @ concat (map (\<lambda>i. contribution (pre @ take i es) (es ! i)) [0..<length es]),
              last_rename (pre @ es))
      else None)"
proof (induction es arbitrary: events pre)
  case (Cons e es)
  have "map (\<lambda>i. contribution (pre @ take i (e # es)) ((e # es) ! i)) [0..<length (e # es)] =
      contribution pre e # map (\<lambda>i. contribution ((pre @ [e]) @ take i es) (es ! i)) [0..<length es]"
    by (simp add: upt_conv_Cons map_Suc_upt [symmetric] del: upt_Suc)
  then show ?case
    using Cons.IH [of "events @ contribution pre e" "pre @ [e]"]
    by (simp add: callback_step_spec del: upt_Suc)
qed simp

lemma rename_only:
  assumes "re_flags e = ItemRenamed"
  shows "normal e" "has_flag ItemRenamed e" "\<not> has_flag ItemCreated e" "\<not> has_flag ItemRemoved e"
    "\<not> has_flag (ItemChangeOwner OR ItemInodeMetaMod) e"
  using assms by (simp_all add: normal_def has_flag_def flag_defs)

lemma contribution_rename:
  assumes "list_all (\<lambda>e. re_flags e = ItemRenamed \<and> re_inode e = ino) (pre @ [e])"
  shows "contribution pre e =
         (if pre = [] then [] else [event Moved (full_path (last pre)) (full_path e)])"
proof -
  have "renames pre ino = pre"
    using assms rename_only by (auto simp: renames_def list_all_iff filter_id_conv)
  then show ?thesis
    using assms rename_only [of e] by (simp add: contribution_def normal_def last_rename_def)
qed

lemma event_callback_eq:
  "event_callback es =
     (if \<forall>e \<in> set es. length (re_path e) + 1 \<le> re_max e then
        Some (concat (map (\<lambda>i. contribution (take i es) (es ! i)) [0..<length es]))
      else None)"
proof -
  have "(\<forall>e \<in> set es. decode_path e \<noteq> None) = (\<forall>e \<in> set es. length (re_path e) + 1 \<le> re_max e)"
    by (simp add: decode_path_def)
  then show ?thesis
    using callback_loop_spec [of es "[]" "[]"] by (simp add: event_callback_def last_rename_Nil)
qed

section \<open>Properties\<close>

text \<open>C18. The callback against its specification: a batch is delivered unless some path does not fit
  its buffer; then the handler gets, for each raw event in order, what its flags and the
  renames before it call for. In particular an event is a move exactly when the same inode
  was renamed before in the batch, and its source is the path of the last such rename.\<close>

theorem event_callback_spec:
  "event_callback es =
     (if \<forall>e \<in> set es. length (re_path e) + 1 \<le> re_max e then
        Some (concat (map (\<lambda>i. contribution (take i es) (es ! i)) [0..<length es]))
      else None)"
  by (rule event_callback_eq)

theorem event_callback_spec_witness:
  "event_callback [\<lparr>re_path = [97], re_max = 2, re_inode = 5, re_flags = 0x800\<rparr>,
     \<lparr>re_path = [98], re_max = 2, re_inode = 5, re_flags = 0xA00\<rparr>] =
   Some [event Moved [97, 0] [98, 0], event Deleted [98, 0] []]"
  unfolding event_callback_spec
  by (simp add: upt_rec contribution_def has_flag_def flag_defs last_rename_def renames_def normal_def
      full_path_def)





end
