(* ===== verification/Proc_Spawn.thy ===== *)
theory Proc_Spawn
  imports Wire_Format
begin

text \<open>
  Child processes (\<^verbatim>\<open>enu/spawn.h\<close>, \<^verbatim>\<open>enu/spawn.cpp\<close>). The model has the descriptor tables of parent
  and child explicitly: an entry is an open file and its close-on-exec flag, and a new
  descriptor is the lowest free one, as POSIX has it. The theorems describe the tables after
  \<open>process_spawn\<close>, the error report through the result pipe, and the life of a \<open>Process\<close>.
\<close>

unbundle bit_operations_syntax

section \<open>Descriptor tables\<close>

type_synonym ofile = nat
type_synonym fdtab = "(ofile \<times> bool) option list"

definition fd_get :: "fdtab \<Rightarrow> nat \<Rightarrow> (ofile \<times> bool) option" where
  "fd_get t i = (if i < length t then t ! i else None)"

definition fd_set :: "fdtab \<Rightarrow> nat \<Rightarrow> (ofile \<times> bool) option \<Rightarrow> fdtab" where
  "fd_set t i e = (t @ replicate (Suc i - length t) None)[i := e]"

definition lowest_free :: "fdtab \<Rightarrow> nat" where
  "lowest_free t = length (takeWhile (\<lambda>e. e \<noteq> None) t)"

definition sys_close :: "fdtab \<Rightarrow> nat \<Rightarrow> fdtab" where
  "sys_close t i = fd_set t i None"

text \<open>\<open>lim\<close> is the limit on descriptors.\<close>

definition sys_dup :: "nat \<Rightarrow> fdtab \<Rightarrow> nat \<Rightarrow> (nat \<times> fdtab) option" where
  "sys_dup lim t fd =
     (case fd_get t fd of
        None \<Rightarrow> None
      | Some (f, _) \<Rightarrow>
          (let n = lowest_free t in if n < lim then Some (n, fd_set t n (Some (f, False))) else None))"

definition sys_dup2 :: "fdtab \<Rightarrow> nat \<Rightarrow> nat \<Rightarrow> fdtab option" where
  "sys_dup2 t a b =
     (case fd_get t a of
        None \<Rightarrow> None
      | Some (f, _) \<Rightarrow> Some (if a = b then t else fd_set t b (Some (f, False))))"

text \<open>A pipe has two new open files: \<open>k\<close> to read from, \<open>k + 1\<close> to write to.\<close>

definition sys_pipe :: "nat \<Rightarrow> fdtab \<times> nat \<Rightarrow> ((nat \<times> nat) \<times> fdtab \<times> nat) option" where
  "sys_pipe lim s =
     (case s of (t, k) \<Rightarrow>
      let r = lowest_free t; t1 = fd_set t r (Some (k, False));
          w = lowest_free t1; t2 = fd_set t1 w (Some (k + 1, False))
      in if r < lim \<and> w < lim then Some ((r, w), t2, k + 2) else None)"

section \<open>Pipes and the child (spawn.cpp)\<close>

definition close_on_exec :: "nat \<Rightarrow> fdtab \<Rightarrow> string + fdtab" where
  "close_on_exec fd t =
     (case fd_get t fd of
        None \<Rightarrow> Inl ''fcntl(F_GETFD)''
      | Some (f, _) \<Rightarrow> Inr (fd_set t fd (Some (f, True))))"

record Pipe =
  p_rd :: nat
  p_wr :: nat

definition new_Pipe :: "nat \<Rightarrow> fdtab \<times> nat \<Rightarrow> string + Pipe \<times> fdtab \<times> nat" where
  "new_Pipe lim s =
     (case sys_pipe lim s of
        None \<Rightarrow> Inl ''pipe''
      | Some ((r, w), t, k) \<Rightarrow>
          (case close_on_exec r t of
             Inl e \<Rightarrow> Inl e
           | Inr t \<Rightarrow>
               (case close_on_exec w t of
                  Inl e \<Rightarrow> Inl e
                | Inr t \<Rightarrow> Inr (\<lparr>p_rd = r, p_wr = w\<rparr>, t, k))))"

text \<open>What the system answers in one call of \<open>process_spawn\<close>.\<close>

record spawn_env =
  se_lim :: nat
  se_NSIG :: nat
  se_SIGSTOP :: nat
  se_sigaction :: "nat \<Rightarrow> bool"
  se_execve :: "byte list \<Rightarrow> byte list list \<Rightarrow> bool"
  se_strerror :: "byte list"
  se_vfork :: "int option"

definition SIGKILL :: nat where "SIGKILL = 9"
definition SIGTERM :: nat where "SIGTERM = 15"

record ChildArgs =
  c_path :: "byte list"
  c_argv :: "byte list list"
  c_result :: Pipe
  c_in :: Pipe
  c_out :: Pipe
  c_err :: Pipe
  c_oldmask :: "nat set"

text \<open>
  How the child ends up: it runs the program with the descriptors that are left, or it dies
  having written its report to the open file behind \<^verbatim>\<open>result.wr\<close>, if there is one.
\<close>

datatype child = Execd fdtab "nat set" | Died "(ofile \<times> byte list) option"

text \<open>The lambda \<^verbatim>\<open>fail\<close>: the length in a \<^verbatim>\<open>size_t\<close>, then the message.\<close>

definition fail_message :: "spawn_env \<Rightarrow> string \<Rightarrow> byte list" where
  "fail_message S err =
     bytes_of err @ (if se_strerror S \<noteq> [] then bytes_of '': '' @ se_strerror S else [])"

definition fail :: "spawn_env \<Rightarrow> ChildArgs \<Rightarrow> string \<Rightarrow> fdtab \<Rightarrow> child" where
  "fail S args err t =
     Died (map_option (\<lambda>(f, _). (f, le_bytes 8 (length (fail_message S err)) @ fail_message S err))
       (fd_get t (p_wr (c_result args))))"

fun reset_signals :: "spawn_env \<Rightarrow> nat list \<Rightarrow> bool" where
  "reset_signals S [] = True"
| "reset_signals S (sig # sigs) =
     (if sig = SIGKILL \<or> sig = se_SIGSTOP S then reset_signals S sigs
      else if \<not> se_sigaction S sig then False
      else reset_signals S sigs)"

text \<open>The redirections; an error is reported with the table at that point.\<close>

fun redirect :: "nat \<Rightarrow> (nat \<times> nat) list \<Rightarrow> fdtab \<Rightarrow> (string \<times> fdtab) + fdtab" where
  "redirect lim [] t = Inr t"
| "redirect lim ((in_fd, out_fd) # fds) t =
     (case sys_dup lim t in_fd of
        None \<Rightarrow> Inl (''dup'', t)
      | Some (tmp_fd, t) \<Rightarrow>
          (let t = sys_close t in_fd in
           (case sys_dup2 t tmp_fd out_fd of
              None \<Rightarrow> Inl (''dup2'', t)
            | Some t \<Rightarrow> redirect lim fds (sys_close t tmp_fd))))"

definition exec_tab :: "fdtab \<Rightarrow> fdtab" where
  "exec_tab t = map (\<lambda>e. case e of Some (f, c) \<Rightarrow> if c then None else e | None \<Rightarrow> None) t"

definition subprocess :: "spawn_env \<Rightarrow> ChildArgs \<Rightarrow> fdtab \<Rightarrow> child" where
  "subprocess S args t =
     (let t = sys_close t (p_rd (c_result args)) in
      if \<not> reset_signals S [1..<se_NSIG S] then fail S args ''sigaction (should not happen)'' t
      else
        (case redirect (se_lim S)
                [(p_rd (c_in args), 0), (p_wr (c_out args), 1), (p_wr (c_err args), 2)] t of
           Inl (err, t) \<Rightarrow> fail S args err t
         | Inr t \<Rightarrow>
             if se_execve S (c_path args) (c_argv args) then Execd (exec_tab t) (c_oldmask args)
             else fail S args ''execve'' t))"

section \<open>Spawning (spawn.cpp)\<close>

record Process =
  pid :: int
  in_wr :: nat
  out_rd :: nat
  err_rd :: nat

text \<open>
  The results: a process, with parent's and child's tables and signal masks; a fatal error
  (with the parent's table at that point); or a read of the result pipe that never ends,
  because the program keeps its other end open.
\<close>

datatype spawned =
    Running Process fdtab "nat set" child
  | Spawn_fatal "byte list" fdtab "nat set"
  | Sys_fatal string
  | Blocks

definition pipe_read :: "ofile \<Rightarrow> child \<Rightarrow> byte list option" where
  "pipe_read f c =
     (case c of
        Died (Some (g, bs)) \<Rightarrow> Some (if g = f then bs else [])
      | Died None \<Rightarrow> Some []
      | Execd t m \<Rightarrow> if \<exists>e \<in> set t. \<exists>c. e = Some (f, c) then None else Some [])"

definition close_all :: "nat list \<Rightarrow> fdtab \<Rightarrow> fdtab" where
  "close_all fds t = foldl sys_close t fds"

text \<open>
  The part after the pipes exist. \<open>k\<close> is the read end of the result pipe, so \<open>k + 1\<close> is the
  file the child reports to. While the child shares the parent's memory the parent waits, so
  the whole report is there when it reads.
\<close>

definition spawn_child ::
  "spawn_env \<Rightarrow> ChildArgs \<Rightarrow> ofile \<Rightarrow> int \<Rightarrow> fdtab \<Rightarrow> spawned" where
  "spawn_child S args k child_pid t =
     (let c = subprocess S args t;
          t = close_all [p_wr (c_result args), p_rd (c_in args), p_wr (c_out args), p_wr (c_err args)] t
      in
      (case pipe_read (k + 1) c of
         None \<Rightarrow> Blocks
       | Some bs \<Rightarrow>
           if bs \<noteq> [] then
             (let msg_len = le_nat (take 8 bs); rest = drop 8 bs;
                  msg = take msg_len rest @ replicate (msg_len - length rest) 0;
                  t = close_all [p_rd (c_result args), p_wr (c_in args), p_rd (c_out args),
                                 p_rd (c_err args)] t
              in Spawn_fatal msg t (c_oldmask args))
           else
             Running
               \<lparr>pid = child_pid, in_wr = p_wr (c_in args), out_rd = p_rd (c_out args),
                err_rd = p_rd (c_err args)\<rparr>
               (sys_close t (p_rd (c_result args))) (c_oldmask args) c))"

definition process_spawn ::
  "spawn_env \<Rightarrow> byte list \<Rightarrow> byte list list \<Rightarrow> fdtab \<times> ofile \<Rightarrow> nat set \<Rightarrow> spawned" where
  "process_spawn S path argv s oldmask =
     (case new_Pipe (se_lim S) s of Inl e \<Rightarrow> Sys_fatal e | Inr (result, s1) \<Rightarrow>
     (case new_Pipe (se_lim S) s1 of Inl e \<Rightarrow> Sys_fatal e | Inr (pin, s2) \<Rightarrow>
     (case new_Pipe (se_lim S) s2 of Inl e \<Rightarrow> Sys_fatal e | Inr (pout, s3) \<Rightarrow>
     (case new_Pipe (se_lim S) s3 of Inl e \<Rightarrow> Sys_fatal e | Inr (perr, t, _) \<Rightarrow>
        (let args = \<lparr>c_path = path, c_argv = argv, c_result = result, c_in = pin, c_out = pout,
                     c_err = perr, c_oldmask = oldmask\<rparr>
         in
         (case se_vfork S of
            None \<Rightarrow> Sys_fatal ''vfork()''
          | Some child_pid \<Rightarrow> spawn_child S args (snd s) child_pid t))))))"

section \<open>The life of a process (spawn.h, spawn.cpp)\<close>

text \<open>The macros on the status word of \<^verbatim>\<open>waitpid\<close>.\<close>

definition WTERMSIG :: "u32 \<Rightarrow> u32" where
  "WTERMSIG st = st AND 0x7f"

definition WIFEXITED :: "u32 \<Rightarrow> bool" where
  "WIFEXITED st \<longleftrightarrow> WTERMSIG st = 0"

definition WEXITSTATUS :: "u32 \<Rightarrow> u32" where
  "WEXITSTATUS st = drop_bit 8 st AND 0xff"

definition WIFSIGNALED :: "u32 \<Rightarrow> bool" where
  "WIFSIGNALED st \<longleftrightarrow> WTERMSIG st \<noteq> 0 \<and> WTERMSIG st \<noteq> 0x7f"

text \<open>The default constructor.\<close>

definition no_Process :: Process where
  "no_Process = \<lparr>pid = -1, in_wr = 0, out_rd = 0, err_rd = 0\<rparr>"

definition wait_proc :: "(int \<Rightarrow> u32 option) \<Rightarrow> Process \<Rightarrow> u32 \<times> Process" where
  "wait_proc waitpid p =
     (case waitpid (pid p) of
        None \<Rightarrow> (1, p)
      | Some status \<Rightarrow>
          (let p = p\<lparr>pid := -1\<rparr> in
           if WIFEXITED status then (WEXITSTATUS status, p)
           else if WIFSIGNALED status then
             (let sig = WTERMSIG status in (if sig = of_nat SIGTERM then 0 else 128 + sig, p))
           else (status, p)))"

text \<open>\<open>killed\<close>: whether \<^verbatim>\<open>kill(pid, SIGTERM)\<close> succeeds.\<close>

definition terminate ::
  "(int \<Rightarrow> bool) \<Rightarrow> (int \<Rightarrow> u32 option) \<Rightarrow> Process \<times> fdtab \<Rightarrow> u32 \<times> Process \<times> fdtab" where
  "terminate kill waitpid s =
     (case s of (p, t) \<Rightarrow>
      if pid p = -1 then (1, p, t)
      else
        (case (if kill (pid p) then wait_proc waitpid p else (1, p)) of
           (exit_code, p) \<Rightarrow>
             (exit_code, p,
              close_all (filter (\<lambda>fd. fd \<noteq> 0 \<and> fd \<noteq> 2 \<and> fd \<noteq> 1) [in_wr p, out_rd p, err_rd p]) t)))"

text \<open>The destructor.\<close>

definition delete_Process :: "(int \<Rightarrow> bool) \<Rightarrow> (int \<Rightarrow> u32 option) \<Rightarrow> Process \<times> fdtab \<Rightarrow> fdtab" where
  "delete_Process kill waitpid s = (case terminate kill waitpid s of (_, _, t) \<Rightarrow> t)"

text \<open>\<^verbatim>\<open>move\<close>: the new owner and what is left of the source.\<close>

definition move_proc :: "Process \<Rightarrow> Process \<times> Process" where
  "move_proc src = (src, src\<lparr>pid := -1\<rparr>)"

text \<open>Move assignment to another object.\<close>

definition assign_proc ::
  "(int \<Rightarrow> bool) \<Rightarrow> (int \<Rightarrow> u32 option) \<Rightarrow> Process \<Rightarrow> Process \<Rightarrow> fdtab \<Rightarrow> Process \<times> Process \<times> fdtab" where
  "assign_proc kill waitpid dst src t =
     (case terminate kill waitpid (dst, t) of
        (_, _, t) \<Rightarrow> (case move_proc src of (dst, src) \<Rightarrow> (dst, src, t)))"

section \<open>Tables as maps\<close>

lemma fd_get_set [simp]: "fd_get (fd_set t i e) = (fd_get t)(i := e)"
proof
  fix j
  show "fd_get (fd_set t i e) j = ((fd_get t)(i := e)) j"
    by (cases "j < length t") (auto simp: fd_get_def fd_set_def nth_append nth_list_update)
qed

lemma fd_get_close [simp]: "fd_get (sys_close t i) = (fd_get t)(i := None)"
  by (simp add: sys_close_def)

lemma fd_get_close_all: "fd_get (close_all fds t) = (\<lambda>i. if i \<in> set fds then None else fd_get t i)"
  by (induction fds arbitrary: t) (auto simp: close_all_def fun_eq_iff)

lemma lowest_free_None [simp]: "fd_get t (lowest_free t) = None"
proof (cases "lowest_free t < length t")
  case True
  then have "t ! lowest_free t = None"
    unfolding lowest_free_def using nth_length_takeWhile [of "\<lambda>e. e \<noteq> None" t] by blast
  with True show ?thesis by (simp add: fd_get_def)
qed (simp add: fd_get_def)

lemma lowest_free_least:
  assumes "fd_get t i = None"
  shows "lowest_free t \<le> i"
proof (rule ccontr)
  assume "\<not> lowest_free t \<le> i"
  then have i: "i < length (takeWhile (\<lambda>e. e \<noteq> None) t)" by (simp add: lowest_free_def)
  from nth_mem [OF i] have "t ! i \<noteq> None" by (metis i set_takeWhileD takeWhile_nth)
  moreover have "i < length t" using i length_takeWhile_le less_le_trans by blast
  ultimately show False using assms by (simp add: fd_get_def)
qed

lemma lowest_free_length: "lowest_free t \<le> length t"
  by (simp add: lowest_free_def length_takeWhile_le)

lemma length_fd_set [simp]: "length (fd_set t i e) = max (length t) (Suc i)"
  by (simp add: fd_set_def)

lemma length_close: "i < length t \<Longrightarrow> length (sys_close t i) = length t"
  by (simp add: sys_close_def)

lemma fd_get_length: "fd_get t i \<noteq> None \<Longrightarrow> i < length t"
  by (simp add: fd_get_def split: if_splits)

text \<open>What a new program gets of an entry.\<close>

definition inherited :: "(ofile \<times> bool) option \<Rightarrow> (ofile \<times> bool) option" where
  "inherited e = (case e of Some (f, c) \<Rightarrow> if c then None else Some (f, c) | None \<Rightarrow> None)"

lemma inherited_simps [simp]:
  "inherited None = None" "inherited (Some (f, True)) = None" "inherited (Some (f, False)) = Some (f, False)"
  by (simp_all add: inherited_def)

lemma fd_get_exec: "fd_get (exec_tab t) i = inherited (fd_get t i)"
  by (auto simp: fd_get_def exec_tab_def inherited_def split: option.splits)

text \<open>The standard descriptors are open, so a new one is not among them.\<close>

definition stdio_open :: "fdtab \<Rightarrow> bool" where
  "stdio_open t \<longleftrightarrow> (\<forall>i < 3. fd_get t i \<noteq> None)"

lemma stdio_fresh:
  assumes "stdio_open t" and "fd_get t i = None"
  shows "3 \<le> i"
  using assms unfolding stdio_open_def by (metis not_le)

lemma new_Pipe_fresh:
  assumes "length t \<le> n" "n + 2 \<le> lim" and k: "k1 = k + 1" "k2 = k + 2"
  obtains r w t' where "new_Pipe lim (t, k) = Inr (\<lparr>p_rd = r, p_wr = w\<rparr>, t', k2)"
    "fd_get t' = (fd_get t)(r \<mapsto> (k, True), w \<mapsto> (k1, True))"
    "fd_get t r = None" "fd_get t w = None" "r \<noteq> w" "length t' \<le> n + 2"
proof -
  define r where "r = lowest_free t"
  define t1 where "t1 = fd_set t r (Some (k, False))"
  define w where "w = lowest_free t1"
  have r: "r \<le> length t" "fd_get t r = None" by (simp_all add: r_def lowest_free_length)
  then have "length t1 \<le> length t + 1" by (simp add: t1_def)
  then have w: "w \<le> length t + 1" "fd_get t1 w = None"
    using lowest_free_length [of t1] by (simp_all add: w_def)
  then have "r \<noteq> w" and "fd_get t w = None" by (auto simp: t1_def split: if_splits)
  moreover have "sys_pipe lim (t, k) = Some ((r, w), fd_set t1 w (Some (k + 1, False)), k + 2)"
    using assms r w by (simp add: sys_pipe_def Let_def r_def [symmetric] t1_def [symmetric] w_def [symmetric])
  ultimately show thesis
    using that [of r w "fd_set (fd_set (fd_set t1 w (Some (k + 1, False))) r (Some (k, True))) w (Some (k + 1, True))"] r w
      assms(1) by (simp add: k new_Pipe_def close_on_exec_def t1_def fun_eq_iff)
qed

lemma redirect_step:
  assumes std: "stdio_open t" and a: "fd_get t a = Some (f, c)" "3 \<le> a" and b: "b < 3"
    and lim: "length t < lim"
  obtains t' where "redirect lim ((a, b) # fds) t = redirect lim fds t'"
    "fd_get t' = (fd_get t)(a := None, b \<mapsto> (f, False))" "length t' \<le> Suc (length t)" "stdio_open t'"
proof -
  define n where "n = lowest_free t"
  have n: "fd_get t n = None" "n \<le> length t" by (simp_all add: n_def lowest_free_length)
  then have "3 \<le> n" using stdio_fresh [OF std] by blast
  have "a < length t" using a(1) fd_get_length by force
  have "fd_get t b \<noteq> None" using std b by (simp add: stdio_open_def)
  then have "b < length t" by (rule fd_get_length)
  define t1 where "t1 = sys_close (fd_set t n (Some (f, False))) a"
  define t2 where "t2 = sys_close (fd_set t1 b (Some (f, False))) n"
  have "a \<noteq> n" using a(1) n(1) by auto
  then have t1: "fd_get t1 = (fd_get t)(a := None, n \<mapsto> (f, False))"
    by (auto simp: t1_def fun_eq_iff)
  have "b \<noteq> n" "b \<noteq> a" using b a(2) \<open>3 \<le> n\<close> by auto
  have "redirect lim ((a, b) # fds) t = redirect lim fds t2"
    using a(1) n lim \<open>b \<noteq> n\<close> \<open>a \<noteq> n\<close> t1
    by (simp add: sys_dup_def sys_dup2_def Let_def n_def [symmetric] t1_def [symmetric] t2_def)
  moreover have map: "fd_get t2 = (fd_get t)(a := None, b \<mapsto> (f, False))"
    using t1 n(1) \<open>b \<noteq> n\<close> \<open>a \<noteq> n\<close> by (auto simp: t2_def fun_eq_iff)
  moreover have "length t2 \<le> Suc (length t)"
    using n(2) \<open>a < length t\<close> \<open>b < length t\<close> by (simp add: t1_def t2_def sys_close_def)
  moreover have "stdio_open t2" using std a(2) unfolding stdio_open_def map by auto
  ultimately show thesis by (rule that)
qed

lemma redirect_three:
  assumes std: "stdio_open t" and lim: "length t + 2 < lim"
    and fds: "fd_get t a0 = Some (f0, c0)" "fd_get t a1 = Some (f1, c1)" "fd_get t a2 = Some (f2, c2)"
    and ge: "3 \<le> a0" "3 \<le> a1" "3 \<le> a2" and ne: "a0 \<noteq> a1" "a0 \<noteq> a2" "a1 \<noteq> a2"
  obtains t' where "redirect lim [(a0, 0), (a1, 1), (a2, 2)] t = Inr t'"
    "fd_get t' = (fd_get t)(a0 := None, a1 := None, a2 := None,
       0 \<mapsto> (f0, False), 1 \<mapsto> (f1, False), 2 \<mapsto> (f2, False))"
proof -
  have "0 < (3 :: nat)" "1 < (3 :: nat)" "2 < (3 :: nat)" by simp_all
  note three = this
  obtain t1 where t1: "redirect lim [(a0, 0), (a1, 1), (a2, 2)] t = redirect lim [(a1, 1), (a2, 2)] t1"
    "fd_get t1 = (fd_get t)(a0 := None, 0 \<mapsto> (f0, False))" "length t1 \<le> Suc (length t)" "stdio_open t1"
    using redirect_step [OF std fds(1) ge(1) three(1), of lim "[(a1, 1), (a2, 2)]"] lim by auto
  have "fd_get t1 a1 = Some (f1, c1)" using t1(2) fds(2) ge ne by simp
  then obtain t2 where t2: "redirect lim [(a1, 1), (a2, 2)] t1 = redirect lim [(a2, 2)] t2"
    "fd_get t2 = (fd_get t1)(a1 := None, 1 \<mapsto> (f1, False))" "length t2 \<le> Suc (length t1)" "stdio_open t2"
    using redirect_step [OF t1(4) _ ge(2) three(2), of f1 c1 lim "[(a2, 2)]"] lim t1(3) by auto
  have "fd_get t2 a2 = Some (f2, c2)" using t1(2) t2(2) fds(3) ge ne by simp
  then obtain t3 where t3: "redirect lim [(a2, 2)] t2 = redirect lim [] t3"
    "fd_get t3 = (fd_get t2)(a2 := None, 2 \<mapsto> (f2, False))"
    using redirect_step [OF t2(4) _ ge(3) three(3), of f2 c2 lim "[]"] lim t1(3) t2(3) by auto
  have "fd_get t3 = (fd_get t)(a0 := None, a1 := None, a2 := None,
      0 \<mapsto> (f0, False), 1 \<mapsto> (f1, False), 2 \<mapsto> (f2, False))"
    using ge by (auto simp: t3(2) t2(2) t1(2) fun_eq_iff)
  with t1(1) t2(1) t3(1) show thesis by (intro that [of t3]) simp_all
qed

lemma free_upd2: "(m(a \<mapsto> x, b \<mapsto> y)) i = None \<longleftrightarrow> i \<noteq> a \<and> i \<noteq> b \<and> m i = None"
  by auto

text \<open>
  The eight descriptors of the four pipes: free before, different from each other, and the
  table that has them in addition.
\<close>

definition pipe_map :: "ChildArgs \<Rightarrow> ofile \<Rightarrow> nat \<rightharpoonup> ofile \<times> bool" where
  "pipe_map args k =
     [p_rd (c_result args) \<mapsto> (k, True), p_wr (c_result args) \<mapsto> (k + 1, True),
      p_rd (c_in args) \<mapsto> (k + 2, True), p_wr (c_in args) \<mapsto> (k + 3, True),
      p_rd (c_out args) \<mapsto> (k + 4, True), p_wr (c_out args) \<mapsto> (k + 5, True),
      p_rd (c_err args) \<mapsto> (k + 6, True), p_wr (c_err args) \<mapsto> (k + 7, True)]"

definition pipe_fds :: "ChildArgs \<Rightarrow> nat list" where
  "pipe_fds args =
     [p_rd (c_result args), p_wr (c_result args), p_rd (c_in args), p_wr (c_in args),
      p_rd (c_out args), p_wr (c_out args), p_rd (c_err args), p_wr (c_err args)]"

lemma process_spawn_pipes:
  assumes "length t + 8 \<le> se_lim S"
  obtains args t' where "c_path args = path" "c_argv args = argv" "c_oldmask args = oldmask"
    "process_spawn S path argv (t, k) oldmask =
       (case se_vfork S of None \<Rightarrow> Sys_fatal ''vfork()'' | Some cpid \<Rightarrow> spawn_child S args k cpid t')"
    "fd_get t' = fd_get t ++ pipe_map args k" "distinct (pipe_fds args)"
    "\<And>fd. fd \<in> set (pipe_fds args) \<Longrightarrow> fd_get t fd = None" "length t' \<le> length t + 8"
proof -
  let ?lim = "se_lim S"
  have lim: "length t + 2 \<le> ?lim" "length t + 2 + 2 \<le> ?lim" "length t + 2 + 2 + 2 \<le> ?lim"
    "length t + 2 + 2 + 2 + 2 \<le> ?lim" using assms by simp_all
  have k: "k + 3 = k + 2 + 1" "k + 4 = k + 2 + 2" "k + 5 = k + 4 + 1" "k + 6 = k + 4 + 2"
    "k + 7 = k + 6 + 1" "k + 8 = k + 6 + 2" by simp_all
  obtain r1 w1 t1 where p1: "new_Pipe ?lim (t, k) = Inr (\<lparr>p_rd = r1, p_wr = w1\<rparr>, t1, k + 2)"
    "fd_get t1 = (fd_get t)(r1 \<mapsto> (k, True), w1 \<mapsto> (k + 1, True))"
    "fd_get t r1 = None" "fd_get t w1 = None" "r1 \<noteq> w1" "length t1 \<le> length t + 2"
    using new_Pipe_fresh [OF order_refl lim(1) refl refl, of k] by metis
  obtain r2 w2 t2 where p2: "new_Pipe ?lim (t1, k + 2) = Inr (\<lparr>p_rd = r2, p_wr = w2\<rparr>, t2, k + 4)"
    "fd_get t2 = (fd_get t1)(r2 \<mapsto> (k + 2, True), w2 \<mapsto> (k + 3, True))"
    "fd_get t1 r2 = None" "fd_get t1 w2 = None" "r2 \<noteq> w2" "length t2 \<le> length t + 2 + 2"
    using new_Pipe_fresh [OF p1(6) lim(2) k(1,2)] by metis
  obtain r3 w3 t3 where p3: "new_Pipe ?lim (t2, k + 4) = Inr (\<lparr>p_rd = r3, p_wr = w3\<rparr>, t3, k + 6)"
    "fd_get t3 = (fd_get t2)(r3 \<mapsto> (k + 4, True), w3 \<mapsto> (k + 5, True))"
    "fd_get t2 r3 = None" "fd_get t2 w3 = None" "r3 \<noteq> w3" "length t3 \<le> length t + 2 + 2 + 2"
    using new_Pipe_fresh [OF p2(6) lim(3) k(3,4)] by metis
  obtain r4 w4 t4 where p4: "new_Pipe ?lim (t3, k + 6) = Inr (\<lparr>p_rd = r4, p_wr = w4\<rparr>, t4, k + 8)"
    "fd_get t4 = (fd_get t3)(r4 \<mapsto> (k + 6, True), w4 \<mapsto> (k + 7, True))"
    "fd_get t3 r4 = None" "fd_get t3 w4 = None" "r4 \<noteq> w4" "length t4 \<le> length t + 2 + 2 + 2 + 2"
    using new_Pipe_fresh [OF p3(6) lim(4) k(5,6)] by metis
  let ?args = "\<lparr>c_path = path, c_argv = argv, c_result = \<lparr>p_rd = r1, p_wr = w1\<rparr>,
    c_in = \<lparr>p_rd = r2, p_wr = w2\<rparr>, c_out = \<lparr>p_rd = r3, p_wr = w3\<rparr>, c_err = \<lparr>p_rd = r4, p_wr = w4\<rparr>,
    c_oldmask = oldmask\<rparr>"
  note free = p1(3,4) p2(3,4) [unfolded p1(2) free_upd2] p3(3,4) [unfolded p2(2) p1(2) free_upd2]
    p4(3,4) [unfolded p3(2) p2(2) p1(2) free_upd2]
  show thesis
  proof (rule that [of ?args t4])
    show "distinct (pipe_fds ?args)"
      using free p1(5) p2(5) p3(5) p4(5) by (simp add: pipe_fds_def not_sym)
    show "fd_get t fd = None" if "fd \<in> set (pipe_fds ?args)" for fd
      using that free unfolding pipe_fds_def by auto
    show "fd_get t4 = fd_get t ++ pipe_map ?args k"
      by (simp only: p4(2) p3(2) p2(2) p1(2) pipe_map_def map_add_upd map_add_empty
          ChildArgs.select_convs Pipe.select_convs)
    show "process_spawn S path argv (t, k) oldmask = (case se_vfork S of
        None \<Rightarrow> Sys_fatal ''vfork()'' | Some cpid \<Rightarrow> spawn_child S ?args k cpid t4)"
      by (simp only: process_spawn_def p1(1) p2(1) p3(1) p4(1) sum.case prod.case Let_def snd_conv)
  qed (use p4(6) in simp_all)
qed

lemma pipe_map_sel:
  assumes "distinct (pipe_fds args)"
  shows "pipe_map args k (p_rd (c_result args)) = Some (k, True)"
    "pipe_map args k (p_wr (c_result args)) = Some (k + 1, True)"
    "pipe_map args k (p_rd (c_in args)) = Some (k + 2, True)"
    "pipe_map args k (p_wr (c_in args)) = Some (k + 3, True)"
    "pipe_map args k (p_rd (c_out args)) = Some (k + 4, True)"
    "pipe_map args k (p_wr (c_out args)) = Some (k + 5, True)"
    "pipe_map args k (p_rd (c_err args)) = Some (k + 6, True)"
    "pipe_map args k (p_wr (c_err args)) = Some (k + 7, True)"
  using assms by (simp_all add: pipe_map_def pipe_fds_def)

lemma dom_pipe_map: "dom (pipe_map args k) = set (pipe_fds args)"
  by (auto simp: pipe_map_def pipe_fds_def split: if_splits)

lemma pipe_map_None: "fd \<notin> set (pipe_fds args) \<Longrightarrow> pipe_map args k fd = None"
  using dom_pipe_map [of args k] by (metis domIff)

text \<open>All the descriptors of the pipes have the close-on-exec flag.\<close>

lemma pipe_map_cloexec: "pipe_map args k fd = Some (f, c) \<Longrightarrow> c"
  by (auto simp: pipe_map_def split: if_splits)

text \<open>What a spawn starts from: the table with the pipes.\<close>

definition piped :: "spawn_env \<Rightarrow> ChildArgs \<Rightarrow> ofile \<Rightarrow> fdtab \<Rightarrow> fdtab \<Rightarrow> bool" where
  "piped S args k t t' \<longleftrightarrow>
     fd_get t' = fd_get t ++ pipe_map args k \<and> distinct (pipe_fds args) \<and>
     (\<forall>fd \<in> set (pipe_fds args). fd_get t fd = None) \<and> stdio_open t \<and> length t' + 2 < se_lim S"

definition child_map :: "ChildArgs \<Rightarrow> ofile \<Rightarrow> (nat \<rightharpoonup> ofile \<times> bool) \<Rightarrow> nat \<rightharpoonup> ofile \<times> bool" where
  "child_map args k m =
     (m ++ pipe_map args k)(p_rd (c_result args) := None, p_rd (c_in args) := None,
        p_wr (c_out args) := None, p_wr (c_err args) := None,
        0 \<mapsto> (k + 2, False), 1 \<mapsto> (k + 5, False), 2 \<mapsto> (k + 7, False))"

lemma piped_ge3:
  assumes "piped S args k t t'" and "fd \<in> set (pipe_fds args)"
  shows "3 \<le> fd"
  using assms stdio_fresh by (auto simp: piped_def)

lemma subprocess_redirected:
  assumes P: "piped S args k t t'" and sig: "reset_signals S [1..<se_NSIG S]"
  obtains tt where "subprocess S args t' =
      (if se_execve S (c_path args) (c_argv args) then Execd (exec_tab tt) (c_oldmask args)
       else fail S args ''execve'' tt)"
    "fd_get tt = child_map args k (fd_get t)"
proof -
  let ?t = "sys_close t' (p_rd (c_result args))"
  have ge: "3 \<le> p_rd (c_result args)" "3 \<le> p_rd (c_in args)" "3 \<le> p_wr (c_out args)"
    "3 \<le> p_wr (c_err args)" using piped_ge3 [OF P] by (simp_all add: pipe_fds_def)
  have dist: "distinct (pipe_fds args)" and map: "fd_get t' = fd_get t ++ pipe_map args k"
    and std: "stdio_open t" and lim: "length t' + 2 < se_lim S"
    using P by (auto simp: piped_def)
  note sel = pipe_map_sel [OF dist, of k]
  have ne: "p_rd (c_result args) \<noteq> p_rd (c_in args)" "p_rd (c_result args) \<noteq> p_wr (c_out args)"
    "p_rd (c_result args) \<noteq> p_wr (c_err args)" "p_rd (c_in args) \<noteq> p_wr (c_out args)"
    "p_rd (c_in args) \<noteq> p_wr (c_err args)" "p_wr (c_out args) \<noteq> p_wr (c_err args)"
    using dist by (auto simp: pipe_fds_def)
  have "fd_get t' (p_rd (c_result args)) \<noteq> None" using map sel(1) by simp
  then have "length ?t = length t'" by (intro length_close fd_get_length)
  moreover have "stdio_open ?t"
    using std ge(1) by (auto simp: stdio_open_def map map_add_def split: option.splits)
  moreover have "fd_get ?t (p_rd (c_in args)) = Some (k + 2, True)"
    "fd_get ?t (p_wr (c_out args)) = Some (k + 5, True)" "fd_get ?t (p_wr (c_err args)) = Some (k + 7, True)"
    using sel ne by (simp_all add: map)
  ultimately obtain tt where tt: "redirect (se_lim S)
      [(p_rd (c_in args), 0), (p_wr (c_out args), 1), (p_wr (c_err args), 2)] ?t = Inr tt"
    "fd_get tt = (fd_get ?t)(p_rd (c_in args) := None, p_wr (c_out args) := None, p_wr (c_err args) := None,
       0 \<mapsto> (k + 2, False), 1 \<mapsto> (k + 5, False), 2 \<mapsto> (k + 7, False))"
    using redirect_three [of ?t "se_lim S" "p_rd (c_in args)" "k + 2" True "p_wr (c_out args)" "k + 5" True
        "p_wr (c_err args)" "k + 7" True] ge(2-4) ne(4-6) lim by metis
  then show thesis
    using sig by (intro that [of tt]) (simp_all add: subprocess_def Let_def child_map_def map)
qed

lemma exec_child_map:
  assumes tt: "fd_get tt = child_map args k m" and fresh: "\<forall>fd \<in> set (pipe_fds args). m fd = None"
  shows "fd_get (exec_tab tt) 0 = Some (k + 2, False)" "fd_get (exec_tab tt) 1 = Some (k + 5, False)"
    "fd_get (exec_tab tt) 2 = Some (k + 7, False)"
    and "3 \<le> i \<Longrightarrow> fd_get (exec_tab tt) i = inherited (m i)"
proof -
  show "fd_get (exec_tab tt) 0 = Some (k + 2, False)" "fd_get (exec_tab tt) 1 = Some (k + 5, False)"
    "fd_get (exec_tab tt) 2 = Some (k + 7, False)"
    by (simp_all add: fd_get_exec tt child_map_def)
  assume i: "3 \<le> i"
  show "fd_get (exec_tab tt) i = inherited (m i)"
  proof (cases "i \<in> set (pipe_fds args)")
    case True
    then obtain f c where fc: "pipe_map args k i = Some (f, c)" using dom_pipe_map [of args k] by force
    then have "c" by (rule pipe_map_cloexec)
    with fc i have "child_map args k m i = None \<or> child_map args k m i = Some (f, True)"
      by (simp add: child_map_def)
    then have "inherited (child_map args k m i) = None" by auto
    moreover have "m i = None" using fresh True by blast
    ultimately show ?thesis by (simp add: fd_get_exec tt)
  next
    case False
    then have "i \<noteq> p_rd (c_result args)" "i \<noteq> p_rd (c_in args)" "i \<noteq> p_wr (c_out args)"
      "i \<noteq> p_wr (c_err args)" by (auto simp: pipe_fds_def)
    with i pipe_map_None [OF False, of k] have "child_map args k m i = m i"
      by (simp add: child_map_def map_add_def)
    then show ?thesis by (simp add: fd_get_exec tt)
  qed
qed

lemma in_tab: "Some x \<in> set t \<longleftrightarrow> (\<exists>i. fd_get t i = Some x)"
  by (auto simp: fd_get_def in_set_conv_nth split: if_splits)

lemma parent_map:
  assumes P: "piped S args k t t'"
    and closed: "set fds = {p_rd (c_result args), p_wr (c_result args), p_rd (c_in args),
      p_wr (c_out args), p_wr (c_err args)}"
  shows "fd_get (close_all fds t') =
    (fd_get t)(p_wr (c_in args) \<mapsto> (k + 3, True), p_rd (c_out args) \<mapsto> (k + 4, True),
      p_rd (c_err args) \<mapsto> (k + 6, True))"
proof
  fix i
  have dist: "distinct (pipe_fds args)" and map: "fd_get t' = fd_get t ++ pipe_map args k"
    and free: "\<forall>fd \<in> set (pipe_fds args). fd_get t fd = None"
    using P by (auto simp: piped_def)
  have ne: "p_wr (c_in args) \<notin> set fds" "p_rd (c_out args) \<notin> set fds" "p_rd (c_err args) \<notin> set fds"
    "p_wr (c_in args) \<noteq> p_rd (c_out args)" "p_wr (c_in args) \<noteq> p_rd (c_err args)"
    "p_rd (c_out args) \<noteq> p_rd (c_err args)"
    using dist by (auto simp: closed pipe_fds_def)
  note sel = pipe_map_sel [OF dist, of k]
  have get: "fd_get (close_all fds t') j = (if j \<in> set fds then None else (fd_get t ++ pipe_map args k) j)" for j
    by (simp add: fd_get_close_all map)
  consider "i = p_wr (c_in args)" | "i = p_rd (c_out args)" | "i = p_rd (c_err args)"
    | (shut) "i \<in> set fds" | (other) "i \<notin> set (pipe_fds args)"
    unfolding closed pipe_fds_def by auto
  then show "fd_get (close_all fds t') i = ((fd_get t)(p_wr (c_in args) \<mapsto> (k + 3, True),
      p_rd (c_out args) \<mapsto> (k + 4, True), p_rd (c_err args) \<mapsto> (k + 6, True))) i"
  proof cases
    case shut
    moreover have "i \<in> set (pipe_fds args)" using shut by (auto simp: assms(2) pipe_fds_def)
    ultimately show ?thesis using ne free get by auto
  next
    case other
    then have "i \<notin> set fds" "i \<noteq> p_wr (c_in args)" "i \<noteq> p_rd (c_out args)" "i \<noteq> p_rd (c_err args)"
      by (auto simp: assms(2) pipe_fds_def)
    then show ?thesis using pipe_map_None [OF other, of k] by (simp add: get map_add_def)
  qed (use ne sel in \<open>simp_all add: get\<close>)
qed

lemma close_all_snoc: "sys_close (close_all fds t) fd = close_all (fds @ [fd]) t"
  by (simp add: close_all_def)

lemma close_all_append: "close_all fds (close_all gds t) = close_all (gds @ fds) t"
  by (simp add: close_all_def)

definition files_below :: "ofile \<Rightarrow> fdtab \<Rightarrow> bool" where
  "files_below k t \<longleftrightarrow> (\<forall>i f c. fd_get t i = Some (f, c) \<longrightarrow> f < k)"

lemma exec_closes_result:
  assumes tt: "fd_get tt = child_map args k (fd_get t)"
    and fresh: "\<forall>fd \<in> set (pipe_fds args). fd_get t fd = None" and below: "files_below k t"
  shows "pipe_read (k + 1) (Execd (exec_tab tt) m) = Some []"
proof -
  have "False" if "fd_get (exec_tab tt) i = Some (k + 1, c)" for i c
  proof (cases "3 \<le> i")
    case True
    with that exec_child_map(4) [OF tt fresh True] have "inherited (fd_get t i) = Some (k + 1, c)" by simp
    then have "fd_get t i = Some (k + 1, c)"
      by (auto simp: inherited_def split: option.splits if_splits)
    with below show False by (fastforce simp: files_below_def)
  next
    case False
    then have "i = 0 \<or> i = 1 \<or> i = 2" by auto
    with that exec_child_map(1-3) [OF tt fresh] show False by auto
  qed
  then have "\<forall>c. Some (k + 1, c) \<notin> set (exec_tab tt)" by (auto simp: in_tab)
  then show ?thesis by (auto simp: pipe_read_def)
qed

lemma spawn_child_runs:
  assumes P: "piped S args k t t'" and "reset_signals S [1..<se_NSIG S]"
    and exec: "se_execve S (c_path args) (c_argv args)" and below: "files_below k t"
  obtains pt ct where "spawn_child S args k cpid t' =
      Running \<lparr>pid = cpid, in_wr = p_wr (c_in args), out_rd = p_rd (c_out args), err_rd = p_rd (c_err args)\<rparr>
        pt (c_oldmask args) (Execd ct (c_oldmask args))"
    "fd_get pt = (fd_get t)(p_wr (c_in args) \<mapsto> (k + 3, True), p_rd (c_out args) \<mapsto> (k + 4, True),
      p_rd (c_err args) \<mapsto> (k + 6, True))"
    "fd_get ct 0 = Some (k + 2, False)" "fd_get ct 1 = Some (k + 5, False)"
    "fd_get ct 2 = Some (k + 7, False)" "\<And>i. 3 \<le> i \<Longrightarrow> fd_get ct i = inherited (fd_get t i)"
proof -
  have fresh: "\<forall>fd \<in> set (pipe_fds args). fd_get t fd = None" using P by (simp add: piped_def)
  obtain tt where tt: "subprocess S args t' = Execd (exec_tab tt) (c_oldmask args)"
    "fd_get tt = child_map args k (fd_get t)"
    using subprocess_redirected [OF assms(1,2)] exec by auto
  let ?fds = "[p_wr (c_result args), p_rd (c_in args), p_wr (c_out args), p_wr (c_err args),
    p_rd (c_result args)]"
  have "fd_get (close_all ?fds t') = (fd_get t)(p_wr (c_in args) \<mapsto> (k + 3, True),
      p_rd (c_out args) \<mapsto> (k + 4, True), p_rd (c_err args) \<mapsto> (k + 6, True))"
    by (rule parent_map [OF P]) auto
  with exec_child_map [OF tt(2) fresh] exec_closes_result [OF tt(2) fresh below, of "c_oldmask args"] tt(1)
  show thesis
    by (intro that [of "close_all ?fds t'" "exec_tab tt"])
      (simp_all add: spawn_child_def Let_def close_all_snoc)
qed

lemma parent_map_all:
  assumes P: "piped S args k t t'" and closed: "set fds = set (pipe_fds args)"
  shows "fd_get (close_all fds t') = fd_get t"
proof
  fix i
  have "fd_get t' = fd_get t ++ pipe_map args k" and "\<forall>fd \<in> set (pipe_fds args). fd_get t fd = None"
    using P by (auto simp: piped_def)
  then show "fd_get (close_all fds t') i = fd_get t i"
    using pipe_map_None [of i args k] by (auto simp: fd_get_close_all closed map_add_def)
qed

lemma spawn_child_reports:
  assumes P: "piped S args k t t'"
    and dies: "subprocess S args t' = fail S args err tt" "fd_get tt (p_wr (c_result args)) = Some (k + 1, c)"
    and len: "length (fail_message S err) < 256 ^ 8"
  obtains pt where "spawn_child S args k cpid t' = Spawn_fatal (fail_message S err) pt (c_oldmask args)"
    "fd_get pt = fd_get t"
proof -
  let ?msg = "fail_message S err"
  let ?fds = "[p_wr (c_result args), p_rd (c_in args), p_wr (c_out args), p_wr (c_err args),
    p_rd (c_result args), p_wr (c_in args), p_rd (c_out args), p_rd (c_err args)]"
  have "subprocess S args t' = Died (Some (k + 1, le_bytes 8 (length ?msg) @ ?msg))"
    by (simp add: dies fail_def)
  then have "pipe_read (k + 1) (subprocess S args t') = Some (le_bytes 8 (length ?msg) @ ?msg)"
    by (simp add: pipe_read_def)
  moreover have "le_bytes 8 (length ?msg) @ ?msg \<noteq> []"
    by (metis append_is_Nil_conv length_le_bytes list.size(3) numeral_eq_Suc nat.distinct(1))
  moreover have "le_nat (take 8 (le_bytes 8 (length ?msg) @ ?msg)) = length ?msg"
    using len by (simp add: le_nat_bytes)
  ultimately have "spawn_child S args k cpid t' = Spawn_fatal ?msg (close_all ?fds t') (c_oldmask args)"
    by (simp add: spawn_child_def Let_def close_all_append)
  moreover have "fd_get (close_all ?fds t') = fd_get t"
    by (rule parent_map_all [OF P]) (auto simp: pipe_fds_def)
  ultimately show thesis by (rule that)
qed

lemma subprocess_dies:
  assumes P: "piped S args k t t'"
    and bad: "\<not> reset_signals S [1..<se_NSIG S] \<or> \<not> se_execve S (c_path args) (c_argv args)"
  obtains tt c where "subprocess S args t' =
      fail S args (if reset_signals S [1..<se_NSIG S] then ''execve'' else ''sigaction (should not happen)'') tt"
    "fd_get tt (p_wr (c_result args)) = Some (k + 1, c)"
proof -
  have dist: "distinct (pipe_fds args)" and map: "fd_get t' = fd_get t ++ pipe_map args k"
    using P by (auto simp: piped_def)
  note sel = pipe_map_sel [OF dist, of k]
  have ne: "p_wr (c_result args) \<noteq> p_rd (c_result args)" "p_wr (c_result args) \<noteq> p_rd (c_in args)"
    "p_wr (c_result args) \<noteq> p_wr (c_out args)" "p_wr (c_result args) \<noteq> p_wr (c_err args)"
    using dist by (auto simp: pipe_fds_def)
  have ge: "3 \<le> p_wr (c_result args)" using piped_ge3 [OF P] by (simp add: pipe_fds_def)
  show thesis
  proof (cases "reset_signals S [1..<se_NSIG S]")
    case True
    then obtain tt where "subprocess S args t' = fail S args ''execve'' tt"
      "fd_get tt = child_map args k (fd_get t)"
      using subprocess_redirected [OF P True] bad by auto
    with True sel(2) ne ge show thesis by (intro that [of tt True]) (simp_all add: child_map_def)
  next
    case False
    with sel(2) ne show thesis
      by (intro that [of "sys_close t' (p_rd (c_result args))" True]) (simp_all add: subprocess_def Let_def map)
  qed
qed

lemma spawn_piped:
  assumes "stdio_open t" and "length t + 11 \<le> se_lim S"
  obtains args t' where "piped S args k t t'" "c_path args = path" "c_argv args = argv" "c_oldmask args = oldmask"
    "process_spawn S path argv (t, k) oldmask =
       (case se_vfork S of None \<Rightarrow> Sys_fatal ''vfork()'' | Some cpid \<Rightarrow> spawn_child S args k cpid t')"
proof -
  have "length t + 8 \<le> se_lim S" using assms(2) by simp
  then obtain args t' where "c_path args = path" "c_argv args = argv" "c_oldmask args = oldmask"
    "process_spawn S path argv (t, k) oldmask =
       (case se_vfork S of None \<Rightarrow> Sys_fatal ''vfork()'' | Some cpid \<Rightarrow> spawn_child S args k cpid t')"
    "fd_get t' = fd_get t ++ pipe_map args k" "distinct (pipe_fds args)"
    "\<And>fd. fd \<in> set (pipe_fds args) \<Longrightarrow> fd_get t fd = None" "length t' \<le> length t + 8"
    by (rule process_spawn_pipes [of t S path argv oldmask k]) blast
  with assms show thesis by (intro that [of args t']) (simp_all add: piped_def)
qed

section \<open>Status words\<close>

lemma WTERMSIG_nat: "WTERMSIG (of_nat n) = of_nat (n mod 128)"
proof -
  have "(0x7f :: u32) = Bit_Operations.mask 7" by (simp add: mask_eq_exp_minus_1)
  then have "WTERMSIG (of_nat n) = take_bit 7 (of_nat n)" by (simp add: WTERMSIG_def take_bit_eq_mask)
  also have "\<dots> = of_nat (take_bit 7 n)" by (rule take_bit_of_nat)
  finally show ?thesis by (simp add: take_bit_eq_mod)
qed

lemma WEXITSTATUS_nat: "n < 2 ^ 32 \<Longrightarrow> WEXITSTATUS (of_nat n) = of_nat (n div 256 mod 256)"
proof -
  assume n: "n < 2 ^ 32"
  have "(0xff :: u32) = Bit_Operations.mask 8" by (simp add: mask_eq_exp_minus_1)
  then have "WEXITSTATUS (of_nat n) = take_bit 8 (drop_bit 8 (of_nat n))" by (simp add: WEXITSTATUS_def take_bit_eq_mask)
  also have "drop_bit 8 (of_nat n) = (of_nat (n div 256) :: u32)"
  proof (rule unsigned_word_eqI [where 'a = nat])
    have "unat (of_nat n :: u32) = n" "unat (of_nat (n div 256) :: u32) = n div 256"
      and "take_bit 32 n = n"
      using n by (simp_all add: unat_of_nat take_bit_nat_eq_self_iff)
    then show "unat (drop_bit 8 (of_nat n :: u32)) = unat (of_nat (n div 256) :: u32)"
      unfolding unsigned_drop_bit_eq by (simp add: drop_bit_eq_div)
  qed
  also have "take_bit 8 (of_nat (n div 256)) = (of_nat (take_bit 8 (n div 256)) :: u32)" by (rule take_bit_of_nat)
  finally show ?thesis by (simp add: take_bit_eq_mod)
qed

text \<open>How the system encodes the end of a process in the word \<^verbatim>\<open>waitpid\<close> stores.\<close>

datatype ending = Exited nat | Signaled nat bool

fun status_word :: "ending \<Rightarrow> u32" where
  "status_word (Exited c) = of_nat (c * 256)"
| "status_word (Signaled sig core) = of_nat (sig + (if core then 128 else 0))"

fun ending_ok :: "ending \<Rightarrow> bool" where
  "ending_ok (Exited c) \<longleftrightarrow> c < 256"
| "ending_ok (Signaled sig core) \<longleftrightarrow> 0 < sig \<and> sig < 127"

section \<open>An environment for the witnesses\<close>

lemma reset_signals_iff:
  "reset_signals S sigs \<longleftrightarrow>
     (\<forall>sig \<in> set sigs. sig = SIGKILL \<or> sig = se_SIGSTOP S \<or> se_sigaction S sig)"
  by (induction sigs) auto

lemma stdio_open_iff: "stdio_open t \<longleftrightarrow> fd_get t 0 \<noteq> None \<and> fd_get t 1 \<noteq> None \<and> fd_get t 2 \<noteq> None"
proof
  assume "fd_get t 0 \<noteq> None \<and> fd_get t 1 \<noteq> None \<and> fd_get t 2 \<noteq> None"
  moreover have "i = 0 \<or> i = 1 \<or> i = 2" if "i < 3" for i :: nat using that by auto
  ultimately show "stdio_open t" unfolding stdio_open_def by metis
qed (simp add: stdio_open_def)

lemma files_below_iff: "files_below k t \<longleftrightarrow> list_all (\<lambda>e. case e of Some (f, c) \<Rightarrow> f < k | None \<Rightarrow> True) t"
proof -
  have "files_below k t \<longleftrightarrow> (\<forall>f c. Some (f, c) \<in> set t \<longrightarrow> f < k)" by (auto simp: files_below_def in_tab)
  also have "\<dots> \<longleftrightarrow> list_all (\<lambda>e. case e of Some (f, c) \<Rightarrow> f < k | None \<Rightarrow> True) t"
    by (auto simp: list_all_iff split: option.splits)
  finally show ?thesis .
qed

definition ex_env :: spawn_env where
  "ex_env =
     \<lparr>se_lim = 64, se_NSIG = 32, se_SIGSTOP = 17, se_sigaction = (\<lambda>_. True),
      se_execve = (\<lambda>path _. path \<noteq> []), se_strerror = [69], se_vfork = Some 42\<rparr>"

definition ex_tab :: fdtab where
  "ex_tab = [Some (0, False), Some (1, False), Some (2, False)]"

lemma ex_tab_ok: "stdio_open ex_tab" "files_below 3 ex_tab" "length ex_tab + 11 \<le> se_lim ex_env"
  by (simp_all add: stdio_open_iff files_below_iff fd_get_def ex_tab_def ex_env_def)

lemma ex_env_ok: "reset_signals ex_env [1..<se_NSIG ex_env]" "se_vfork ex_env = Some 42"
  "se_execve ex_env [47] argv" "\<not> se_execve ex_env [] argv" "length (se_strerror ex_env) < 2 ^ 32"
  by (simp_all add: reset_signals_iff ex_env_def)

text \<open>
  The condition on the standard descriptors is needed: in a process without them the pipes take
  their numbers, and the child closes its own standard input.
\<close>

definition child_fd :: "spawned \<Rightarrow> nat \<Rightarrow> (ofile \<times> bool) option option" where
  "child_fd s i = (case s of Running p pt m (Execd ct m') \<Rightarrow> Some (fd_get ct i) | _ \<Rightarrow> None)"

lemma spawn_without_stdio: "child_fd (process_spawn ex_env [47] [] ([], 0) {}) 0 = Some None"
  by code_simp

section \<open>Properties\<close>

text \<open>C19. A successful spawn connects the child: if the standard descriptors are open, enough
  descriptors are free, every signal can be reset and the program can be executed, then the
  program runs with descriptors 0, 1 and 2 on its ends of the three pipes and otherwise exactly
  the parent's inheritable descriptors, so no end of a pipe leaks into it; the parent keeps its
  own table and gets exactly the three other ends; and both have the old signal mask.\<close>

theorem spawn_connects:
  assumes "stdio_open t" and "length t + 11 \<le> se_lim S" and "files_below k t"
    and "reset_signals S [1..<se_NSIG S]" and "se_execve S path argv" and "se_vfork S = Some cpid"
  shows "\<exists>p pt ct. process_spawn S path argv (t, k) oldmask = Running p pt oldmask (Execd ct oldmask) \<and>
           pid p = cpid \<and>
           fd_get ct 0 = Some (k + 2, False) \<and> fd_get ct 1 = Some (k + 5, False) \<and>
           fd_get ct 2 = Some (k + 7, False) \<and> (\<forall>i \<ge> 3. fd_get ct i = inherited (fd_get t i)) \<and>
           fd_get pt = (fd_get t)(in_wr p \<mapsto> (k + 3, True), out_rd p \<mapsto> (k + 4, True), err_rd p \<mapsto> (k + 6, True)) \<and>
           fd_get t (in_wr p) = None \<and> fd_get t (out_rd p) = None \<and> fd_get t (err_rd p) = None"
proof -
  obtain args t' where P: "piped S args k t t'" and args: "c_path args = path" "c_argv args = argv" "c_oldmask args = oldmask"
    and spawn: "process_spawn S path argv (t, k) oldmask =
       (case se_vfork S of None \<Rightarrow> Sys_fatal ''vfork()'' | Some cpid \<Rightarrow> spawn_child S args k cpid t')"
    by (rule spawn_piped [OF assms(1,2)])
  have fresh: "\<forall>fd \<in> set (pipe_fds args). fd_get t fd = None" using P by (simp add: piped_def)
  from assms(5) args have "se_execve S (c_path args) (c_argv args)" by simp
  from spawn_child_runs [OF P assms(4) this assms(3), of cpid] spawn assms(6) args fresh
  show ?thesis by (fastforce simp: pipe_fds_def)
qed

theorem spawn_connects_witness:
  "\<exists>p pt ct. process_spawn ex_env [47] [] (ex_tab, 3) {} = Running p pt {} (Execd ct {}) \<and>
     pid p = 42 \<and> fd_get ct 0 = Some (3 + 2, False)"
  using spawn_connects [OF ex_tab_ok(1,3,2) ex_env_ok(1,3,2), of "[]" "{}"]
  by (elim exE conjE) (intro exI conjI; assumption)



text \<open>C36. The exit code of a child: the code it exited with, 0 when \<^verbatim>\<open>SIGTERM\<close> ended it, 128 plus the
  signal when another one did, core dumped or not; so 0 means a normal end or a graceful
  termination, and nothing else.\<close>

theorem wait_exit_code:
  assumes "waitpid (pid p) = Some (status_word e)" and "ending_ok e"
  shows "wait_proc waitpid p =
           (case e of
              Exited c \<Rightarrow> of_nat c
            | Signaled sig core \<Rightarrow> if sig = SIGTERM then 0 else of_nat (128 + sig), p\<lparr>pid := -1\<rparr>) \<and>
         (fst (wait_proc waitpid p) = 0 \<longleftrightarrow> e = Exited 0 \<or> (\<exists>core. e = Signaled SIGTERM core))"
proof (cases e)
  case (Exited c)
  with assms have "WTERMSIG (status_word e) = 0" "WEXITSTATUS (status_word e) = of_nat c" "c < 256"
    by (simp_all add: WTERMSIG_nat WEXITSTATUS_nat del: of_nat_mult)
  moreover have "(of_nat c :: u32) = 0 \<longleftrightarrow> c = 0"
    using \<open>c < 256\<close> by (auto dest!: arg_cong [where f = unat] simp: unat_of_nat)
  ultimately show ?thesis using assms(1) Exited by (simp add: wait_proc_def WIFEXITED_def Let_def)
next
  case (Signaled sig core)
  with assms have sig: "0 < sig" "sig < 127" by simp_all
  have "(sig + (if core then 128 else 0)) mod 128 = sig" using sig by simp
  then have w: "WTERMSIG (status_word e) = of_nat sig"
    using Signaled WTERMSIG_nat [of "sig + (if core then 128 else 0)"] by simp
  have eq: "(of_nat sig :: u32) = of_nat m \<longleftrightarrow> sig = m" if "m < 256" for m
    using sig that by (auto dest!: arg_cong [where f = unat] simp: unat_of_nat)
  have "(of_nat sig :: u32) \<noteq> 0" "(of_nat sig :: u32) \<noteq> 127" "(of_nat sig :: u32) = of_nat SIGTERM \<longleftrightarrow> sig = SIGTERM"
    using eq [of 0] eq [of 127] eq [of SIGTERM] sig by (simp_all add: SIGTERM_def)
  moreover have "(128 :: u32) + of_nat sig \<noteq> 0"
    using sig by (auto dest!: arg_cong [where f = unat] simp: unat_word_ariths unat_of_nat)
  ultimately show ?thesis
    using assms(1) Signaled w by (simp add: wait_proc_def WIFEXITED_def WIFSIGNALED_def Let_def)
qed

theorem wait_exit_code_witness:
  "fst (wait_proc (\<lambda>_. Some (status_word (Signaled 15 True))) \<lparr>pid = 7, in_wr = 3, out_rd = 4, err_rd = 5\<rparr>) = 0"
  using wait_exit_code [of "\<lambda>_. Some (status_word (Signaled 15 True))"
      "\<lparr>pid = 7, in_wr = 3, out_rd = 4, err_rd = 5\<rparr>" "Signaled 15 True"]
  by (simp add: SIGTERM_def)

text \<open>C37. Ownership of a child: terminating it closes its descriptors (the standard ones apart) and
  marks it dead, after which terminating again, from a destructor or a moved-from object,
  does nothing; but the same holds after \<open>wait\<close>, which has closed nothing, so the descriptors
  of a process that was waited for are never closed.\<close>

theorem process_owned_once:
  assumes "pid p \<noteq> -1" and "kill (pid p)" and "waitpid (pid p) = Some st"
    and "terminate kill waitpid (p, t) = (code, p', t')"
  shows "pid p' = -1 \<and>
         fd_get t' = (\<lambda>i. if i \<in> {in_wr p, out_rd p, err_rd p} \<and> 2 < i then None else fd_get t i) \<and>
         terminate kill waitpid (p', u) = (1, p', u) \<and>
         terminate kill waitpid (snd (move_proc p), u) = (1, snd (move_proc p), u) \<and>
         terminate kill waitpid (snd (wait_proc waitpid p), u) = (1, snd (wait_proc waitpid p), u)"
proof -
  have w: "snd (wait_proc waitpid p) = p\<lparr>pid := -1\<rparr>"
    using assms(3) by (simp add: wait_proc_def Let_def)
  then have p': "p' = p\<lparr>pid := -1\<rparr>"
    and t': "t' = close_all (filter (\<lambda>fd. fd \<noteq> 0 \<and> fd \<noteq> 2 \<and> fd \<noteq> 1) [in_wr p, out_rd p, err_rd p]) t"
    using assms by (auto simp: terminate_def split: prod.splits)
  have "i \<in> set (filter (\<lambda>fd. fd \<noteq> 0 \<and> fd \<noteq> 2 \<and> fd \<noteq> 1) [in_wr p, out_rd p, err_rd p]) \<longleftrightarrow>
      i \<in> {in_wr p, out_rd p, err_rd p} \<and> 2 < i" for i
    by auto
  then have "fd_get t' = (\<lambda>i. if i \<in> {in_wr p, out_rd p, err_rd p} \<and> 2 < i then None else fd_get t i)"
    unfolding t' fd_get_close_all by presburger
  moreover have "terminate kill waitpid (q, u) = (1, q, u)" if "pid q = -1" for q
    using that by (simp add: terminate_def)
  ultimately show ?thesis by (simp add: p' w move_proc_def)
qed

theorem process_owned_once_witness:
  "fd_get (snd (snd (terminate (\<lambda>_. True) (\<lambda>_. Some 0)
       (\<lparr>pid = 7, in_wr = 3, out_rd = 1, err_rd = 4\<rparr>, replicate 5 (Some (9, False)))))) 3 = None"
proof -
  let ?p = "\<lparr>pid = 7, in_wr = 3, out_rd = 1, err_rd = 4\<rparr>" and ?t = "replicate 5 (Some (9 :: nat, False))"
  obtain code p' t' where run: "terminate (\<lambda>_. True) (\<lambda>_. Some 0) (?p, ?t) = (code, p', t')"
    by (metis prod_cases3)
  have "fd_get t' 3 = None"
    using process_owned_once [OF _ _ _ run, of 0 "[]"] by simp
  with run show ?thesis by simp
qed

end
