(* ===== verification/Tracked_Tree.thy ===== *)
theory Tracked_Tree
  imports Enu_Prelude
begin

text \<open>
  The tree of files with their progress (\<^verbatim>\<open>enu/tracked.h\<close>). Nodes are objects on the heap that other
  components hold pointers to, so the model is a store: node identifiers map to nodes, each
  with the list of its children and a pointer to its parent. A pointer to a destroyed node is
  an identifier without a node, and an operation on it is undefined (None).
\<close>

section \<open>Model (tracked.h)\<close>

type_synonym nid = nat

record 'm TrackedNode =
  n_ready :: bool
  n_children :: "nid list"
  n_done :: u64
  n_total :: u64
  n_parent :: "nid option"
  n_meta :: 'm

text \<open>
  \<open>TrackedRoot\<close> together with the store. Times are nanoseconds of the steady clock.
\<close>

record 'm tracked =
  t_nodes :: "nid \<rightharpoonup> 'm TrackedNode"
  t_next :: nid
  t_root :: nid
  t_start :: int
  t_last_draw :: int
  t_rows :: nat
  t_sum_done :: u64
  t_sum_total :: u64

definition UPDATE_INTERVAL :: int where
  "UPDATE_INTERVAL = 80 * 1000000"

definition new_node :: "'m \<Rightarrow> nid option \<Rightarrow> 'm TrackedNode" where
  "new_node metadata p =
     \<lparr>n_ready = False, n_children = [], n_done = 0, n_total = 0, n_parent = p, n_meta = metadata\<rparr>"

text \<open>The constructor of the root, at time \<open>now\<close>.\<close>

definition new_root :: "'m \<Rightarrow> int \<Rightarrow> 'm tracked" where
  "new_root metadata now =
     \<lparr>t_nodes = [0 \<mapsto> new_node metadata None], t_next = 1, t_root = 0, t_start = now,
      t_last_draw = now, t_rows = 0, t_sum_done = 0, t_sum_total = 0\<rparr>"

definition upd_node :: "nid \<Rightarrow> ('m TrackedNode \<Rightarrow> 'm TrackedNode) \<Rightarrow> 'm tracked \<Rightarrow> 'm tracked option" where
  "upd_node n f F =
     (case t_nodes F n of
        None \<Rightarrow> None
      | Some r \<Rightarrow> Some (F\<lparr>t_nodes := (t_nodes F)(n \<mapsto> f r)\<rparr>))"

definition add_child :: "nid \<Rightarrow> 'm \<Rightarrow> 'm tracked \<Rightarrow> (nid \<times> 'm tracked) option" where
  "add_child n metadata F =
     (let child = t_next F in
      map_option (\<lambda>F. (child, F\<lparr>t_nodes := (t_nodes F)(child \<mapsto> new_node metadata (Some n)),
                                t_next := Suc child\<rparr>))
        (upd_node n (\<lambda>r. r\<lparr>n_children := n_children r @ [child]\<rparr>) F))"

definition unlock :: "nid \<Rightarrow> 'm tracked \<Rightarrow> 'm tracked option" where
  "unlock n F = upd_node n (\<lambda>r. r\<lparr>n_ready := True\<rparr>) F"

text \<open>
  \<open>iter_children\<close> waits until the node is ready; the callback then gets the children in order.
  A node that is not ready gives Inl.
\<close>

definition iter_children :: "nid \<Rightarrow> 'm tracked \<Rightarrow> (unit + nid list) option" where
  "iter_children n F =
     map_option (\<lambda>r. if n_ready r then Inr (n_children r) else Inl ()) (t_nodes F n)"

text \<open>
  \<open>tick\<close> at time \<open>now\<close>; \<open>got\<close> is the result of \<^verbatim>\<open>try_lock\<close>, \<open>render\<close> the drawing function with the
  elapsed time. The second result says whether it was called.
\<close>

definition tick ::
  "('m tracked \<Rightarrow> int \<Rightarrow> nat) \<Rightarrow> bool \<Rightarrow> int \<Rightarrow> nid \<Rightarrow> u64 \<Rightarrow> 'm tracked \<Rightarrow> ('m tracked \<times> bool) option" where
  "tick render got now n delta F =
     (case upd_node n (\<lambda>r. r\<lparr>n_done := n_done r + delta\<rparr>) F of
        None \<Rightarrow> None
      | Some F \<Rightarrow>
          (let F = F\<lparr>t_sum_done := t_sum_done F + delta\<rparr> in
           if \<not> got then Some (F, False)
           else if now - t_last_draw F \<ge> UPDATE_INTERVAL then
             (let F = F\<lparr>t_last_draw := now\<rparr> in
              Some (F\<lparr>t_rows := render F (now - t_start F)\<rparr>, True))
           else Some (F, False)))"

definition shift_total :: "nid \<Rightarrow> u64 \<Rightarrow> 'm tracked \<Rightarrow> 'm tracked option" where
  "shift_total n delta F =
     map_option (\<lambda>F. F\<lparr>t_sum_total := t_sum_total F + delta\<rparr>)
       (upd_node n (\<lambda>r. r\<lparr>n_total := n_total r + delta\<rparr>) F)"

text \<open>The nodes that are destroyed with \<open>n\<close>: its subtree, to the given depth.\<close>

definition children_of :: "'m tracked \<Rightarrow> nid \<Rightarrow> nid list" where
  "children_of F n = (case t_nodes F n of None \<Rightarrow> [] | Some r \<Rightarrow> n_children r)"

fun subtree :: "nat \<Rightarrow> 'm tracked \<Rightarrow> nid \<Rightarrow> nid list" where
  "subtree 0 F n = []"
| "subtree (Suc k) F n = n # concat (map (subtree k F) (children_of F n))"

text \<open>
  \<open>remove\<close>: the root has no parent, which the assertion excludes. The depth of a tree is less
  than the number of identifiers given out.
\<close>

definition remove :: "nid \<Rightarrow> 'm tracked \<Rightarrow> 'm tracked option" where
  "remove n F =
     (case t_nodes F n of
        None \<Rightarrow> None
      | Some r \<Rightarrow>
          (case n_parent r of
             None \<Rightarrow> None
           | Some p \<Rightarrow>
               map_option (\<lambda>F'. F'\<lparr>t_nodes := (t_nodes F') |` (- set (subtree (t_next F) F n))\<rparr>)
                 (upd_node p (\<lambda>r. r\<lparr>n_children := remove1 n (n_children r)\<rparr>) F)))"

definition child_count :: "nid \<Rightarrow> 'm tracked \<Rightarrow> nat option" where
  "child_count n F = map_option (\<lambda>r. length (n_children r)) (t_nodes F n)"

definition is_root :: "nid \<Rightarrow> 'm tracked \<Rightarrow> bool option" where
  "is_root n F = map_option (\<lambda>r. n_parent r = None) (t_nodes F n)"

section \<open>Well-formed trees\<close>

text \<open>
  A tree is known by two functions, the parent of a node that is there and the list of its
  children. Identifiers grow from parent to child, because nodes are made in that order.
\<close>

definition parent_of :: "'m tracked \<Rightarrow> nid \<Rightarrow> nid option option" where
  "parent_of F n = map_option n_parent (t_nodes F n)"

definition wf_links :: "(nid \<Rightarrow> nid option option) \<Rightarrow> (nid \<Rightarrow> nid list) \<Rightarrow> nid \<Rightarrow> nid \<Rightarrow> bool" where
  "wf_links par ch next root \<longleftrightarrow>
     par root = Some None \<and>
     (\<forall>n. par n = None \<longrightarrow> ch n = []) \<and>
     (\<forall>n. par n = Some None \<longrightarrow> n = root) \<and>
     (\<forall>n p. par n = Some (Some p) \<longrightarrow> n \<in> set (ch p)) \<and>
     (\<forall>n q. par n = Some q \<longrightarrow> n < next) \<and>
     (\<forall>n. distinct (ch n)) \<and>
     (\<forall>n c. c \<in> set (ch n) \<longrightarrow> n < c \<and> par c = Some (Some n))"

definition wf_tree :: "'m tracked \<Rightarrow> bool" where
  "wf_tree F \<longleftrightarrow> wf_links (parent_of F) (children_of F) (t_next F) (t_root F)"

lemma wf_linksD:
  assumes "wf_links par ch next root"
  shows "par root = Some None" and "\<And>n. par n = None \<Longrightarrow> ch n = []"
    and "\<And>n. par n = Some None \<Longrightarrow> n = root" and "\<And>n p. par n = Some (Some p) \<Longrightarrow> n \<in> set (ch p)"
    and "\<And>n q. par n = Some q \<Longrightarrow> n < next" and "\<And>n. distinct (ch n)"
    and "\<And>n c. c \<in> set (ch n) \<Longrightarrow> n < c" and "\<And>n c. c \<in> set (ch n) \<Longrightarrow> par c = Some (Some n)"
  using assms unfolding wf_links_def by blast+

lemma parent_of_None [simp]: "parent_of F n = None \<longleftrightarrow> t_nodes F n = None"
  by (simp add: parent_of_def)

lemma children_of_Some [simp]: "t_nodes F n = Some r \<Longrightarrow> children_of F n = n_children r"
  by (simp add: children_of_def)

lemma parent_of_Some [simp]: "t_nodes F n = Some r \<Longrightarrow> parent_of F n = Some (n_parent r)"
  by (simp add: parent_of_def)

lemma new_root_wf: "wf_tree (new_root metadata now)"
  by (auto simp: wf_tree_def wf_links_def new_root_def new_node_def parent_of_def children_of_def split: if_splits)

lemma links_add:
  assumes wf: "wf_links par ch c root" and n: "par n \<noteq> None"
  shows "wf_links (par(c \<mapsto> Some n)) (ch(n := ch n @ [c], c := [])) (Suc c) root"
proof -
  note W = wf_linksD [OF wf]
  have fresh: "par c = None" using W(5) [of c] by (cases "par c") auto
  then have "n \<noteq> c" "root \<noteq> c" "n < c" using n W(1) W(5) [of n] by auto
  have old: "c \<notin> set (ch m)" for m using W(8) [of c m] fresh by auto
  let ?par = "par(c \<mapsto> Some n)" and ?ch = "ch(n := ch n @ [c], c := [])"
  show ?thesis
    unfolding wf_links_def
  proof (intro conjI allI impI)
    fix m q k
    show "?par root = Some None" using W(1) \<open>root \<noteq> c\<close> by simp
    show "?ch m = []" if "?par m = None" using that W(2) n by (auto split: if_splits)
    show "m = root" if "?par m = Some None" using that W(3) by (simp split: if_splits)
    show "m \<in> set (?ch q)" if "?par m = Some (Some q)"
      using that W(4) [of m q] W(2) [of q] fresh \<open>n \<noteq> c\<close> by (auto split: if_splits)
    show "m < Suc c" if "?par m = Some k" using that W(5) [of m] by (auto split: if_splits simp: less_SucI)
    show "distinct (?ch m)" using W(6) old by simp
    show "m < q" if "q \<in> set (?ch m)" using that W(7) \<open>n < c\<close> by (auto split: if_splits)
    show "?par q = Some (Some m)" if "q \<in> set (?ch m)" using that W(8) old by (auto split: if_splits)
  qed
qed

text \<open>Cutting off a set of nodes that is closed under children and hangs on one link.\<close>

lemma links_cut:
  assumes wf: "wf_links par ch next root" and p: "par n = Some (Some p)"
    and D: "n \<in> D" "p \<notin> D" "root \<notin> D"
    and closed: "\<And>m c. m \<in> D \<Longrightarrow> c \<in> set (ch m) \<Longrightarrow> c \<in> D"
    and hangs: "\<And>m. m \<in> D \<Longrightarrow> m \<noteq> n \<Longrightarrow> \<exists>d \<in> D. m \<in> set (ch d)"
  shows "wf_links (\<lambda>m. if m \<in> D then None else par m)
           (\<lambda>m. if m \<in> D then [] else if m = p then remove1 n (ch p) else ch m) next root"
proof -
  note W = wf_linksD [OF wf]
  have outside: "c \<notin> D" if "m \<notin> D" "c \<in> set (ch m)" "c \<noteq> n" for m c
  proof
    assume "c \<in> D"
    with hangs that(3) obtain d where "d \<in> D" "c \<in> set (ch d)" by blast
    with W(8) [of c d] W(8) [OF that(2)] that(1) show False by simp
  qed
  have above: "q \<notin> D" if "m \<notin> D" "par m = Some (Some q)" for m q
    using closed W(4) [OF that(2)] that(1) by blast
  have only: "m = p" if "n \<in> set (ch m)" for m using W(8) [OF that] p by simp
  let ?par = "\<lambda>m. if m \<in> D then None else par m"
    and ?ch = "\<lambda>m. if m \<in> D then [] else if m = p then remove1 n (ch p) else ch m"
  have sub: "set (?ch m) \<subseteq> set (ch m)" for m
    using set_remove1_subset [of n "ch p"] by auto
  have kept: "q \<notin> D" if "q \<in> set (?ch m)" for m q
    using that outside [of m q] only [of m] W(6) [of p] by (auto split: if_splits simp: set_remove1_eq)
  show ?thesis
    unfolding wf_links_def
  proof (intro conjI allI impI)
    fix m q k
    show "?par root = Some None" using W(1) D(3) by simp
    show "?ch m = []" if "?par m = None" using that W(2) p W(2) [of p] by (auto split: if_splits)
    show "m = root" if "?par m = Some None" using that W(3) by (simp split: if_splits)
    show "m \<in> set (?ch q)" if "?par m = Some (Some q)"
      using that above [of m q] W(4) [of m q] D(1)
      by (cases "m = n") (auto split: if_splits simp: in_set_remove1)
    show "m < next" if "?par m = Some k" using that W(5) [of m] by (auto split: if_splits)
    show "distinct (?ch m)" using W(6) by (simp add: distinct_remove1)
    show "m < q" if "q \<in> set (?ch m)" using that sub W(7) by blast
    show "?par q = Some (Some m)" if "q \<in> set (?ch m)" using kept [OF that] sub that W(8) by auto
  qed
qed

section \<open>The operations keep the tree\<close>

lemma upd_node_links:
  assumes "upd_node n f F = Some F'"
    and "\<And>r. n_parent (f r) = n_parent r" and "\<And>r. n_children (f r) = n_children r"
  shows "parent_of F' = parent_of F" "children_of F' = children_of F"
    "t_next F' = t_next F" "t_root F' = t_root F"
  using assms
  by (auto simp: upd_node_def parent_of_def children_of_def fun_eq_iff split: option.splits if_splits)

lemma add_child_nodes:
  assumes "add_child n metadata F = Some (c, F')"
  shows "c = t_next F" and "\<exists>r. t_nodes F n = Some r \<and>
    t_nodes F' = (t_nodes F)(n \<mapsto> r\<lparr>n_children := n_children r @ [c]\<rparr>, c \<mapsto> new_node metadata (Some n))"
    and "t_next F' = Suc c" "t_root F' = t_root F" "t_sum_total F' = t_sum_total F" "t_sum_done F' = t_sum_done F"
  using assms by (auto simp: add_child_def Let_def upd_node_def split: option.splits)

lemma wf_fresh: "wf_tree F \<Longrightarrow> t_nodes F (t_next F) = None"
  unfolding wf_tree_def using wf_linksD(5) by (metis less_irrefl parent_of_None option.exhaust)

lemma add_child_wf:
  assumes "wf_tree F" and "add_child n metadata F = Some (c, F')"
  shows "wf_tree F'"
proof -
  note A = add_child_nodes [OF assms(2)]
  obtain r where r: "t_nodes F n = Some r"
    "t_nodes F' = (t_nodes F)(n \<mapsto> r\<lparr>n_children := n_children r @ [c]\<rparr>, c \<mapsto> new_node metadata (Some n))"
    using A(2) by blast
  have "n \<noteq> c" using r(1) wf_fresh [OF assms(1)] A(1) by auto
  then have "parent_of F' = (parent_of F)(c \<mapsto> Some n)"
    "children_of F' = (children_of F)(n := children_of F n @ [c], c := [])"
    using r by (auto simp: parent_of_def children_of_def new_node_def fun_eq_iff)
  moreover have "wf_links (parent_of F) (children_of F) c (t_root F)" and n: "parent_of F n \<noteq> None"
    using assms(1) A(1) r(1) by (simp_all add: wf_tree_def)
  ultimately show ?thesis using links_add [where par = "parent_of F", OF _ n] A(3,4) by (simp only: wf_tree_def)
qed

text \<open>The subtree that goes with a removed node.\<close>

lemma subtree_ge:
  assumes "wf_tree F" and "m \<in> set (subtree k F n)"
  shows "n \<le> m"
  using assms(2)
proof (induction k arbitrary: n)
  case (Suc k)
  then show ?case
    using wf_linksD(7) [OF assms(1) [unfolded wf_tree_def]] by (fastforce simp: less_imp_le)
qed simp

lemma subtree_hangs:
  assumes "m \<in> set (subtree k F n)" and "m \<noteq> n"
  shows "\<exists>d \<in> set (subtree k F n). m \<in> set (children_of F d)"
  using assms
proof (induction k arbitrary: n)
  case (Suc k)
  then obtain c where c: "c \<in> set (children_of F n)" "m \<in> set (subtree k F c)" by auto
  show ?case
  proof (cases "m = c")
    case True
    with c(1) show ?thesis by auto
  next
    case False
    from Suc.IH [OF c(2) this] c(1) show ?thesis by auto
  qed
qed simp

lemma subtree_closed:
  assumes wf: "wf_tree F" and "t_next F \<le> n + k" and "m \<in> set (subtree k F n)" and "c \<in> set (children_of F m)"
  shows "c \<in> set (subtree k F n)"
  using assms(2,3)
proof (induction k arbitrary: n)
  case (Suc k)
  note W = wf_linksD [OF wf [unfolded wf_tree_def]]
  have self: "c \<in> set (subtree k F c)" if "c \<in> set (children_of F n)"
  proof -
    from W(8) [OF that] have "c < t_next F" using W(5) by blast
    moreover have "n < c" by (rule W(7) [OF that])
    ultimately have "0 < k" using Suc.prems(1) by simp
    then show ?thesis by (cases k) simp_all
  qed
  consider "m = n" | d where "d \<in> set (children_of F n)" "m \<in> set (subtree k F d)"
    using Suc.prems(2) by auto
  then show ?case
  proof cases
    case 1
    then show ?thesis using assms(4) self by auto
  next
    case 2
    have "t_next F \<le> d + k" using W(7) [OF 2(1)] Suc.prems(1) by simp
    from Suc.IH [OF this 2(2)] 2(1) show ?thesis by auto
  qed
qed simp

lemma remove_nodes:
  assumes "remove n F = Some F'"
  obtains p q where "parent_of F n = Some (Some p)" "t_nodes F p = Some q"
    "t_nodes F' = ((t_nodes F)(p \<mapsto> q\<lparr>n_children := remove1 n (n_children q)\<rparr>)) |` (- set (subtree (t_next F) F n))"
    "t_next F' = t_next F" "t_root F' = t_root F" "t_sum_done F' = t_sum_done F" "t_sum_total F' = t_sum_total F"
proof -
  obtain r where r: "t_nodes F n = Some r" using assms by (cases "t_nodes F n") (simp_all add: remove_def)
  obtain p where p: "n_parent r = Some p" using assms r by (cases "n_parent r") (simp_all add: remove_def)
  obtain q where q: "t_nodes F p = Some q"
    using assms r p by (cases "t_nodes F p") (simp_all add: remove_def upd_node_def)
  have "F' = F\<lparr>t_nodes := ((t_nodes F)(p \<mapsto> q\<lparr>n_children := remove1 n (n_children q)\<rparr>)) |`
      (- set (subtree (t_next F) F n))\<rparr>"
    using assms r p q by (simp add: remove_def upd_node_def)
  then show thesis using r p q by (intro that [of p q]) simp_all
qed

lemma remove_links:
  assumes rem: "remove n F = Some F'"
  obtains p where "parent_of F n = Some (Some p)"
    "parent_of F' = (\<lambda>m. if m \<in> set (subtree (t_next F) F n) then None else parent_of F m)"
    "children_of F' = (\<lambda>m. if m \<in> set (subtree (t_next F) F n) then []
       else if m = p then remove1 n (children_of F p) else children_of F m)"
    "t_next F' = t_next F" "t_root F' = t_root F"
proof -
  let ?D = "set (subtree (t_next F) F n)"
  obtain p q where R: "parent_of F n = Some (Some p)" "t_nodes F p = Some q"
    "t_nodes F' = ((t_nodes F)(p \<mapsto> q\<lparr>n_children := remove1 n (n_children q)\<rparr>)) |` (- ?D)"
    "t_next F' = t_next F" "t_root F' = t_root F"
    by (rule remove_nodes [OF rem])
  have "parent_of F' = (\<lambda>m. if m \<in> ?D then None else parent_of F m)"
    using R(2) by (auto simp: R(3) parent_of_def restrict_map_def fun_eq_iff)
  moreover have "children_of F' =
      (\<lambda>m. if m \<in> ?D then [] else if m = p then remove1 n (children_of F p) else children_of F m)"
    using R(2) by (auto simp: R(3) children_of_def restrict_map_def fun_eq_iff)
  ultimately show thesis using R(1,4,5) that by blast
qed

lemma subtree_self:
  assumes "wf_tree F" and "parent_of F n = Some q"
  shows "n \<in> set (subtree (t_next F) F n)"
proof -
  have "n < t_next F" by (rule wf_linksD(5) [OF assms(1) [unfolded wf_tree_def] assms(2)])
  then show ?thesis by (cases "t_next F") simp_all
qed

lemma remove_wf:
  assumes wf: "wf_tree F" and rem: "remove n F = Some F'"
  shows "wf_tree F'"
proof -
  let ?D = "set (subtree (t_next F) F n)"
  obtain p where R: "parent_of F n = Some (Some p)"
    "parent_of F' = (\<lambda>m. if m \<in> ?D then None else parent_of F m)"
    "children_of F' = (\<lambda>m. if m \<in> ?D then [] else if m = p then remove1 n (children_of F p) else children_of F m)"
    "t_next F' = t_next F" "t_root F' = t_root F"
    by (rule remove_links [OF rem])
  note W = wf_linksD [OF wf [unfolded wf_tree_def]]
  have pn: "p < n" using W(7) [OF W(4) [OF R(1)]] .
  have "n \<in> ?D" by (rule subtree_self [OF wf R(1)])
  have "p \<notin> ?D" using subtree_ge [OF wf] pn by force
  have "t_root F \<notin> ?D"
  proof
    assume "t_root F \<in> ?D"
    moreover have "t_root F \<noteq> n" using W(1) R(1) by auto
    ultimately obtain d where "t_root F \<in> set (children_of F d)" using subtree_hangs by blast
    with W(8) W(1) show False by fastforce
  qed
  show ?thesis
    unfolding wf_tree_def R(2-5)
  proof (rule links_cut [OF wf [unfolded wf_tree_def] R(1)])
    show "c \<in> ?D" if "m \<in> ?D" "c \<in> set (children_of F m)" for m c
      using subtree_closed [OF wf _ that] by simp
    show "\<exists>d \<in> ?D. m \<in> set (children_of F d)" if "m \<in> ?D" "m \<noteq> n" for m
      using subtree_hangs [OF that] .
  qed fact+
qed

text \<open>The subtree is what is below in the relation of children.\<close>

definition child_rel :: "'m tracked \<Rightarrow> (nid \<times> nid) set" where
  "child_rel F = {(c, p). c \<in> set (children_of F p)}"

lemma subtree_rtrancl:
  assumes wf: "wf_tree F" and n: "parent_of F n = Some q"
  shows "m \<in> set (subtree (t_next F) F n) \<longleftrightarrow> (m, n) \<in> (child_rel F)\<^sup>*"
proof
  have "(m, n) \<in> (child_rel F)\<^sup>*" if "m \<in> set (subtree k F n)" for k n
    using that
  proof (induction k arbitrary: n)
    case (Suc k)
    then show ?case by (auto simp: child_rel_def intro: rtrancl_into_rtrancl)
  qed simp
  then show "m \<in> set (subtree (t_next F) F n) \<Longrightarrow> (m, n) \<in> (child_rel F)\<^sup>*" .
next
  assume "(m, n) \<in> (child_rel F)\<^sup>*"
  then show "m \<in> set (subtree (t_next F) F n)"
  proof (induction rule: converse_rtrancl_induct)
    case base
    show ?case by (rule subtree_self [OF wf n])
  next
    case (step y z)
    then show ?case using subtree_closed [OF wf _ step.IH] by (simp add: child_rel_def)
  qed
qed

text \<open>A leaf goes alone.\<close>

lemma remove_leaf:
  assumes wf: "wf_tree F" and rem: "remove n F = Some F'" and leaf: "children_of F n = []"
  obtains p where "parent_of F n = Some (Some p)" "parent_of F' = (parent_of F)(n := None)"
    "children_of F' = (children_of F)(p := remove1 n (children_of F p))"
    "\<And>m. m \<noteq> n \<Longrightarrow> map_option n_meta (t_nodes F' m) = map_option n_meta (t_nodes F m)"
    "\<And>m. m \<noteq> n \<Longrightarrow> map_option n_ready (t_nodes F' m) = map_option n_ready (t_nodes F m)"
proof -
  obtain p q where R: "parent_of F n = Some (Some p)" "t_nodes F p = Some q"
    "t_nodes F' = ((t_nodes F)(p \<mapsto> q\<lparr>n_children := remove1 n (n_children q)\<rparr>)) |` (- set (subtree (t_next F) F n))"
    by (rule remove_nodes [OF rem])
  note W = wf_linksD [OF wf [unfolded wf_tree_def]]
  have "n < t_next F" by (rule W(5) [OF R(1)])
  then have D: "set (subtree (t_next F) F n) = {n}" using leaf by (cases "t_next F") simp_all
  have "p \<noteq> n" using W(7) [OF W(4) [OF R(1)]] by simp
  show thesis
  proof (rule that [OF R(1)])
    show "parent_of F' = (parent_of F)(n := None)"
      using R(2) by (auto simp: R(3) D parent_of_def restrict_map_def fun_eq_iff)
    show "children_of F' = (children_of F)(p := remove1 n (children_of F p))"
      using R(2) leaf \<open>p \<noteq> n\<close> by (auto simp: R(3) D children_of_def restrict_map_def fun_eq_iff)
  qed (use R(2) in \<open>auto simp: R(3) D restrict_map_def\<close>)
qed

section \<open>Any sequence of operations\<close>

text \<open>While the tree grows nothing is removed.\<close>

inductive grow_step :: "'m tracked \<Rightarrow> 'm tracked \<Rightarrow> bool" where
  step_add: "add_child n metadata F = Some (c, F') \<Longrightarrow> grow_step F F'"
| step_unlock: "unlock n F = Some F' \<Longrightarrow> grow_step F F'"
| step_tick: "tick render got now n delta F = Some (F', drawn) \<Longrightarrow> grow_step F F'"
| step_shift: "shift_total n delta F = Some F' \<Longrightarrow> grow_step F F'"

inductive tree_step :: "'m tracked \<Rightarrow> 'm tracked \<Rightarrow> bool" where
  step_grow: "grow_step F F' \<Longrightarrow> tree_step F F'"
| step_remove: "remove n F = Some F' \<Longrightarrow> tree_step F F'"

lemma unlock_links:
  assumes "unlock n F = Some F'"
  shows "parent_of F' = parent_of F" "children_of F' = children_of F" "t_next F' = t_next F" "t_root F' = t_root F"
  using upd_node_links [OF assms [unfolded unlock_def]] by simp_all

lemma shift_total_links:
  assumes "shift_total n delta F = Some F'"
  shows "parent_of F' = parent_of F" "children_of F' = children_of F" "t_next F' = t_next F" "t_root F' = t_root F"
proof -
  obtain G where G: "upd_node n (\<lambda>r. r\<lparr>n_total := n_total r + delta\<rparr>) F = Some G"
    and F': "F' = G\<lparr>t_sum_total := t_sum_total G + delta\<rparr>"
    using assms by (auto simp: shift_total_def)
  note L = upd_node_links [OF G]
  show "parent_of F' = parent_of F" "children_of F' = children_of F" "t_next F' = t_next F" "t_root F' = t_root F"
    using L by (simp_all add: F' parent_of_def children_of_def fun_eq_iff)
qed

lemma tick_links:
  assumes "tick render got now n delta F = Some (F', drawn)"
  shows "parent_of F' = parent_of F" "children_of F' = children_of F" "t_next F' = t_next F" "t_root F' = t_root F"
proof -
  obtain G where G: "upd_node n (\<lambda>r. r\<lparr>n_done := n_done r + delta\<rparr>) F = Some G"
    using assms by (auto simp: tick_def split: option.splits)
  note L = upd_node_links [OF G]
  have F': "t_nodes F' = t_nodes G" "t_next F' = t_next G" "t_root F' = t_root G"
    using assms G by (auto simp: tick_def Let_def split: if_splits)
  show "parent_of F' = parent_of F" "children_of F' = children_of F" "t_next F' = t_next F" "t_root F' = t_root F"
    using L by (simp_all add: F' parent_of_def children_of_def fun_eq_iff)
qed

lemma grow_step_wf:
  assumes "wf_tree F" and "grow_step F F'"
  shows "wf_tree F'"
  using assms(2)
proof cases
  case step_add
  then show ?thesis using add_child_wf [OF assms(1)] by blast
next
  case step_unlock
  then show ?thesis using assms(1) unlock_links by (fastforce simp: wf_tree_def)
next
  case step_tick
  then show ?thesis using assms(1) tick_links by (fastforce simp: wf_tree_def)
next
  case step_shift
  then show ?thesis using assms(1) shift_total_links by (fastforce simp: wf_tree_def)
qed

lemma tree_step_wf:
  assumes "wf_tree F" and "tree_step F F'"
  shows "wf_tree F'"
  using assms(2) by cases (auto intro: grow_step_wf [OF assms(1)] remove_wf [OF assms(1)])

interpretation tree: transition tree_step wf_tree
  by unfold_locales (rule tree_step_wf)

text \<open>The counters of the root are the sums over the nodes.\<close>

definition map_sum :: "('a \<Rightarrow> u64) \<Rightarrow> ('k \<rightharpoonup> 'a) \<Rightarrow> u64" where
  "map_sum f m = (\<Sum>k \<in> dom m. f (the (m k)))"

abbreviation node_sum :: "('m TrackedNode \<Rightarrow> u64) \<Rightarrow> 'm tracked \<Rightarrow> u64" where
  "node_sum f F \<equiv> map_sum f (t_nodes F)"

definition sums_ok :: "'m tracked \<Rightarrow> bool" where
  "sums_ok F \<longleftrightarrow> wf_tree F \<and> t_sum_total F = node_sum n_total F \<and> t_sum_done F = node_sum n_done F"

lemma wf_finite: "wf_tree F \<Longrightarrow> finite (dom (t_nodes F))"
proof -
  assume wf: "wf_tree F"
  have "dom (t_nodes F) \<subseteq> {..<t_next F}"
    using wf_linksD(5) [OF wf [unfolded wf_tree_def]] by (auto intro: parent_of_Some)
  then show ?thesis using finite_subset by blast
qed

lemma map_sum_upd [simp]:
  assumes "finite (dom m)"
  shows "map_sum f (m(n \<mapsto> x)) = map_sum f m - (case m n of None \<Rightarrow> 0 | Some y \<Rightarrow> f y) + f x"
proof -
  have "(\<Sum>k \<in> dom m - {n}. f (the ((m(n \<mapsto> x)) k))) = (\<Sum>k \<in> dom m - {n}. f (the (m k)))"
    by (rule sum.cong) auto
  then have "map_sum f (m(n \<mapsto> x)) = f x + (\<Sum>k \<in> dom m - {n}. f (the (m k)))"
    using assms by (simp add: map_sum_def sum.insert_remove)
  moreover have "dom m - {n} = dom m" if "m n = None" using that by auto
  then have "map_sum f m =
      (case m n of None \<Rightarrow> 0 | Some y \<Rightarrow> f y) + (\<Sum>k \<in> dom m - {n}. f (the (m k)))"
    using assms sum.remove [of "dom m" n "\<lambda>k. f (the (m k))"]
    by (cases "m n") (auto simp: map_sum_def domIff)
  ultimately show ?thesis by simp
qed

lemma grow_step_sums:
  assumes ok: "sums_ok F" and step: "grow_step F F'"
  shows "sums_ok F'"
proof -
  have wf: "wf_tree F" and fin: "finite (dom (t_nodes F))" and sums: "t_sum_total F = node_sum n_total F" "t_sum_done F = node_sum n_done F"
    using ok wf_finite by (auto simp: sums_ok_def)
  have wf': "wf_tree F'" by (rule grow_step_wf [OF wf step])
  have "t_sum_total F' = node_sum n_total F' \<and> t_sum_done F' = node_sum n_done F'"
    using step
  proof cases
    case (step_add n metadata c)
    note A = add_child_nodes [OF step_add]
    obtain r where r: "t_nodes F n = Some r"
      "t_nodes F' = (t_nodes F)(n \<mapsto> r\<lparr>n_children := n_children r @ [c]\<rparr>, c \<mapsto> new_node metadata (Some n))"
      using A(2) by blast
    have "n \<noteq> c" "t_nodes F c = None" using r(1) wf_fresh [OF wf] A(1) by auto
    then show ?thesis
      using r(1) fin A(5,6) sums by (simp add: r(2) new_node_def)
  next
    case (step_unlock n)
    then show ?thesis
      using fin sums by (auto simp: unlock_def upd_node_def split: option.splits)
  next
    case (step_tick render got now n delta drawn)
    then obtain r where "t_nodes F n = Some r" "t_nodes F' = (t_nodes F)(n \<mapsto> r\<lparr>n_done := n_done r + delta\<rparr>)"
      "t_sum_done F' = t_sum_done F + delta" "t_sum_total F' = t_sum_total F"
      by (auto simp: tick_def upd_node_def Let_def split: option.splits if_splits)
    then show ?thesis using fin sums by simp
  next
    case (step_shift n delta)
    then obtain r where "t_nodes F n = Some r" "t_nodes F' = (t_nodes F)(n \<mapsto> r\<lparr>n_total := n_total r + delta\<rparr>)"
      "t_sum_done F' = t_sum_done F" "t_sum_total F' = t_sum_total F + delta"
      by (auto simp: shift_total_def upd_node_def split: option.splits)
    then show ?thesis using fin sums by simp
  qed
  with wf' show ?thesis by (simp add: sums_ok_def)
qed

interpretation growing: transition grow_step sums_ok
  by unfold_locales (rule grow_step_sums)

section \<open>Drawing\<close>

text \<open>A sequence of ticks, each with its lock result, time, node and delta; the times drawn at.\<close>

fun ticks ::
  "('m tracked \<Rightarrow> int \<Rightarrow> nat) \<Rightarrow> (bool \<times> int \<times> nid \<times> u64) list \<Rightarrow> 'm tracked \<Rightarrow> ('m tracked \<times> int list) option"
  where
  "ticks render [] F = Some (F, [])"
| "ticks render ((got, now, n, delta) # es) F =
     (case tick render got now n delta F of
        None \<Rightarrow> None
      | Some (F, drawn) \<Rightarrow>
          map_option (\<lambda>(F, ts). (F, if drawn then now # ts else ts)) (ticks render es F))"

text \<open>\<open>spaced d t ts\<close>: the times \<open>ts\<close> follow \<open>t\<close> and each other at distance \<open>d\<close> or more.\<close>

fun spaced :: "int \<Rightarrow> int \<Rightarrow> int list \<Rightarrow> bool" where
  "spaced d t [] \<longleftrightarrow> True"
| "spaced d t (u # us) \<longleftrightarrow> t + d \<le> u \<and> spaced d u us"

lemma tick_draw:
  assumes "tick render got now n delta F = Some (F', drawn)"
  shows "t_last_draw F' = (if drawn then now else t_last_draw F)"
    and "drawn \<longleftrightarrow> got \<and> t_last_draw F + UPDATE_INTERVAL \<le> now"
proof -
  obtain G where G: "upd_node n (\<lambda>r. r\<lparr>n_done := n_done r + delta\<rparr>) F = Some G"
    using assms by (auto simp: tick_def split: option.splits)
  then have "t_last_draw G = t_last_draw F" by (auto simp: upd_node_def split: option.splits)
  with assms G show "t_last_draw F' = (if drawn then now else t_last_draw F)"
    and "drawn \<longleftrightarrow> got \<and> t_last_draw F + UPDATE_INTERVAL \<le> now"
    by (auto simp: tick_def Let_def split: if_splits)
qed

section \<open>A small tree for the witnesses\<close>

definition ex_tree :: "string tracked" where
  "ex_tree = snd (the (add_child 0 ''f'' (new_root ''r'' 0)))"

lemma ex_tree_add: "add_child 0 ''f'' (new_root ''r'' 0) = Some (1, ex_tree)"
  by (simp add: ex_tree_def add_child_def upd_node_def new_root_def new_node_def Let_def)

lemma ex_tree_grow: "grow_step\<^sup>*\<^sup>* (new_root ''r'' 0) ex_tree"
  using step_add [OF ex_tree_add] by blast

lemma ex_tree_run: "tree_step\<^sup>*\<^sup>* (new_root ''r'' 0) ex_tree"
  using step_grow [OF step_add [OF ex_tree_add]] by blast

lemma ex_tree_remove: "\<exists>F'. remove 1 ex_tree = Some F'"
  by (simp add: ex_tree_def add_child_def upd_node_def new_root_def new_node_def remove_def Let_def)

section \<open>Properties\<close>

text \<open>C8. The tree stays a tree: in every state that any sequence of operations reaches from a new
  root, the root alone has no parent, every other node is in the list of its parent's
  children exactly once and in no other list, and children are younger than their parent,
  so there is no cycle and no link to a destroyed node.\<close>

theorem tree_invariant:
  assumes "tree_step\<^sup>*\<^sup>* (new_root metadata now) F"
  shows "parent_of F (t_root F) = Some None \<and>
         (\<forall>n p. parent_of F n = Some p \<longrightarrow>
            (case p of
               None \<Rightarrow> n = t_root F
             | Some q \<Rightarrow> n \<in> set (children_of F q) \<and> distinct (children_of F q) \<and> q < n)) \<and>
         (\<forall>n c. c \<in> set (children_of F n) \<longrightarrow> parent_of F c = Some (Some n))"
proof -
  have "wf_tree F" using tree.run_good [OF assms new_root_wf] .
  note W = wf_linksD [OF this [unfolded wf_tree_def]]
  have "case p of None \<Rightarrow> n = t_root F
      | Some q \<Rightarrow> n \<in> set (children_of F q) \<and> distinct (children_of F q) \<and> q < n"
    if "parent_of F n = Some p" for n p
  proof (cases p)
    case None
    with that W(3) [of n] show ?thesis by simp
  next
    case (Some q)
    with that have n: "n \<in> set (children_of F q)" by (intro W(4)) simp
    with Some W(6) [of q] W(7) [OF n] show ?thesis by simp
  qed
  then show ?thesis using W(1,8) by blast
qed

theorem tree_invariant_witness:
  "tree_step\<^sup>*\<^sup>* (new_root ''r'' 0) ex_tree \<and> parent_of ex_tree (t_root ex_tree) = Some None"
  using tree_invariant [OF ex_tree_run] ex_tree_run by blast

text \<open>C21. Removing a node destroys exactly its subtree: the nodes that are gone are the removed one
  and those below it, the parent loses that one child, and every other node keeps its parent
  and its children.\<close>

theorem remove_exact:
  assumes "tree_step\<^sup>*\<^sup>* (new_root metadata now) F" and "remove n F = Some F'"
  shows "(\<forall>m. t_nodes F' m = None \<longleftrightarrow> t_nodes F m = None \<or> (m, n) \<in> (child_rel F)\<^sup>*) \<and>
         (\<forall>m. t_nodes F' m \<noteq> None \<longrightarrow>
            parent_of F' m = parent_of F m \<and> set (children_of F' m) = set (children_of F m) - {n})"
proof -
  have wf: "wf_tree F" using tree.run_good [OF assms(1) new_root_wf] .
  note W = wf_linksD [OF wf [unfolded wf_tree_def]]
  obtain p where R: "parent_of F n = Some (Some p)"
    "parent_of F' = (\<lambda>m. if m \<in> set (subtree (t_next F) F n) then None else parent_of F m)"
    "children_of F' = (\<lambda>m. if m \<in> set (subtree (t_next F) F n) then []
       else if m = p then remove1 n (children_of F p) else children_of F m)"
    by (rule remove_links [OF assms(2)])
  have gone: "t_nodes F' m = None \<longleftrightarrow> t_nodes F m = None \<or> m \<in> set (subtree (t_next F) F n)" for m
    using parent_of_None [of F' m] parent_of_None [of F m] by (simp add: R(2) del: parent_of_None split: if_splits)
  have kept: "set (children_of F' m) = set (children_of F m) - {n}" if "m \<notin> set (subtree (t_next F) F n)" for m
  proof (cases "m = p")
    case True
    with that W(6) [of p] show ?thesis by (simp add: R(3) set_remove1_eq)
  next
    case False
    then have "n \<notin> set (children_of F m)" using W(8) [of n m] R(1) by auto
    with that False show ?thesis by (simp add: R(3))
  qed
  show ?thesis
  proof (intro conjI allI impI)
    fix m
    show "t_nodes F' m = None \<longleftrightarrow> t_nodes F m = None \<or> (m, n) \<in> (child_rel F)\<^sup>*"
      using gone [of m] subtree_rtrancl [OF wf R(1), of m] by blast
    assume "t_nodes F' m \<noteq> None"
    then have "m \<notin> set (subtree (t_next F) F n)" using gone [of m] by metis
    then show "parent_of F' m = parent_of F m" "set (children_of F' m) = set (children_of F m) - {n}"
      using kept [of m] by (simp_all add: R(2))
  qed
qed

theorem remove_exact_witness:
  "\<exists>F'. remove 1 ex_tree = Some F' \<and> t_nodes F' 1 = None"
proof -
  obtain F' where F': "remove 1 ex_tree = Some F'" using ex_tree_remove by blast
  have "(1, 1) \<in> (child_rel ex_tree)\<^sup>*" by simp
  with remove_exact [OF ex_tree_run F'] F' show ?thesis by blast
qed

text \<open>C33. While the tree grows, the counters shown for the whole tree are the sums of the counters
  of its nodes, modulo the width of \<^verbatim>\<open>size_t\<close>, whatever the order of the operations.\<close>

theorem tree_counters:
  assumes "grow_step\<^sup>*\<^sup>* (new_root metadata now) F"
  shows "t_sum_total F = (\<Sum>n \<in> dom (t_nodes F). n_total (the (t_nodes F n))) \<and>
         t_sum_done F = (\<Sum>n \<in> dom (t_nodes F). n_done (the (t_nodes F n)))"
proof -
  have "t_sum_total (new_root metadata now) = node_sum n_total (new_root metadata now)"
    "t_sum_done (new_root metadata now) = node_sum n_done (new_root metadata now)"
    by (simp_all add: new_root_def new_node_def map_sum_def)
  then have "sums_ok (new_root metadata now)" by (simp only: sums_ok_def new_root_wf simp_thms)
  from growing.run_good [OF assms this] show ?thesis unfolding sums_ok_def map_sum_def by blast
qed

theorem tree_counters_witness:
  "grow_step\<^sup>*\<^sup>* (new_root ''r'' 0) ex_tree \<and>
   t_sum_total ex_tree = (\<Sum>n \<in> dom (t_nodes ex_tree). n_total (the (t_nodes ex_tree n)))"
  using tree_counters [OF ex_tree_grow] ex_tree_grow by blast

text \<open>C22. Drawing is throttled: over any sequence of ticks, from any threads and at any times, two
  frames are at least 80 milliseconds apart, and so is the first one from the last frame
  before; a tick that gets the lock after that time does draw.\<close>

theorem tick_throttle:
  assumes "ticks render es F = Some (F', ts)"
  shows "spaced UPDATE_INTERVAL (t_last_draw F) ts \<and>
         (tick render got now n delta F' = Some (F'', drawn) \<longrightarrow>
            (drawn \<longleftrightarrow> got \<and> t_last_draw F' + UPDATE_INTERVAL \<le> now))"
proof
  show "spaced UPDATE_INTERVAL (t_last_draw F) ts"
    using assms
  proof (induction es arbitrary: F ts)
    case (Cons e es)
    obtain got now n delta where e: "e = (got, now, n, delta)" by (cases e)
    with Cons.prems obtain F1 drawn us where t: "tick render got now n delta F = Some (F1, drawn)"
      and us: "ticks render es F1 = Some (F', us)" and ts: "ts = (if drawn then now # us else us)"
      by (auto split: option.splits)
    from Cons.IH [OF us] tick_draw [OF t] show ?case by (auto simp: ts)
  qed simp
qed (rule impI, rule tick_draw(2))

theorem tick_throttle_witness:
  "\<exists>F' ts. ticks (\<lambda>F e. 5) [(True, 80000000, 0, 3), (True, 80000001, 0, 4), (False, 170000000, 0, 1)]
       (new_root ''r'' 0) = Some (F', ts) \<and> spaced UPDATE_INTERVAL 0 ts"
proof -
  obtain F' ts where run: "ticks (\<lambda>F e. 5) [(True, 80000000, 0, 3), (True, 80000001, 0, 4), (False, 170000000, 0, 1)]
      (new_root ''r'' 0) = Some (F', ts)"
    by (simp add: tick_def upd_node_def new_root_def UPDATE_INTERVAL_def Let_def)
  moreover have "t_last_draw (new_root ''r'' 0) = 0" by (simp add: new_root_def)
  ultimately show ?thesis using tick_throttle [OF run] by auto
qed

end
