(* ===== verification/Cxx_Lib.thy ===== *)
theory Cxx_Lib
  imports Enu_Prelude
begin

text \<open>
  What the sources use of the C++ library on text: decimal numbers as \<^verbatim>\<open>std::format\<close> prints them,
  padding to a width, and the operations of \<^verbatim>\<open>std::filesystem::path\<close> on POSIX path strings.
\<close>

section \<open>Decimal numbers\<close>

fun dec :: "nat \<Rightarrow> string" where
  "dec n = (if n < 10 then [char_of (48 + n)] else dec (n div 10) @ [char_of (48 + n mod 10)])"

declare dec.simps [simp del]

lemma dec_nonempty [simp]: "dec n \<noteq> []"
  by (subst dec.simps) simp

definition undec :: "string \<Rightarrow> nat" where
  "undec ds = foldl (\<lambda>k c. k * 10 + (of_char c - 48)) 0 ds"

lemma undec_snoc: "undec (ds @ [c]) = undec ds * 10 + (of_char c - 48)"
  by (simp add: undec_def)

lemma undec_dec [simp]: "undec (dec n) = n"
proof (induction n rule: dec.induct)
  case (1 n)
  show ?case
  proof (cases "n < 10")
    case True
    then show ?thesis by (simp add: dec.simps [of n] undec_def of_char_of)
  next
    case False
    with 1 show ?thesis by (simp add: dec.simps [of n] undec_snoc of_char_of)
  qed
qed

lemma dec_inject [simp]: "dec m = dec n \<longleftrightarrow> m = n"
  by (metis undec_dec)

text \<open>\<^verbatim>\<open>{:w}\<close> on the left or on the right.\<close>

definition pad_left :: "nat \<Rightarrow> string \<Rightarrow> string" where
  "pad_left w s = replicate (w - length s) CHR '' '' @ s"

definition pad_right :: "nat \<Rightarrow> string \<Rightarrow> string" where
  "pad_right w s = s @ replicate (w - length s) CHR '' ''"

lemma length_pad [simp]:
  "length (pad_left w s) = max w (length s)" "length (pad_right w s) = max w (length s)"
  by (simp_all add: pad_left_def pad_right_def)

section \<open>Paths (std::filesystem, POSIX)\<close>

definition path_filename :: "string \<Rightarrow> string" where
  "path_filename p = rev (takeWhile (\<lambda>c. c \<noteq> CHR ''/'') (rev p))"

text \<open>\<^verbatim>\<open>p / q\<close>: an absolute right operand replaces the left one.\<close>

definition path_append :: "string \<Rightarrow> string \<Rightarrow> string" where
  "path_append p q =
     (if q \<noteq> [] \<and> hd q = CHR ''/'' then q
      else if p = [] \<or> last p = CHR ''/'' then p @ q
      else p @ ''/'' @ q)"

lemma filename_append:
  assumes "CHR ''/'' \<notin> set q"
  shows "path_filename (path_append p q) = q"
proof -
  have q: "takeWhile (\<lambda>c. c \<noteq> CHR ''/'') (rev q @ CHR ''/'' # r) = rev q" for r
    using assms by (subst takeWhile_append2) auto
  have whole: "takeWhile (\<lambda>c. c \<noteq> CHR ''/'') (rev q) = rev q"
    using assms by (subst takeWhile_eq_all_conv) auto
  have "\<not> (q \<noteq> [] \<and> hd q = CHR ''/'')" using assms by (cases q) auto
  then have append: "path_append p q =
      (if p = [] \<or> last p = CHR ''/'' then p @ q else p @ CHR ''/'' # q)"
    unfolding path_append_def by (simp only: if_False append_Cons append_Nil)
  show ?thesis
  proof (cases p rule: rev_cases)
    case Nil
    then show ?thesis unfolding append path_filename_def by (simp only: whole append_Nil rev_rev_ident simp_thms if_True)
  next
    case (snoc p' c)
    show ?thesis
    proof (cases "c = CHR ''/''")
      case True
      with snoc q [of "rev p'"] show ?thesis unfolding append by (simp add: path_filename_def)
    next
      case False
      with snoc q [of "c # rev p'"] show ?thesis unfolding append by (simp add: path_filename_def)
    qed
  qed
qed

end
