(* ===== verification/Scan_Dir.thy ===== *)
theory Scan_Dir
  imports Tracked_Tree Wire_Format Cxx_Lib "HOL-Library.Char_ord" "HOL-Library.List_Lexorder"
begin

text \<open>
  The scan of the local directory (\<^verbatim>\<open>enu/main.cpp\<close>): the metadata of a file (\<open>M\<close>) and \<open>scan_dir\<close>, which
  walks the directories with an explicit stack and builds the progress tree. The file system
  is an environment \<open>fs_env\<close> that answers the queries. The result is compared with the
  directory tree read off by recursion (\<open>dir_tree\<close>).
\<close>

section \<open>Metadata (main.cpp)\<close>

record M =
  m_name :: string
  m_perms :: perms
  m_ftype :: file_type
  m_fsize :: u64

text \<open>
  \<open>fs_list\<close>: the names in a directory as \<^verbatim>\<open>directory_iterator\<close> gives them, none when it cannot be
  opened; \<open>fs_status\<close>: type and permissions behind symbolic links; \<open>fs_size\<close>: the size, all ones
  on an error.
\<close>

record fs_env =
  fs_list :: "string \<Rightarrow> string list"
  fs_status :: "string \<Rightarrow> file_type \<times> perms"
  fs_size :: "string \<Rightarrow> u64"

definition make_M :: "fs_env \<Rightarrow> string \<Rightarrow> M" where
  "make_M E path =
     (case fs_status E path of (ftype, prms) \<Rightarrow>
      \<lparr>m_name = path_filename path, m_perms = prms, m_ftype = ftype,
       m_fsize = (if ftype = ft_regular then fs_size E path else 0)\<rparr>)"

text \<open>The names \<^verbatim>\<open>std::formatter<fs::file_type>\<close> prints.\<close>

definition file_type_name :: "file_type \<Rightarrow> string" where
  "file_type_name t =
     (if t = ft_none then ''none'' else if t = ft_not_found then ''not_found''
      else if t = ft_regular then ''regular'' else if t = ft_directory then ''directory''
      else if t = ft_symlink then ''symlink'' else if t = ft_block then ''block''
      else if t = ft_character then ''character'' else if t = ft_fifo then ''fifo''
      else if t = ft_socket then ''socket'' else if t = ft_unknown then ''unknown''
      else ''invalid'')"

text \<open>The comparison of the sort.\<close>

definition entry_less :: "M \<Rightarrow> M \<Rightarrow> bool" where
  "entry_less a b =
     (if m_ftype a = ft_regular \<and> m_ftype b = ft_regular then m_fsize a < m_fsize b
      else m_name a < m_name b)"

text \<open>\<open>str_to_lower\<close>, in the C locale.\<close>

definition str_to_lower :: "string \<Rightarrow> string" where
  "str_to_lower s =
     map (\<lambda>c. if CHR ''A'' \<le> c \<and> c \<le> CHR ''Z'' then char_of (of_char c + 32 :: nat) else c) s"

section \<open>The scan (main.cpp)\<close>

text \<open>The entries of a directory, in the order the loop over them has; \<open>srt\<close> is \<^verbatim>\<open>std::sort\<close>.\<close>

definition dir_entries :: "fs_env \<Rightarrow> string \<Rightarrow> M list" where
  "dir_entries E path = map (\<lambda>name. make_M E (path_append path name)) (fs_list E path)"

type_synonym scan_state = "(string \<times> nid) list \<times> M tracked \<times> (string \<times> string) list"

text \<open>One entry: the stack (top first), the tree and the warnings. None is a dangling node.\<close>

definition scan_entry :: "string \<Rightarrow> nid \<Rightarrow> M \<Rightarrow> scan_state \<Rightarrow> scan_state option" where
  "scan_entry path node meta s =
     (case s of (stack, F, warned) \<Rightarrow>
      if m_ftype meta = ft_directory then
        (case add_child node meta F of
           None \<Rightarrow> None
         | Some (child, F) \<Rightarrow> Some ((path_append path (m_name meta), child) # stack, F, warned))
      else if m_ftype meta = ft_regular then
        (case add_child node meta F of
           None \<Rightarrow> None
         | Some (child, F) \<Rightarrow>
             (case shift_total child (m_fsize meta) F of
                None \<Rightarrow> None
              | Some F \<Rightarrow> (case unlock child F of None \<Rightarrow> None | Some F \<Rightarrow> Some (stack, F, warned))))
      else Some (stack, F, warned @ [(path_append path (m_name meta), file_type_name (m_ftype meta))]))"

fun scan_entries :: "string \<Rightarrow> nid \<Rightarrow> M list \<Rightarrow> scan_state \<Rightarrow> scan_state option" where
  "scan_entries path node [] s = Some s"
| "scan_entries path node (m # ms) s =
     (case scan_entry path node m s of None \<Rightarrow> None | Some s \<Rightarrow> scan_entries path node ms s)"

definition scan_node ::
  "fs_env \<Rightarrow> ((M \<Rightarrow> M \<Rightarrow> bool) \<Rightarrow> M list \<Rightarrow> M list) \<Rightarrow> string \<Rightarrow> nid \<Rightarrow> scan_state \<Rightarrow> scan_state option" where
  "scan_node E srt path node s =
     (case scan_entries path node (srt entry_less (dir_entries E path)) s of
        None \<Rightarrow> None
      | Some (stack, F, warned) \<Rightarrow> map_option (\<lambda>F. (stack, F, warned)) (unlock node F))"

text \<open>The \<^verbatim>\<open>while\<close> loop: None is a loop that does not end, \<open>Some None\<close> a dangling node.\<close>

partial_function (option) scan_loop ::
  "fs_env \<Rightarrow> ((M \<Rightarrow> M \<Rightarrow> bool) \<Rightarrow> M list \<Rightarrow> M list) \<Rightarrow> scan_state \<Rightarrow> scan_state option option" where
  "scan_loop E srt s =
     (case s of (stack, F, warned) \<Rightarrow>
      (case stack of
         [] \<Rightarrow> Some (Some s)
       | (path, node) # rest \<Rightarrow>
           (case scan_node E srt path node (rest, F, warned) of
              None \<Rightarrow> Some None
            | Some s \<Rightarrow> scan_loop E srt s)))"

definition scan_dir ::
  "fs_env \<Rightarrow> ((M \<Rightarrow> M \<Rightarrow> bool) \<Rightarrow> M list \<Rightarrow> M list) \<Rightarrow> string \<Rightarrow> nid \<Rightarrow> M tracked \<Rightarrow> scan_state option option" where
  "scan_dir E srt root_path root_node F = scan_loop E srt ([(root_path, root_node)], F, [])"

section \<open>Specification: the directory tree\<close>

definition kept :: "M \<Rightarrow> bool" where
  "kept m \<longleftrightarrow> m_ftype m = ft_directory \<or> m_ftype m = ft_regular"

text \<open>What the scan keeps of a directory, in its order.\<close>

definition listing :: "fs_env \<Rightarrow> ((M \<Rightarrow> M \<Rightarrow> bool) \<Rightarrow> M list \<Rightarrow> M list) \<Rightarrow> string \<Rightarrow> M list" where
  "listing E srt p = filter kept (srt entry_less (dir_entries E p))"

datatype ftree = FNode M "ftree list"

text \<open>The trees to depth \<open>k\<close>: of the directory \<open>p\<close>, and of the node \<open>n\<close>.\<close>

fun dir_tree :: "fs_env \<Rightarrow> ((M \<Rightarrow> M \<Rightarrow> bool) \<Rightarrow> M list \<Rightarrow> M list) \<Rightarrow> nat \<Rightarrow> string \<Rightarrow> M \<Rightarrow> ftree" where
  "dir_tree E srt 0 p m = FNode m []"
| "dir_tree E srt (Suc k) p m =
     FNode m (if m_ftype m = ft_directory
              then map (\<lambda>x. dir_tree E srt k (path_append p (m_name x)) x) (listing E srt p)
              else [])"

definition meta_of :: "'m tracked \<Rightarrow> nid \<Rightarrow> 'm" where
  "meta_of F n = n_meta (the (t_nodes F n))"

fun node_tree :: "M tracked \<Rightarrow> nat \<Rightarrow> nid \<Rightarrow> ftree" where
  "node_tree F 0 n = FNode (meta_of F n) []"
| "node_tree F (Suc k) n = FNode (meta_of F n) (map (node_tree F k) (children_of F n))"

section \<open>Attaching a node\<close>

definition attaches :: "'m tracked \<Rightarrow> nid \<Rightarrow> 'm TrackedNode \<Rightarrow> 'm tracked \<Rightarrow> bool" where
  "attaches F n nd F' \<longleftrightarrow>
     (\<exists>r. t_nodes F n = Some r \<and>
        t_nodes F' = (t_nodes F)(n \<mapsto> r\<lparr>n_children := n_children r @ [t_next F]\<rparr>, t_next F \<mapsto> nd)) \<and>
     n_children nd = [] \<and> n_parent nd = Some n \<and>
     t_next F' = Suc (t_next F) \<and> t_root F' = t_root F"

lemma attaches_add:
  assumes "add_child n metadata F = Some (c, F')"
  shows "attaches F n (new_node metadata (Some n)) F'"
  using add_child_nodes [OF assms] by (simp add: attaches_def new_node_def)

lemma add_child_Some: "t_nodes F n \<noteq> None \<Longrightarrow> \<exists>F'. add_child n metadata F = Some (t_next F, F')"
  by (auto simp: add_child_def Let_def upd_node_def)

lemma attaches_file:
  assumes "t_nodes F n \<noteq> None" and "wf_tree F"
  obtains F1 F2 F3 where "add_child n metadata F = Some (t_next F, F1)"
    "shift_total (t_next F) sz F1 = Some F2" "unlock (t_next F) F2 = Some F3"
    "attaches F n ((new_node metadata (Some n))\<lparr>n_total := sz, n_ready := True\<rparr>) F3"
proof -
  obtain F1 where F1: "add_child n metadata F = Some (t_next F, F1)" using add_child_Some [OF assms(1)] by blast
  note A = attaches_add [OF F1, unfolded attaches_def]
  have "t_nodes F1 (t_next F) = Some (new_node metadata (Some n))" using A by auto
  then have F2: "shift_total (t_next F) sz F1 =
      Some (F1\<lparr>t_nodes := (t_nodes F1)(t_next F \<mapsto> (new_node metadata (Some n))\<lparr>n_total := sz\<rparr>),
               t_sum_total := t_sum_total F1 + sz\<rparr>)" (is "_ = Some ?F2")
    by (simp add: shift_total_def upd_node_def new_node_def)
  have F3: "unlock (t_next F) ?F2 = Some (?F2\<lparr>t_nodes := (t_nodes ?F2)(t_next F \<mapsto>
      (new_node metadata (Some n))\<lparr>n_total := sz, n_ready := True\<rparr>)\<rparr>)" (is "_ = Some ?F3")
    by (simp add: unlock_def upd_node_def)
  have "attaches F n ((new_node metadata (Some n))\<lparr>n_total := sz, n_ready := True\<rparr>) ?F3"
    using A by (auto simp: attaches_def new_node_def)
  with F1 F2 F3 show thesis by (rule that)
qed

lemma attaches_links:
  assumes "wf_tree F" and "attaches F n nd F'"
  shows "t_nodes F (t_next F) = None" "n \<noteq> t_next F"
    "parent_of F' = (parent_of F)(t_next F \<mapsto> Some n)"
    "children_of F' = (children_of F)(n := children_of F n @ [t_next F], t_next F := [])" "wf_tree F'"
proof -
  let ?c = "t_next F"
  obtain r where r: "t_nodes F n = Some r"
    "t_nodes F' = (t_nodes F)(n \<mapsto> r\<lparr>n_children := n_children r @ [?c]\<rparr>, ?c \<mapsto> nd)"
    and nd: "n_children nd = []" "n_parent nd = Some n" and nx: "t_next F' = Suc ?c" "t_root F' = t_root F"
    using assms(2) by (auto simp: attaches_def)
  show fresh: "t_nodes F ?c = None" by (rule wf_fresh [OF assms(1)])
  then show ne: "n \<noteq> ?c" using r(1) by auto
  show par: "parent_of F' = (parent_of F)(?c \<mapsto> Some n)"
    using r nd ne by (auto simp: parent_of_def fun_eq_iff)
  show ch: "children_of F' = (children_of F)(n := children_of F n @ [?c], ?c := [])"
    using r nd ne by (auto simp: children_of_def fun_eq_iff)
  have n: "parent_of F n \<noteq> None" using r(1) by simp
  show "wf_tree F'"
    unfolding wf_tree_def par ch nx
    by (rule links_add [where par = "parent_of F", OF assms(1) [unfolded wf_tree_def] n])
qed

lemma attaches_node:
  assumes "wf_tree F" and "attaches F n nd F'"
  shows "m \<noteq> n \<Longrightarrow> m \<noteq> t_next F \<Longrightarrow> t_nodes F' m = t_nodes F m"
    and "t_nodes F' (t_next F) = Some nd"
    and "\<exists>r. t_nodes F n = Some r \<and> t_nodes F' n = Some (r\<lparr>n_children := n_children r @ [t_next F]\<rparr>)"
    and "m \<noteq> t_next F \<Longrightarrow> meta_of F' m = meta_of F m"
  using attaches_links(2) [OF assms] assms(2) by (auto simp: attaches_def meta_of_def)

section \<open>The invariant of the scan\<close>

definition metas :: "'m tracked \<Rightarrow> nid \<Rightarrow> 'm list" where
  "metas F n = map (meta_of F) (children_of F n)"

lemma child_older:
  assumes "wf_tree F" and "c \<in> set (children_of F m)"
  shows "c < t_next F" "m < t_next F"
proof -
  note W = wf_linksD [OF assms(1) [unfolded wf_tree_def]]
  show "c < t_next F" using W(5,8) assms(2) by blast
  with W(7) [OF assms(2)] show "m < t_next F" by simp
qed

lemma ft_neq [simp]: "ft_directory \<noteq> ft_regular" "ft_regular \<noteq> ft_directory"
  by (simp_all add: enu_defs)

lemma attaches_metas:
  assumes "wf_tree F" and "attaches F n nd F'"
  shows "metas F' n = metas F n @ [n_meta nd]" "metas F' (t_next F) = []"
    "m \<noteq> n \<Longrightarrow> m \<noteq> t_next F \<Longrightarrow> metas F' m = metas F m"
proof -
  have old: "c \<noteq> t_next F" if "c \<in> set (children_of F m)" for c m
    using child_older(1) [OF assms(1) that] by simp
  then have *: "map (meta_of F') (children_of F m) = metas F m" for m
    using attaches_node(4) [OF assms] by (auto simp: metas_def)
  have "meta_of F' (t_next F) = n_meta nd" using attaches_node(2) [OF assms] by (simp add: meta_of_def)
  with * show "metas F' n = metas F n @ [n_meta nd]" using attaches_links(2) [OF assms]
    by (simp add: metas_def attaches_links(4) [OF assms])
  show "metas F' (t_next F) = []" by (simp add: metas_def attaches_links(4) [OF assms])
  show "metas F' m = metas F m" if "m \<noteq> n" "m \<noteq> t_next F"
    using that * by (simp add: metas_def attaches_links(4) [OF assms])
qed

text \<open>
  \<open>pth\<close> is the path each node stands for. Nodes on the stack have no children yet, the node in
  work (\<open>cur\<close>) has some of them, every other node is complete.
\<close>

definition node_ok ::
  "fs_env \<Rightarrow> ((M \<Rightarrow> M \<Rightarrow> bool) \<Rightarrow> M list \<Rightarrow> M list) \<Rightarrow> (nid \<Rightarrow> string) \<Rightarrow> M tracked \<Rightarrow> nid \<Rightarrow> bool" where
  "node_ok E srt pth F n \<longleftrightarrow> n_ready (the (t_nodes F n)) \<and>
     metas F n = (if m_ftype (meta_of F n) = ft_directory then listing E srt (pth n) else [])"

definition paths_ok :: "(nid \<Rightarrow> string) \<Rightarrow> M tracked \<Rightarrow> bool" where
  "paths_ok pth F \<longleftrightarrow>
     (\<forall>n c. c \<in> set (children_of F n) \<longrightarrow> pth c = path_append (pth n) (m_name (meta_of F c)))"

definition totals_ok :: "M tracked \<Rightarrow> bool" where
  "totals_ok F \<longleftrightarrow> (\<forall>n r. t_nodes F n = Some r \<longrightarrow> kept (n_meta r) \<and>
     n_total r = (if m_ftype (n_meta r) = ft_regular then m_fsize (n_meta r) else 0))"

definition stack_ok :: "(nid \<Rightarrow> string) \<Rightarrow> (string \<times> nid) list \<Rightarrow> M tracked \<Rightarrow> bool" where
  "stack_ok pth st F \<longleftrightarrow> distinct (map snd st) \<and>
     (\<forall>(p, n) \<in> set st. t_nodes F n \<noteq> None \<and> pth n = p \<and> children_of F n = [] \<and>
        m_ftype (meta_of F n) = ft_directory)"

definition scan_inv where
  "scan_inv E srt cur st F pth \<longleftrightarrow> wf_tree F \<and> paths_ok pth F \<and> totals_ok F \<and> stack_ok pth st F \<and>
     (\<forall>n. t_nodes F n \<noteq> None \<longrightarrow> n \<notin> snd ` set st \<longrightarrow> cur \<noteq> Some n \<longrightarrow> node_ok E srt pth F n)"

lemma attach_inv:
  assumes inv: "scan_inv E srt (Some n) st F pth" and n: "n \<notin> snd ` set st"
    and at: "attaches F n nd F'" and k: "kept (n_meta nd)"
    and tot: "n_total nd = (if m_ftype (n_meta nd) = ft_regular then m_fsize (n_meta nd) else 0)"
    and pth': "pth' = pth(t_next F := path_append (pth n) (m_name (n_meta nd)))"
    and st': "m_ftype (n_meta nd) = ft_directory \<and> st' = (pth' (t_next F), t_next F) # st \<or>
        m_ftype (n_meta nd) = ft_regular \<and> n_ready nd \<and> st' = st"
  shows "scan_inv E srt (Some n) st' F' pth'" "n \<notin> snd ` set st'"
proof -
  let ?c = "t_next F"
  have wf: "wf_tree F" and po: "paths_ok pth F" and to: "totals_ok F" and so: "stack_ok pth st F"
    and ok: "\<And>m. t_nodes F m \<noteq> None \<Longrightarrow> m \<notin> snd ` set st \<Longrightarrow> m \<noteq> n \<Longrightarrow> node_ok E srt pth F m"
    using inv by (auto simp: scan_inv_def)
  note L = attaches_links [OF wf at] and N = attaches_node [OF wf at] and ME = attaches_metas [OF wf at]
  have metac: "meta_of F' ?c = n_meta nd" using N(2) by (simp add: meta_of_def)
  have cst: "?c \<notin> snd ` set st" using so L(1) by (auto simp: stack_ok_def)
  have old: "c \<noteq> ?c" if "c \<in> set (children_of F m)" for c m
    using child_older(1) [OF wf that] by simp
  show "n \<notin> snd ` set st'" using st' n L(2) by auto
  have 1: "paths_ok pth' F'"
    using po old metac N(4) L(2) child_older(2) [OF wf]
    by (fastforce simp: paths_ok_def L(4) pth')
  have 2: "totals_ok F'"
    using to at k tot by (fastforce simp: totals_ok_def attaches_def split: if_splits)
  have 3: "stack_ok pth' st' F'"
  proof -
    have "stack_ok pth' st F'" unfolding stack_ok_def
    proof (intro conjI ballI)
      show "distinct (map snd st)" using so by (simp add: stack_ok_def)
      fix x assume x: "x \<in> set st"
      obtain p m where pm: "x = (p, m)" by (cases x)
      then have m: "m \<noteq> n" "m \<noteq> ?c" using x n cst by force+
      then show "case x of (p, m) \<Rightarrow> t_nodes F' m \<noteq> None \<and> pth' m = p \<and> children_of F' m = [] \<and>
          m_ftype (meta_of F' m) = ft_directory"
        using so x pm N(1) [OF m] N(4) [OF m(2)] by (auto simp: stack_ok_def L(4) pth')
    qed
    moreover have "children_of F' ?c = []" by (simp add: L(4))
    ultimately show ?thesis using st' cst metac N(2) by (auto simp: stack_ok_def)
  qed
  have 4: "node_ok E srt pth' F' m" if "t_nodes F' m \<noteq> None" "m \<notin> snd ` set st'" "m \<noteq> n" for m
  proof (cases "m = ?c")
    case True
    then have "m_ftype (n_meta nd) = ft_regular" "n_ready nd" using st' that(2) by auto
    then show ?thesis using True metac N(2) ME(2) by (simp add: node_ok_def)
  next
    case False
    then have "node_ok E srt pth F m" using ok [of m] that st' N(1) by auto
    then show ?thesis
      using False that(3) N(1) [of m] N(4) [of m] ME(3) [of m] by (simp add: node_ok_def pth')
  qed
  show "scan_inv E srt (Some n) st' F' pth'"
    using L(5) 1 2 3 4 by (simp add: scan_inv_def)
qed

text \<open>What does not change: the root, its path and metadata; the sums stay right.\<close>

definition base_ok :: "nid \<Rightarrow> string \<Rightarrow> M \<Rightarrow> M tracked \<Rightarrow> (nid \<Rightarrow> string) \<Rightarrow> bool" where
  "base_ok rt rp rm F pth \<longleftrightarrow> t_root F = rt \<and> pth rt = rp \<and> meta_of F rt = rm \<and> sums_ok F"

definition in_dir where
  "in_dir E srt p n ms st F pth \<longleftrightarrow> scan_inv E srt (Some n) st F pth \<and> n \<notin> snd ` set st \<and>
     t_nodes F n \<noteq> None \<and> pth n = p \<and> m_ftype (meta_of F n) = ft_directory \<and>
     metas F n = filter kept ms"

definition subdirs :: "string \<Rightarrow> M list \<Rightarrow> string list" where
  "subdirs p ms = map (\<lambda>m. path_append p (m_name m)) (filter (\<lambda>m. m_ftype m = ft_directory) ms)"

lemma attach_dir:
  assumes d: "in_dir E srt p n ms st F pth" and b: "base_ok rt rp rm F pth"
    and at: "attaches F n nd F'" and g: "grow_step\<^sup>*\<^sup>* F F'"
    and k: "kept (n_meta nd)"
    and tot: "n_total nd = (if m_ftype (n_meta nd) = ft_regular then m_fsize (n_meta nd) else 0)"
    and st': "m_ftype (n_meta nd) = ft_directory \<and>
          st' = (path_append p (m_name (n_meta nd)), t_next F) # st \<or>
        m_ftype (n_meta nd) = ft_regular \<and> n_ready nd \<and> st' = st"
  shows "\<exists>pth'. in_dir E srt p n (ms @ [n_meta nd]) st' F' pth' \<and> base_ok rt rp rm F' pth'"
proof -
  let ?p = "pth(t_next F := path_append (pth n) (m_name (n_meta nd)))"
  have inv: "scan_inv E srt (Some n) st F pth" and n: "n \<notin> snd ` set st" and p: "pth n = p"
    using d by (auto simp: in_dir_def)
  then have wf: "wf_tree F" by (simp add: scan_inv_def)
  note L = attaches_links [OF wf at] and N = attaches_node [OF wf at] and ME = attaches_metas [OF wf at]
  have rt: "rt \<noteq> t_next F"
    using b L(1) wf_linksD(1) [OF wf [unfolded wf_tree_def]] by (metis base_ok_def option.distinct(1) parent_of_None)
  have st2: "m_ftype (n_meta nd) = ft_directory \<and> st' = (?p (t_next F), t_next F) # st \<or>
        m_ftype (n_meta nd) = ft_regular \<and> n_ready nd \<and> st' = st" using st' p by simp
  note A = attach_inv [OF inv n at k tot refl st2]
  have "in_dir E srt p n (ms @ [n_meta nd]) st' F' ?p"
    using A d N(3) N(4) [OF L(2)] ME(1) k L(2) by (auto simp: in_dir_def simp del: fun_upd_apply)
      (simp_all add: fun_upd_apply)
  moreover have "t_root F' = t_root F" using at by (simp add: attaches_def)
  then have "base_ok rt rp rm F' ?p"
    using b rt N(4) [OF rt] growing.run_good [OF g] by (simp add: base_ok_def)
  ultimately show ?thesis by blast
qed

lemma scan_entry_ok:
  assumes d: "in_dir E srt p n ms st F pth" and b: "base_ok rt rp rm F pth"
  shows "\<exists>st' F' w' pth'. scan_entry p n m (st, F, w) = Some (st', F', w') \<and>
    in_dir E srt p n (ms @ [m]) st' F' pth' \<and> base_ok rt rp rm F' pth' \<and>
    map fst st' = subdirs p [m] @ map fst st"
proof -
  have n: "t_nodes F n \<noteq> None" and wf: "wf_tree F" using d by (auto simp: in_dir_def scan_inv_def)
  consider (dr) "m_ftype m = ft_directory" | (reg) "m_ftype m = ft_regular" | (no) "\<not> kept m"
    by (auto simp: kept_def)
  then show ?thesis
  proof cases
    case dr
    obtain F' where F': "add_child n m F = Some (t_next F, F')" using add_child_Some [OF n] by blast
    have g: "grow_step\<^sup>*\<^sup>* F F'" using step_add [OF F'] by blast
    have "\<exists>pth'. in_dir E srt p n (ms @ [n_meta (new_node m (Some n))])
        ((path_append p (m_name m), t_next F) # st) F' pth' \<and> base_ok rt rp rm F' pth'"
      by (rule attach_dir [OF d b attaches_add [OF F'] g])
        (use dr in \<open>simp_all add: new_node_def kept_def\<close>)
    then show ?thesis using dr F' by (simp add: scan_entry_def subdirs_def new_node_def)
  next
    case reg
    obtain F1 F2 F3 where F: "add_child n m F = Some (t_next F, F1)"
      "shift_total (t_next F) (m_fsize m) F1 = Some F2" "unlock (t_next F) F2 = Some F3"
      and at: "attaches F n ((new_node m (Some n))\<lparr>n_total := m_fsize m, n_ready := True\<rparr>) F3"
      using attaches_file [OF n wf] by metis
    have g: "grow_step\<^sup>*\<^sup>* F F3"
      using step_add [OF F(1)] step_shift [OF F(2)] step_unlock [OF F(3)]
      by (meson r_into_rtranclp rtranclp_trans)
    have "\<exists>pth'. in_dir E srt p n
        (ms @ [n_meta ((new_node m (Some n))\<lparr>n_total := m_fsize m, n_ready := True\<rparr>)]) st F3 pth' \<and>
        base_ok rt rp rm F3 pth'"
      by (rule attach_dir [OF d b at g]) (use reg in \<open>simp_all add: new_node_def kept_def\<close>)
    then show ?thesis using reg F by (simp add: scan_entry_def subdirs_def new_node_def)
  next
    case no
    then show ?thesis using d b by (auto simp: scan_entry_def subdirs_def kept_def in_dir_def)
  qed
qed

lemma scan_entries_ok:
  assumes "in_dir E srt p n ms st F pth" and "base_ok rt rp rm F pth"
  shows "\<exists>st' F' w' pth'. scan_entries p n xs (st, F, w) = Some (st', F', w') \<and>
    in_dir E srt p n (ms @ xs) st' F' pth' \<and> base_ok rt rp rm F' pth' \<and>
    mset (map fst st') = mset (subdirs p xs) + mset (map fst st)"
  using assms
proof (induction xs arbitrary: ms st F w pth)
  case Nil
  then show ?case by (auto simp: subdirs_def)
next
  case (Cons x xs)
  obtain st1 F1 w1 pth1 where 1: "scan_entry p n x (st, F, w) = Some (st1, F1, w1)"
    "in_dir E srt p n (ms @ [x]) st1 F1 pth1" "base_ok rt rp rm F1 pth1"
    "map fst st1 = subdirs p [x] @ map fst st"
    using scan_entry_ok [OF Cons.prems] by blast
  obtain st2 F2 w2 pth2 where 2: "scan_entries p n xs (st1, F1, w1) = Some (st2, F2, w2)"
    "in_dir E srt p n ((ms @ [x]) @ xs) st2 F2 pth2" "base_ok rt rp rm F2 pth2"
    "mset (map fst st2) = mset (subdirs p xs) + mset (map fst st1)"
    using Cons.IH [OF 1(2,3)] by blast
  have "mset (map fst st2) = mset (subdirs p (x # xs)) + mset (map fst st)"
    unfolding 2(4) 1(4) by (simp add: subdirs_def)
  with 1(1) 2 show ?case by (metis (no_types, lifting) append.assoc append_Cons append_Nil option.case(2) scan_entries.simps(2))
qed

lemma unlock_done:
  assumes d: "in_dir E srt p n ms st F pth" and b: "base_ok rt rp rm F pth"
    and ms: "filter kept ms = listing E srt p"
  shows "\<exists>F'. unlock n F = Some F' \<and> scan_inv E srt None st F' pth \<and> base_ok rt rp rm F' pth"
proof -
  obtain r where r: "t_nodes F n = Some r" using d by (auto simp: in_dir_def)
  let ?F = "F\<lparr>t_nodes := (t_nodes F)(n \<mapsto> r\<lparr>n_ready := True\<rparr>)\<rparr>"
  have u: "unlock n F = Some ?F" using r by (simp add: unlock_def upd_node_def)
  have ch: "children_of ?F = children_of F" and me: "meta_of ?F = meta_of F"
    using r by (auto simp: children_of_def meta_of_def fun_eq_iff)
  then have ms': "metas ?F = metas F" by (simp add: metas_def fun_eq_iff)
  have g: "grow_step\<^sup>*\<^sup>* F ?F" using step_unlock [OF u] by blast
  have so: "sums_ok ?F" using growing.run_good [OF g] b by (simp add: base_ok_def)
  have inv: "scan_inv E srt (Some n) st F pth" and P: "pth n = p" "metas F n = filter kept ms"
    "m_ftype (meta_of F n) = ft_directory" using d by (auto simp: in_dir_def)
  have "node_ok E srt pth ?F m" if "t_nodes ?F m \<noteq> None" "m \<notin> snd ` set st" for m
  proof (cases "m = n")
    case True
    then show ?thesis using P ms by (simp add: node_ok_def me ms')
  next
    case False
    then have "node_ok E srt pth F m" using inv that by (simp add: scan_inv_def)
    then show ?thesis using False by (simp add: node_ok_def me ms')
  qed
  moreover have "wf_tree ?F" using so by (simp add: sums_ok_def)
  moreover have "paths_ok pth ?F" using inv by (simp add: scan_inv_def paths_ok_def ch me)
  moreover have "totals_ok ?F" using inv r by (auto simp: scan_inv_def totals_ok_def)
  moreover have "stack_ok pth st ?F" using inv by (auto simp: scan_inv_def stack_ok_def ch me)
  ultimately have "scan_inv E srt None st ?F pth" by (simp add: scan_inv_def)
  then show ?thesis using u so b by (simp add: base_ok_def me)
qed

lemma scan_node_ok:
  assumes inv: "scan_inv E srt None ((p, n) # st) F pth" and b: "base_ok rt rp rm F pth"
  shows "\<exists>st' F' w' pth'. scan_node E srt p n (st, F, w) = Some (st', F', w') \<and>
    scan_inv E srt None st' F' pth' \<and> base_ok rt rp rm F' pth' \<and>
    mset (map fst st') = mset (subdirs p (srt entry_less (dir_entries E p))) + mset (map fst st)"
proof -
  let ?xs = "srt entry_less (dir_entries E p)"
  have d: "in_dir E srt p n [] st F pth"
    using inv by (auto simp: in_dir_def scan_inv_def stack_ok_def metas_def)
  obtain st1 F1 w1 pth1 where 1: "scan_entries p n ?xs (st, F, w) = Some (st1, F1, w1)"
    "in_dir E srt p n ([] @ ?xs) st1 F1 pth1" "base_ok rt rp rm F1 pth1"
    "mset (map fst st1) = mset (subdirs p ?xs) + mset (map fst st)"
    using scan_entries_ok [OF d b] by blast
  obtain F2 where 2: "unlock n F1 = Some F2" "scan_inv E srt None st1 F2 pth1" "base_ok rt rp rm F2 pth1"
    using unlock_done [OF 1(2,3)] by (auto simp: listing_def)
  have "scan_node E srt p n (st, F, w) = Some (st1, F2, w1)"
    using 1(1) 2(1) by (simp add: scan_node_def)
  with 1(4) 2(2,3) show ?thesis by blast
qed

section \<open>What the scan relies on\<close>

text \<open>
  \<open>fs_ok\<close>: names are not empty and have no slash, and directories nest finitely (the rank
  falls), so no symbolic link leads back up. \<open>sort_ok\<close>: \<^verbatim>\<open>std::sort\<close> permutes the entries of
  the directories; the standard promises this where the comparison is a strict weak order.
\<close>

definition fs_ok :: "fs_env \<Rightarrow> (string \<Rightarrow> nat) \<Rightarrow> bool" where
  "fs_ok E rk \<longleftrightarrow> (\<forall>p name. name \<in> set (fs_list E p) \<longrightarrow> name \<noteq> [] \<and> CHR ''/'' \<notin> set name \<and>
     (fst (fs_status E (path_append p name)) = ft_directory \<longrightarrow> rk (path_append p name) < rk p))"

definition sort_ok :: "fs_env \<Rightarrow> ((M \<Rightarrow> M \<Rightarrow> bool) \<Rightarrow> M list \<Rightarrow> M list) \<Rightarrow> bool" where
  "sort_ok E srt \<longleftrightarrow> (\<forall>p. mset (srt entry_less (dir_entries E p)) = mset (dir_entries E p))"

lemma subdirs_rank:
  assumes "fs_ok E rk" and "sort_ok E srt" and "q \<in> set (subdirs p (srt entry_less (dir_entries E p)))"
  shows "rk q < rk p"
proof -
  obtain x where x: "x \<in> set (srt entry_less (dir_entries E p))" "m_ftype x = ft_directory"
    "q = path_append p (m_name x)" using assms(3) by (auto simp: subdirs_def)
  have "x \<in> set (dir_entries E p)" using x(1) assms(2) unfolding sort_ok_def by (metis set_mset_mset)
  then obtain nm where nm: "nm \<in> set (fs_list E p)" "x = make_M E (path_append p nm)"
    by (auto simp: dir_entries_def)
  have "nm \<noteq> []" "CHR ''/'' \<notin> set nm" using assms(1) nm(1) by (auto simp: fs_ok_def)
  then have "m_name x = nm"
    by (simp add: nm(2) make_M_def filename_append split: prod.splits)
  moreover have "fst (fs_status E (path_append p nm)) = ft_directory"
    using x(2) by (simp add: nm(2) make_M_def split: prod.splits)
  ultimately show ?thesis using assms(1) nm(1) x(3) by (simp add: fs_ok_def)
qed

lemma scan_loop_ok:
  assumes fs: "fs_ok E rk" "sort_ok E srt"
  shows "scan_inv E srt None st F pth \<Longrightarrow> base_ok rt rp rm F pth \<Longrightarrow>
    \<exists>F' w' pth'. scan_loop E srt (st, F, w) = Some (Some ([], F', w')) \<and>
      scan_inv E srt None [] F' pth' \<and> base_ok rt rp rm F' pth'"
proof (induction "mset (map (rk \<circ> fst) st)" arbitrary: st F w pth rule: wf_induct_rule [OF wf_mult [OF wf_less_than]])
  case 1
  show ?case
  proof (cases st)
    case Nil
    then have "scan_loop E srt (st, F, w) = Some (Some ([], F, w))"
      by (subst scan_loop.simps) simp
    with Nil 1(2,3) show ?thesis by blast
  next
    case (Cons x rest)
    obtain p n where x: "x = (p, n)" by (cases x)
    obtain st1 F1 w1 pth1 where N: "scan_node E srt p n (rest, F, w) = Some (st1, F1, w1)"
      "scan_inv E srt None st1 F1 pth1" "base_ok rt rp rm F1 pth1"
      "mset (map fst st1) = mset (subdirs p (srt entry_less (dir_entries E p))) + mset (map fst rest)"
      using scan_node_ok 1(2,3) unfolding Cons x by blast
    have im: "mset (map (rk \<circ> fst) zs) = image_mset rk (mset (map fst zs))"
      for zs :: "(string \<times> nid) list" by (simp add: multiset.map_comp)
    have m1: "mset (map (rk \<circ> fst) st1) = mset (map (rk \<circ> fst) rest) +
        image_mset rk (mset (subdirs p (srt entry_less (dir_entries E p))))"
      unfolding im N(4) by simp
    have m0: "mset (map (rk \<circ> fst) st) = mset (map (rk \<circ> fst) rest) + {#rk p#}" by (simp add: Cons x)
    have "(mset (map (rk \<circ> fst) st1), mset (map (rk \<circ> fst) st)) \<in> mult less_than"
      unfolding m0 m1 by (rule one_step_implies_mult) (auto dest: subdirs_rank [OF fs])
    from 1(1) [OF this N(2,3)] show ?thesis
      using N(1) by (subst scan_loop.simps) (simp add: Cons x)
  qed
qed

text \<open>Complete nodes make the tree of the directory.\<close>

lemma node_tree_dir:
  assumes inv: "scan_inv E srt None [] F pth" and "t_nodes F n \<noteq> None"
  shows "node_tree F k n = dir_tree E srt k (pth n) (meta_of F n)"
  using assms(2)
proof (induction k arbitrary: n)
  case (Suc k)
  have ok: "node_ok E srt pth F n" and wf: "wf_tree F" and po: "paths_ok pth F"
    using inv Suc.prems by (simp_all add: scan_inv_def)
  have c: "node_tree F k c = dir_tree E srt k (path_append (pth n) (m_name (meta_of F c))) (meta_of F c)"
    if "c \<in> set (children_of F n)" for c
  proof -
    have "t_nodes F c \<noteq> None"
      using wf_linksD(8) [OF wf [unfolded wf_tree_def] that] by (metis option.distinct(1) parent_of_None)
    with Suc.IH po that show ?thesis by (simp add: paths_ok_def)
  qed
  have "map (node_tree F k) (children_of F n) =
      map (\<lambda>m. dir_tree E srt k (path_append (pth n) (m_name m)) m) (metas F n)"
    using c by (simp add: metas_def)
  then show ?case using ok by (simp add: node_ok_def)
qed simp

lemma start_inv:
  assumes "m_ftype m = ft_directory"
  shows "scan_inv E srt None [(p, 0)] (new_root m now) (\<lambda>_. p)" "base_ok 0 p m (new_root m now) (\<lambda>_. p)"
proof -
  have nodes: "t_nodes (new_root m now) n = (if n = 0 then Some (new_node m None) else None)" for n
    by (simp add: new_root_def)
  have ch: "children_of (new_root m now) n = []" for n by (simp add: children_of_def nodes new_node_def)
  show "scan_inv E srt None [(p, 0)] (new_root m now) (\<lambda>_. p)"
    using assms by (auto simp: scan_inv_def new_root_wf paths_ok_def ch totals_ok_def nodes new_node_def
        kept_def stack_ok_def meta_of_def)
  show "base_ok 0 p m (new_root m now) (\<lambda>_. p)"
    by (auto simp: base_ok_def meta_of_def nodes new_root_wf sums_ok_def map_sum_def new_node_def)
      (simp_all add: new_root_def new_node_def)
qed

section \<open>An example\<close>

text \<open>The directory \<open>d\<close> holds a file of 7 bytes, a directory with an empty file, and a socket.\<close>

definition ex_fs :: fs_env where
  "ex_fs = \<lparr>fs_list = (\<lambda>p. if p = ''d'' then [''s'', ''q'', ''f''] else if p = ''d/s'' then [''e''] else []),
            fs_status = (\<lambda>p. (if p = ''d'' \<or> p = ''d/s'' then ft_directory
                              else if p = ''d/q'' then ft_socket else ft_regular, 420)),
            fs_size = (\<lambda>p. if p = ''d/f'' then 7 else 0)\<rparr>"

definition ex_rank :: "string \<Rightarrow> nat" where
  "ex_rank p = (if p = ''d'' then 2 else if p = ''d/s'' then 1 else 0)"

fun ex_insert :: "(M \<Rightarrow> M \<Rightarrow> bool) \<Rightarrow> M \<Rightarrow> M list \<Rightarrow> M list" where
  "ex_insert lt x [] = [x]"
| "ex_insert lt x (y # ys) = (if lt x y then x # y # ys else y # ex_insert lt x ys)"

definition ex_sort :: "(M \<Rightarrow> M \<Rightarrow> bool) \<Rightarrow> M list \<Rightarrow> M list" where
  "ex_sort lt xs = foldr (ex_insert lt) xs []"

lemma ex_fs_ok: "fs_ok ex_fs ex_rank"
  by (auto simp: fs_ok_def ex_fs_def ex_rank_def path_append_def enu_defs split: if_splits)

lemma ex_sort_ok: "sort_ok E ex_sort"
proof -
  have ins: "mset (ex_insert lt x ys) = add_mset x (mset ys)" for lt x ys by (induction ys) auto
  have "mset (foldr (ex_insert lt) xs []) = mset xs" for lt xs by (induction xs) (auto simp: ins)
  then show ?thesis by (simp add: sort_ok_def ex_sort_def)
qed

section \<open>Properties\<close>



text \<open>C38. The comparison of the sort is a strict weak order on the entries of a directory that has
  only regular files, and on those of one that has none; where both kinds are mixed it is not: a
  file of 10 bytes, a directory and a file of 5 bytes with rising names are each before the next,
  and the last is before the first.\<close>

theorem entry_less_order:
  "(\<forall>xs. (\<forall>x \<in> set xs. m_ftype x = ft_regular) \<or> (\<forall>x \<in> set xs. m_ftype x \<noteq> ft_regular) \<longrightarrow>
     (\<forall>a \<in> set xs. \<forall>b \<in> set xs. \<forall>c \<in> set xs. \<not> entry_less a a \<and>
        (entry_less a b \<longrightarrow> entry_less b c \<longrightarrow> entry_less a c) \<and>
        (entry_less a c \<longrightarrow> entry_less a b \<or> entry_less b c))) \<and>
   (let a = \<lparr>m_name = ''a'', m_perms = 0, m_ftype = ft_regular, m_fsize = 10\<rparr>;
        b = \<lparr>m_name = ''b'', m_perms = 0, m_ftype = ft_directory, m_fsize = 0\<rparr>;
        c = \<lparr>m_name = ''c'', m_perms = 0, m_ftype = ft_regular, m_fsize = 5\<rparr>
    in entry_less a b \<and> entry_less b c \<and> entry_less c a)"
proof
  have reg: "(\<not> entry_less a a) \<and> (entry_less a b \<longrightarrow> entry_less b c \<longrightarrow> entry_less a c) \<and>
      (entry_less a c \<longrightarrow> entry_less a b \<or> entry_less b c)"
    if "m_ftype a = ft_regular" "m_ftype b = ft_regular" "m_ftype c = ft_regular" for a b c
    using that unfolding entry_less_def by auto
  have other: "(\<not> entry_less a a) \<and> (entry_less a b \<longrightarrow> entry_less b c \<longrightarrow> entry_less a c) \<and>
      (entry_less a c \<longrightarrow> entry_less a b \<or> entry_less b c)"
    if "m_ftype a \<noteq> ft_regular" "m_ftype b \<noteq> ft_regular" "m_ftype c \<noteq> ft_regular" for a b c
    using that unfolding entry_less_def by auto
  show "\<forall>xs. (\<forall>x \<in> set xs. m_ftype x = ft_regular) \<or> (\<forall>x \<in> set xs. m_ftype x \<noteq> ft_regular) \<longrightarrow>
     (\<forall>a \<in> set xs. \<forall>b \<in> set xs. \<forall>c \<in> set xs. \<not> entry_less a a \<and>
        (entry_less a b \<longrightarrow> entry_less b c \<longrightarrow> entry_less a c) \<and>
        (entry_less a c \<longrightarrow> entry_less a b \<or> entry_less b c))"
  proof (intro allI impI ballI)
    fix xs :: "M list" and a b c :: M
    assume xs: "(\<forall>x \<in> set xs. m_ftype x = ft_regular) \<or> (\<forall>x \<in> set xs. m_ftype x \<noteq> ft_regular)"
      and abc: "a \<in> set xs" "b \<in> set xs" "c \<in> set xs"
    from xs show "\<not> entry_less a a \<and> (entry_less a b \<longrightarrow> entry_less b c \<longrightarrow> entry_less a c) \<and>
        (entry_less a c \<longrightarrow> entry_less a b \<or> entry_less b c)"
    proof
      assume "\<forall>x \<in> set xs. m_ftype x = ft_regular"
      then show ?thesis using abc by (intro reg) blast+
    next
      assume "\<forall>x \<in> set xs. m_ftype x \<noteq> ft_regular"
      then show ?thesis using abc by (intro other) blast+
    qed
  qed
qed (simp add: entry_less_def Let_def enu_defs less_char_def)

theorem entry_less_order_witness:
  "\<not> entry_less \<lparr>m_name = ''x'', m_perms = 0, m_ftype = ft_regular, m_fsize = 3\<rparr>
      \<lparr>m_name = ''x'', m_perms = 0, m_ftype = ft_regular, m_fsize = 3\<rparr>"
  using entry_less_order [THEN conjunct1, THEN spec,
      of "[\<lparr>m_name = ''x'', m_perms = 0, m_ftype = ft_regular, m_fsize = 3\<rparr>]"] by simp

end
