(* ===== verification/Sync_Engine.thy ===== *)
theory Sync_Engine
  imports Scan_Dir "HOL-Library.Multiset"
begin

text \<open>
  The engine of \<open>sync_with_remote\<close> (\<^verbatim>\<open>enu/main.cpp\<close>): the tasks of \<open>recurse\<close> run in parallel on
  one tree and one table of pending children. A state holds the tasks that are in work; a step
  runs one of them up to its next access to shared data, so the runs are the interleavings of
  the threads. Each step is a function (\<open>recurse_step\<close>, \<open>bubble_step\<close>) that gives the tasks that
  follow, waits for a lock, or crashes: on a freed node, on an empty accessor, or in \<open>fatal\<close>.
\<close>

section \<open>Tasks and state\<close>

text \<open>The points of \<open>recurse\<close> between which other threads can be seen.\<close>

datatype phase =
    P_start
  | P_sock
  | P_load
  | P_inc u32
  | P_store u32 u32
  | P_head u32
  | P_send u32 nat
  | P_switch
  | P_remove
  | P_emplace nat
  | P_wait
  | P_iter "nid list"

text \<open>
  A call of \<open>recurse\<close> with its path and node, a call of \<open>report_async_error\<close>, and \<open>bubble\<close> at a node,
  before and after the count has come to zero (the accessor is held).
\<close>

datatype task = Rec string nid phase | Report | Bubble nid | Zero nid

record sync =
  y_tree :: "M tracked"
  y_pending :: "nid \<rightharpoonup> nat"
  y_ok :: bool
  y_reports :: nat
  y_port :: u16
  y_seq :: u32
  y_sent :: "(nid \<times> u32 \<times> string) list"
  y_tasks :: "task multiset"

text \<open>What is seen in a step from outside: the socket of the thread that runs it, the bytes a write
  took (none on a failure), the result of \<^verbatim>\<open>try_lock\<close> and the time in \<open>tick\<close>.\<close>

record answer =
  a_sock :: int
  a_wrote :: nat
  a_got :: bool
  a_now :: int

datatype 'a outcome = Blocked | Crash | Ran 'a

definition CHUNK_SIZE :: nat where "CHUNK_SIZE = 16 * 1024"

definition next_seq :: "u32 \<Rightarrow> u32" where
  "next_seq g = (g + 1) mod (- 1)"

text \<open>A node's mutex is held while \<open>iter_children\<close> runs over its children.\<close>

definition locked :: "nid \<Rightarrow> sync \<Rightarrow> bool" where
  "locked n s \<longleftrightarrow> (\<exists>t \<in># y_tasks s. case t of Rec p m (P_iter rest) \<Rightarrow> m = n | _ \<Rightarrow> False)"

text \<open>The port at which the connections start, from the answer of \<^verbatim>\<open>rand\<close>.\<close>

definition random_port :: "nat \<Rightarrow> u16" where
  "random_port r = of_nat (49152 + r mod (65535 - 49152 + 1))"

section \<open>The steps (main.cpp)\<close>

text \<open>
  A thread without a socket takes the next port. The bytes of a message are the subject of
  \<open>send_datamsg\<close>; here a send is its header, the chunks with a tick for each, and the end.
\<close>

fun recurse_step ::
  "(M tracked \<Rightarrow> int \<Rightarrow> nat) \<Rightarrow> answer \<Rightarrow> string \<Rightarrow> nid \<Rightarrow> phase \<Rightarrow> sync \<Rightarrow> (task list \<times> sync) outcome" where
  "recurse_step render a path n P_start s =
     (if y_ok s then Ran ([Rec path n P_sock], s) else Ran ([], s))"
| "recurse_step render a path n P_sock s =
     Ran ([Rec path n P_load], if a_sock a = -1 then s\<lparr>y_port := y_port s + 1\<rparr> else s)"
| "recurse_step render a path n P_load s = Ran ([Rec path n (P_inc (y_seq s))], s)"
| "recurse_step render a path n (P_inc q) s = Ran ([Rec path n (P_store q (y_seq s))], s)"
| "recurse_step render a path n (P_store q g) s =
     Ran ([Rec path n (P_head q)], s\<lparr>y_seq := next_seq g\<rparr>)"
| "recurse_step render a path n (P_head q) s =
     (case t_nodes (y_tree s) n of
        None \<Rightarrow> Crash
      | Some r \<Rightarrow>
          if a_wrote a = 0 then Ran ([Report], s)
          else Ran ([Rec path n (P_send q
                       (if m_ftype (n_meta r) = ft_regular then unat (m_fsize (n_meta r)) else 0))], s))"
| "recurse_step render a path n (P_send q k) s =
     (if k = 0 then Ran ([Rec path n P_switch], s\<lparr>y_sent := y_sent s @ [(n, q, path)]\<rparr>)
      else
        (let wrote = min (a_wrote a) (min CHUNK_SIZE k) in
         if wrote = 0 \<or> \<not> y_ok s then Ran ([Report], s)
         else
           (case tick render (a_got a) (a_now a) n (of_nat wrote) (y_tree s) of
              None \<Rightarrow> Crash
            | Some (F, drawn) \<Rightarrow> Ran ([Rec path n (P_send q (k - wrote))], s\<lparr>y_tree := F\<rparr>))))"
| "recurse_step render a path n P_switch s =
     (case t_nodes (y_tree s) n of
        None \<Rightarrow> Crash
      | Some r \<Rightarrow>
          if m_ftype (n_meta r) = ft_regular then Ran ([Rec path n P_remove], s)
          else if m_ftype (n_meta r) = ft_directory then
            (let cnt = length (n_children r) in
             if cnt = 0 \<and> n_parent r \<noteq> None then Ran ([Rec path n P_remove], s)
             else Ran ([Rec path n (P_emplace cnt)], s))
          else Crash)"
| "recurse_step render a path n P_remove s =
     (case t_nodes (y_tree s) n of
        None \<Rightarrow> Crash
      | Some r \<Rightarrow>
          (case n_parent r of
             None \<Rightarrow> Crash
           | Some p \<Rightarrow>
               if locked p s then Blocked
               else
                 (case remove n (y_tree s) of
                    None \<Rightarrow> Crash
                  | Some F \<Rightarrow> Ran ([Bubble p], s\<lparr>y_tree := F\<rparr>))))"
| "recurse_step render a path n (P_emplace cnt) s =
     Ran ([Rec path n P_wait],
          if y_pending s n = None then s\<lparr>y_pending := (y_pending s)(n \<mapsto> cnt)\<rparr> else s)"
| "recurse_step render a path n P_wait s =
     (if locked n s then Blocked
      else
        (case iter_children n (y_tree s) of
           None \<Rightarrow> Crash
         | Some (Inl _) \<Rightarrow> Blocked
         | Some (Inr cs) \<Rightarrow> Ran ([Rec path n (P_iter cs)], s)))"
| "recurse_step render a path n (P_iter []) s = Ran ([], s)"
| "recurse_step render a path n (P_iter (c # rest)) s =
     (case t_nodes (y_tree s) c of
        None \<Rightarrow> Crash
      | Some r \<Rightarrow>
          Ran ([Rec path n (P_iter rest), Rec (path_append path (m_name (n_meta r))) c P_start], s))"

text \<open>\<open>bubble\<close>: the first step takes one from the count, with the wrap of \<^verbatim>\<open>size_t\<close>.\<close>

definition bubble_step :: "nid \<Rightarrow> sync \<Rightarrow> (task list \<times> sync) outcome" where
  "bubble_step d s =
     (if Zero d \<in># y_tasks s then Blocked
      else
        (case y_pending s d of
           None \<Rightarrow> Crash
         | Some k \<Rightarrow>
             (let k = (if k = 0 then 2 ^ 64 - 1 else k - 1);
                  s = s\<lparr>y_pending := (y_pending s)(d \<mapsto> k)\<rparr>
              in Ran (if k = 0 then [Zero d] else [], s))))"

definition zero_step :: "nid \<Rightarrow> sync \<Rightarrow> (task list \<times> sync) outcome" where
  "zero_step d s =
     (case t_nodes (y_tree s) d of
        None \<Rightarrow> Crash
      | Some r \<Rightarrow>
          (case n_parent r of
             None \<Rightarrow> Ran ([], s\<lparr>y_pending := (y_pending s)(d := None)\<rparr>)
           | Some p \<Rightarrow>
               if locked p s then Blocked
               else
                 (case remove d (y_tree s) of
                    None \<Rightarrow> Crash
                  | Some F \<Rightarrow>
                      Ran ([Bubble p], s\<lparr>y_tree := F, y_pending := (y_pending s)(d := None)\<rparr>))))"

text \<open>\<open>report_async_error\<close>: only the first caller reports.\<close>

definition report_step :: "sync \<Rightarrow> (task list \<times> sync) outcome" where
  "report_step s =
     Ran ([], if y_ok s then s\<lparr>y_ok := False, y_reports := Suc (y_reports s)\<rparr> else s)"

fun run_task ::
  "(M tracked \<Rightarrow> int \<Rightarrow> nat) \<Rightarrow> answer \<Rightarrow> task \<Rightarrow> sync \<Rightarrow> (task list \<times> sync) outcome" where
  "run_task render a (Rec path n ph) s = recurse_step render a path n ph s"
| "run_task render a Report s = report_step s"
| "run_task render a (Bubble d) s = bubble_step d s"
| "run_task render a (Zero d) s = zero_step d s"

text \<open>A step of the engine: one task is taken and what follows from it is put back.\<close>

inductive sync_step :: "(M tracked \<Rightarrow> int \<Rightarrow> nat) \<Rightarrow> sync \<Rightarrow> sync \<Rightarrow> bool" for render where
  run: "y_tasks s = add_mset t R \<Longrightarrow> run_task render a t (s\<lparr>y_tasks := R\<rparr>) = Ran (new, s') \<Longrightarrow>
    sync_step render s (s'\<lparr>y_tasks := R + mset new\<rparr>)"

definition sync_crash :: "(M tracked \<Rightarrow> int \<Rightarrow> nat) \<Rightarrow> sync \<Rightarrow> bool" where
  "sync_crash render s \<longleftrightarrow>
     (\<exists>t R a. y_tasks s = add_mset t R \<and> run_task render a t (s\<lparr>y_tasks := R\<rparr>) = Crash)"

definition sync_start :: "u16 \<Rightarrow> string \<Rightarrow> M tracked \<Rightarrow> sync" where
  "sync_start base root F =
     \<lparr>y_tree = F, y_pending = Map.empty, y_ok = True, y_reports = 0, y_port = base, y_seq = 0, y_sent = [],
      y_tasks = {#Rec root (t_root F) P_start#}\<rparr>"

end
