(* ===== verification/Sync_Inv.thy ===== *)
theory Sync_Inv
  imports Sync_Engine
begin

text \<open>
  The invariant of the sync engine. The tasks are seen as a function \<open>A\<close> from a node to the one
  task that owns it and a function \<open>B\<close> that counts the calls of \<open>bubble\<close> at a node.
\<close>

section \<open>The invariant over functions\<close>

text \<open>The message of the node has been sent.\<close>

fun post :: "phase \<Rightarrow> bool" where
  "post P_switch = True"
| "post P_remove = True"
| "post (P_emplace k) = True"
| "post P_wait = True"
| "post (P_iter rest) = True"
| "post ph = False"

fun late :: "phase \<Rightarrow> bool" where
  "late P_wait = True"
| "late (P_iter rest) = True"
| "late ph = False"

definition phase_ok :: "(nid \<Rightarrow> nid list) \<Rightarrow> nid \<Rightarrow> (nid \<rightharpoonup> nat) \<Rightarrow> nid \<Rightarrow> phase \<Rightarrow> bool" where
  "phase_ok ch rt pd n ph \<longleftrightarrow> (pd n \<noteq> None \<longleftrightarrow> late ph) \<and>
     (case ph of
        P_remove \<Rightarrow> ch n = [] \<and> n \<noteq> rt
      | P_emplace k \<Rightarrow> k = length (ch n) \<and> (k = 0 \<longrightarrow> n = rt)
      | P_iter rest \<Rightarrow> distinct rest \<and> set rest \<subseteq> set (ch n)
      | _ \<Rightarrow> True)"

lemma phase_ok_cong:
  "ch' n = ch n \<Longrightarrow> pd' n = pd n \<Longrightarrow> phase_ok ch' rt pd' n ph \<longleftrightarrow> phase_ok ch rt pd n ph"
  by (cases ph) (simp_all add: phase_ok_def)

definition act_ok where
  "act_ok pth par ch rt pd A \<longleftrightarrow> (\<forall>n t. A n = Some t \<longrightarrow> par n \<noteq> None \<and>
     (case t of
        Rec p m ph \<Rightarrow> m = n \<and> p = pth n \<and> phase_ok ch rt pd n ph
      | Zero m \<Rightarrow> m = n \<and> pd n = Some 0
      | _ \<Rightarrow> False))"

definition pend_ok where
  "pend_ok par ch rt A B pd \<longleftrightarrow> (\<forall>d.
     (pd d = None \<longrightarrow> B d = 0) \<and>
     (\<forall>k. pd d = Some k \<longrightarrow> par d \<noteq> None \<and> k = length (ch d) + B d \<and> (B d > 0 \<longrightarrow> A d = None) \<and>
        (k = 0 \<longrightarrow> A d = Some (Zero d) \<or> d = rt)))"

text \<open>The loop over the children of \<open>p\<close> has come past \<open>c\<close>.\<close>

definition iterated :: "(nid \<rightharpoonup> task) \<Rightarrow> (nid \<rightharpoonup> nat) \<Rightarrow> nid \<Rightarrow> nid \<Rightarrow> bool" where
  "iterated A pd p c \<longleftrightarrow> pd p \<noteq> None \<and> (\<forall>q. A p \<noteq> Some (Rec q p P_wait)) \<and>
     (\<forall>q rest. A p = Some (Rec q p (P_iter rest)) \<longrightarrow> c \<notin> set rest)"

definition touch_ok where
  "touch_ok par A pd L \<longleftrightarrow> (\<forall>c p. par c = Some (Some p) \<longrightarrow>
     A c \<noteq> None \<or> pd c \<noteq> None \<or> c \<in> set L \<longrightarrow> iterated A pd p c)"

definition prog_ok where
  "prog_ok par ch rt A pd L \<longleftrightarrow>
     (\<forall>c p. par c = Some (Some p) \<longrightarrow> iterated A pd p c \<longrightarrow> A c \<noteq> None \<or> pd c \<noteq> None) \<and>
     (A rt = None \<longrightarrow> pd rt = None \<longrightarrow> ch rt = [] \<and> rt \<in> set L)"

definition parents_first :: "(nid \<Rightarrow> nid option option) \<Rightarrow> nid list \<Rightarrow> bool" where
  "parents_first par L \<longleftrightarrow> (\<forall>i < length L. \<forall>p. par (L ! i) = Some (Some p) \<longrightarrow> p \<in> set (take i L))"

definition sent_ok where
  "sent_ok par0 par A pd L \<longleftrightarrow> distinct L \<and> parents_first par0 L \<and>
     (\<forall>n \<in> set L. par0 n \<noteq> None \<and> (\<forall>p ph. A n = Some (Rec p n ph) \<longrightarrow> post ph)) \<and>
     (\<forall>n. par0 n \<noteq> None \<longrightarrow>
        par n = None \<or> pd n \<noteq> None \<or> (\<exists>p ph. A n = Some (Rec p n ph) \<and> post ph) \<longrightarrow> n \<in> set L)"

definition eng where
  "eng pth par0 rt g par ch A B pd L \<longleftrightarrow>
     act_ok pth par ch rt pd A \<and> pend_ok par ch rt A B pd \<and> touch_ok par A pd L \<and>
     sent_ok par0 par A pd L \<and> (g \<longrightarrow> prog_ok par ch rt A pd L)"

lemmas eng_defs = act_ok_def pend_ok_def touch_ok_def sent_ok_def prog_ok_def iterated_def phase_ok_def

lemma engD:
  assumes "eng pth par0 rt g par ch A B pd L"
  shows "act_ok pth par ch rt pd A" "pend_ok par ch rt A B pd" "touch_ok par A pd L"
    "sent_ok par0 par A pd L" "g \<Longrightarrow> prog_ok par ch rt A pd L"
  using assms by (simp_all add: eng_def)

lemma engI:
  assumes "act_ok pth par ch rt pd A" "pend_ok par ch rt A B pd" "touch_ok par A pd L"
    "sent_ok par0 par A pd L" "g \<Longrightarrow> prog_ok par ch rt A pd L"
  shows "eng pth par0 rt g par ch A B pd L"
  using assms by (simp add: eng_def)

lemma act_Rec:
  assumes "act_ok pth par ch rt pd A" and "A n = Some (Rec p n ph)"
  shows "par n \<noteq> None" "p = pth n" "phase_ok ch rt pd n ph"
  using assms(1) [unfolded act_ok_def, rule_format, OF assms(2)] by simp_all

lemma pendD:
  assumes "pend_ok par ch rt A B pd" and "pd d = Some k"
  shows "par d \<noteq> None" "k = length (ch d) + B d" "B d > 0 \<Longrightarrow> A d = None"
    "k = 0 \<Longrightarrow> A d = Some (Zero d) \<or> d = rt"
  using assms(1) [unfolded pend_ok_def, THEN spec, of d] assms(2) by simp_all

lemma pend_zero: "pend_ok par ch rt A B pd \<Longrightarrow> pd d = Some 0 \<Longrightarrow> A d = Some (Zero d) \<or> d = rt"
  using pendD(4) [of par ch rt A B pd d 0] by simp

lemma pend_None: "pend_ok par ch rt A B pd \<Longrightarrow> pd d = None \<Longrightarrow> B d = 0"
  by (simp add: pend_ok_def)

lemma touchD:
  "touch_ok par A pd L \<Longrightarrow> par c = Some (Some p) \<Longrightarrow> A c \<noteq> None \<or> pd c \<noteq> None \<or> c \<in> set L \<Longrightarrow>
   iterated A pd p c"
  unfolding touch_ok_def by blast

lemma touchI:
  "(\<And>c p. par c = Some (Some p) \<Longrightarrow> A c \<noteq> None \<or> pd c \<noteq> None \<or> c \<in> set L \<Longrightarrow> iterated A pd p c) \<Longrightarrow>
   touch_ok par A pd L"
  unfolding touch_ok_def by blast

lemma progD:
  assumes "prog_ok par ch rt A pd L"
  shows "par c = Some (Some p) \<Longrightarrow> iterated A pd p c \<Longrightarrow> A c \<noteq> None \<or> pd c \<noteq> None"
    "A rt = None \<Longrightarrow> pd rt = None \<Longrightarrow> ch rt = [] \<and> rt \<in> set L"
  using assms unfolding prog_ok_def by blast+

lemma progI:
  assumes "\<And>c p. par c = Some (Some p) \<Longrightarrow> iterated A pd p c \<Longrightarrow> A c \<noteq> None \<or> pd c \<noteq> None"
    "A rt = None \<Longrightarrow> pd rt = None \<Longrightarrow> ch rt = [] \<and> rt \<in> set L"
  shows "prog_ok par ch rt A pd L"
  using assms unfolding prog_ok_def by blast

lemma sentD:
  assumes "sent_ok par0 par A pd L"
  shows "distinct L" "parents_first par0 L" "n \<in> set L \<Longrightarrow> par0 n \<noteq> None"
    "n \<in> set L \<Longrightarrow> A n = Some (Rec p n ph) \<Longrightarrow> post ph"
    "par0 n \<noteq> None \<Longrightarrow> par n = None \<Longrightarrow> n \<in> set L" "par0 n \<noteq> None \<Longrightarrow> pd n \<noteq> None \<Longrightarrow> n \<in> set L"
    "par0 n \<noteq> None \<Longrightarrow> A n = Some (Rec p n ph) \<Longrightarrow> post ph \<Longrightarrow> n \<in> set L"
  using assms unfolding sent_ok_def by blast+

lemma sentI:
  assumes "distinct L" "parents_first par0 L" "\<And>n. n \<in> set L \<Longrightarrow> par0 n \<noteq> None"
    "\<And>n p ph. n \<in> set L \<Longrightarrow> A n = Some (Rec p n ph) \<Longrightarrow> post ph"
    "\<And>n. par0 n \<noteq> None \<Longrightarrow> par n = None \<Longrightarrow> n \<in> set L" "\<And>n. par0 n \<noteq> None \<Longrightarrow> pd n \<noteq> None \<Longrightarrow> n \<in> set L"
    "\<And>n p ph. par0 n \<noteq> None \<Longrightarrow> A n = Some (Rec p n ph) \<Longrightarrow> post ph \<Longrightarrow> n \<in> set L"
  shows "sent_ok par0 par A pd L"
  using assms unfolding sent_ok_def by blast

lemma pendI:
  assumes "\<And>d. pd d = None \<Longrightarrow> B d = 0"
    "\<And>d k. pd d = Some k \<Longrightarrow> par d \<noteq> None \<and> k = length (ch d) + B d"
    "\<And>d. pd d \<noteq> None \<Longrightarrow> B d > 0 \<Longrightarrow> A d = None"
    "\<And>d. pd d = Some 0 \<Longrightarrow> A d = Some (Zero d) \<or> d = rt"
  shows "pend_ok par ch rt A B pd"
  using assms unfolding pend_ok_def by blast

lemma act_put:
  assumes "act_ok pth par ch rt pd A" "par n \<noteq> None"
    "case t of Rec p m ph \<Rightarrow> m = n \<and> p = pth n \<and> phase_ok ch rt pd n ph
     | Zero m \<Rightarrow> m = n \<and> pd n = Some 0 | _ \<Rightarrow> False"
  shows "act_ok pth par ch rt pd (A(n \<mapsto> t))"
  using assms unfolding act_ok_def by simp

lemma act_drop: "act_ok pth par ch rt pd A \<Longrightarrow> act_ok pth par ch rt pd (A(n := None))"
  unfolding act_ok_def by simp

text \<open>Only what is kept for \<open>n\<close> changes.\<close>

lemma act_upd:
  assumes "act_ok pth par ch rt pd A" and "\<And>m. m \<noteq> n \<Longrightarrow> A' m = A m" "\<And>m. m \<noteq> n \<Longrightarrow> pd' m = pd m"
    and "\<And>t. A' n = Some t \<Longrightarrow> par n \<noteq> None \<and>
      (case t of Rec p m ph \<Rightarrow> m = n \<and> p = pth n \<and> phase_ok ch rt pd' n ph
       | Zero m \<Rightarrow> m = n \<and> pd' n = Some 0 | _ \<Rightarrow> False)"
  shows "act_ok pth par ch rt pd' A'"
  unfolding act_ok_def
proof (intro allI impI)
  fix m t assume m: "A' m = Some t"
  show "par m \<noteq> None \<and> (case t of Rec p m' ph \<Rightarrow> m' = m \<and> p = pth m \<and> phase_ok ch rt pd' m ph
      | Zero m' \<Rightarrow> m' = m \<and> pd' m = Some 0 | _ \<Rightarrow> False)"
  proof (cases "m = n")
    case False
    then show ?thesis using m assms(2,3) [of m] assms(1) [unfolded act_ok_def, rule_format, of m t]
      by (simp add: phase_ok_def split: task.splits)
  qed (use assms(4) m in blast)
qed

text \<open>Nothing depends on a task but whether it is there, its loop and whether the message is sent.\<close>

lemma sent_put:
  assumes "sent_ok par0 par A pd L" "\<And>p ph. t = Rec p n ph \<Longrightarrow> post ph \<longleftrightarrow> n \<in> set L"
  shows "sent_ok par0 par (A(n \<mapsto> t)) pd L"
proof (rule sentI [OF sentD(1,2,3) [OF assms(1)]])
  note S = sentD [OF assms(1)]
  show "post ph" if "m \<in> set L" "(A(n \<mapsto> t)) m = Some (Rec p m ph)" for m p ph
    using that assms(2) [of p ph] S(4) [of m p ph] by (cases "m = n") simp_all
  show "m \<in> set L" if "par0 m \<noteq> None" "(A(n \<mapsto> t)) m = Some (Rec p m ph)" "post ph" for m p ph
    using that assms(2) [of p ph] S(7) [of m p ph] by (cases "m = n") simp_all
qed (blast intro: sentD(5,6) [OF assms(1)])+

lemma sent_drop:
  assumes "sent_ok par0 par A pd L"
  shows "sent_ok par0 par (A(n := None)) pd L"
proof (rule sentI [OF sentD(1,2,3) [OF assms(1)]])
  note S = sentD [OF assms(1)]
  show "post ph" if "m \<in> set L" "(A(n := None)) m = Some (Rec p m ph)" for m p ph
    using that S(4) [of m p ph] by (cases "m = n") simp_all
  show "m \<in> set L" if "par0 m \<noteq> None" "(A(n := None)) m = Some (Rec p m ph)" "post ph" for m p ph
    using that S(7) [of m p ph] by (cases "m = n") simp_all
qed (blast intro: sentD(5,6) [OF assms(1)])+

section \<open>The transitions keep it\<close>

lemma eng_phase:
  assumes e: "eng pth par0 rt g par ch A B pd L" and A: "A n = Some (Rec p n ph)"
    and ph: "\<not> late ph" "\<not> late ph'" "post ph' = post ph" "phase_ok ch rt pd n ph'"
    and sv: "\<And>m. par m \<noteq> None \<Longrightarrow> par m = par0 m"
  shows "eng pth par0 rt g par ch (A(n \<mapsto> Rec p n ph')) B pd L"
proof (rule engI)
  let ?A = "A(n \<mapsto> Rec p n ph')"
  note D = engD [OF e] and R = act_Rec [OF engD(1) [OF e] A]
  have it: "iterated ?A pd q c = iterated A pd q c" for q c
    using A ph by (auto simp: iterated_def)
  have none: "?A m = None \<longleftrightarrow> A m = None" for m using A by simp
  have pdn: "pd n = None" using R(3) ph(1) by (simp add: phase_ok_def)
  show "act_ok pth par ch rt pd ?A" by (rule act_put [OF D(1) R(1)]) (use R(2) ph(4) in simp)
  show "pend_ok par ch rt ?A B pd" by (rule pendI) (use pendD [OF D(2)] pend_None [OF D(2)] pdn in auto)
  show "touch_ok par ?A pd L" by (rule touchI) (unfold it none, rule touchD [OF D(3)])
  have "par0 n \<noteq> None" using sv [OF R(1)] R(1) by simp
  then have "post ph' \<longleftrightarrow> n \<in> set L" using ph(3) sentD(4) [OF D(4) _ A] sentD(7) [OF D(4) _ A] by blast
  then show "sent_ok par0 par ?A pd L" by (intro sent_put [OF D(4)]) simp
  show "prog_ok par ch rt ?A pd L" if g
    by (rule progI; unfold it none; rule progD [OF D(5) [OF that]])
qed

lemma eng_sent:
  assumes e: "eng pth par0 rt g par ch A B pd L" and A: "A n = Some (Rec p n (P_send q 0))"
    and sv: "\<And>m. par m \<noteq> None \<Longrightarrow> par m = par0 m"
  shows "eng pth par0 rt g par ch (A(n \<mapsto> Rec p n P_switch)) B pd (L @ [n])"
proof (rule engI)
  let ?A = "A(n \<mapsto> Rec p n P_switch)"
  note D = engD [OF e] and R = act_Rec [OF engD(1) [OF e] A]
  have par0: "par n = par0 n" by (rule sv [OF R(1)])
  have it: "iterated ?A pd q c = iterated A pd q c" for q c using A by (auto simp: iterated_def)
  have none: "?A m = None \<longleftrightarrow> A m = None" for m using A by simp
  have pdn: "pd n = None" using R(3) by (simp add: phase_ok_def)
  show "act_ok pth par ch rt pd ?A" by (rule act_put [OF D(1) R(1)]) (use R(2) pdn in \<open>simp add: phase_ok_def\<close>)
  show "pend_ok par ch rt ?A B pd" by (rule pendI) (use pendD [OF D(2)] pend_None [OF D(2)] pdn in auto)
  show "touch_ok par ?A pd (L @ [n])"
    by (rule touchI) (unfold it none, rule touchD [OF D(3)], use A in auto)
  have nL: "n \<notin> set L" using sentD(4) [OF D(4) _ A] by auto
  have "p' \<in> set L" if "par0 n = Some (Some p')" for p'
  proof -
    have "iterated A pd p' n" using touchD [OF D(3)] A that par0 by simp
    then have pd: "pd p' \<noteq> None" by (simp add: iterated_def)
    then have "par p' \<noteq> None" using pendD(1) [OF D(2)] by blast
    then have "par0 p' \<noteq> None" using sv [of p'] by simp
    from this pd show ?thesis by (rule sentD(6) [OF D(4)])
  qed
  then have pf: "parents_first par0 (L @ [n])"
    using sentD(2) [OF D(4)] by (auto simp: parents_first_def nth_append less_Suc_eq)
  have n0: "par0 n \<noteq> None" using R(1) par0 by simp
  show "sent_ok par0 par ?A pd (L @ [n])"
  proof (rule sentI [OF _ pf])
    note S = sentD [OF D(4)]
    show "distinct (L @ [n])" using S(1) nL by simp
    show "post ph" if "m \<in> set (L @ [n])" "?A m = Some (Rec p' m ph)" for m p' ph
      using that S(4) [of m p' ph] by (cases "m = n") simp_all
    show "m \<in> set (L @ [n])" if "par0 m \<noteq> None" "?A m = Some (Rec p' m ph)" "post ph" for m p' ph
      using that S(7) [of m p' ph] by (cases "m = n") simp_all
    show "par0 m \<noteq> None" if "m \<in> set (L @ [n])" for m using that S(3) [of m] n0 by (cases "m = n") simp_all
    show "m \<in> set (L @ [n])" if "par0 m \<noteq> None" "par m = None" for m using S(5) [OF that] by simp
    show "m \<in> set (L @ [n])" if "par0 m \<noteq> None" "pd m \<noteq> None" for m using S(6) [OF that] by simp
  qed
  show "prog_ok par ch rt ?A pd (L @ [n])" if g
  proof (rule progI, unfold it none)
    note P = progD [OF D(5) [OF that]]
    show "A c \<noteq> None \<or> pd c \<noteq> None" if "par c = Some (Some q)" "iterated A pd q c" for c q by (rule P(1) [OF that])
    show "ch rt = [] \<and> rt \<in> set (L @ [n])" if "A rt = None" "pd rt = None" using P(2) [OF that] by simp
  qed
qed

text \<open>A task that ends before its message is sent: the run is no longer a success.\<close>

lemma eng_drop:
  assumes e: "eng pth par0 rt g par ch A B pd L" and A: "A n = Some (Rec p n ph)" and ph: "\<not> late ph"
  shows "eng pth par0 rt False par ch (A(n := None)) B pd L"
proof (rule engI)
  note D = engD [OF e] and R = act_Rec [OF engD(1) [OF e] A]
  have it: "iterated A pd q c \<Longrightarrow> iterated (A(n := None)) pd q c" for q c by (simp add: iterated_def)
  have pdn: "pd n = None" using R(3) ph by (simp add: phase_ok_def)
  show "act_ok pth par ch rt pd (A(n := None))" by (rule act_drop [OF D(1)])
  show "pend_ok par ch rt (A(n := None)) B pd"
    by (rule pendI) (use pendD [OF D(2)] pend_None [OF D(2)] pdn in auto)
  show "touch_ok par (A(n := None)) pd L"
    by (rule touchI) (rule it, rule touchD [OF D(3)], auto split: if_splits)
  show "sent_ok par0 par (A(n := None)) pd L" by (rule sent_drop [OF D(4)])
qed simp

lemma eng_weaken: "eng pth par0 rt g par ch A B pd L \<Longrightarrow> eng pth par0 rt False par ch A B pd L"
  by (simp add: eng_def)

text \<open>The loop over the children ends.\<close>

lemma eng_iter_end:
  assumes e: "eng pth par0 rt g par ch A B pd L" and A: "A n = Some (Rec p n (P_iter []))"
  shows "eng pth par0 rt g par ch (A(n := None)) B pd L"
proof (rule engI)
  note D = engD [OF e] and R = act_Rec [OF engD(1) [OF e] A]
  have it: "iterated (A(n := None)) pd q c = iterated A pd q c" for q c using A by (auto simp: iterated_def)
  have pdn: "pd n \<noteq> None" using R(3) by (simp add: phase_ok_def)
  show "act_ok pth par ch rt pd (A(n := None))" by (rule act_drop [OF D(1)])
  show "pend_ok par ch rt (A(n := None)) B pd"
    by (rule pendI) (use pendD(1-3) [OF D(2)] pend_zero [OF D(2), of n] pend_zero [OF D(2)] pend_None [OF D(2)] A in auto)
  show "touch_ok par (A(n := None)) pd L"
    by (rule touchI) (unfold it, rule touchD [OF D(3)], auto split: if_splits)
  show "sent_ok par0 par (A(n := None)) pd L" by (rule sent_drop [OF D(4)])
  show "prog_ok par ch rt (A(n := None)) pd L" if g
  proof (rule progI, unfold it)
    note P = progD [OF D(5) [OF that]]
    show "(A(n := None)) c \<noteq> None \<or> pd c \<noteq> None" if "par c = Some (Some q)" "iterated A pd q c" for c q
      using P(1) [OF that] pdn by (cases "c = n") simp_all
    show "ch rt = [] \<and> rt \<in> set L" if "(A(n := None)) rt = None" "pd rt = None"
      using P(2) that pdn by (cases "rt = n") simp_all
  qed
qed

text \<open>The table of pending children gets the node.\<close>

lemma eng_emplace:
  assumes e: "eng pth par0 rt g par ch A B pd L" and A: "A n = Some (Rec p n (P_emplace k))"
    and sv: "\<And>m. par m \<noteq> None \<Longrightarrow> par m = par0 m"
  shows "eng pth par0 rt g par ch (A(n \<mapsto> Rec p n P_wait)) B (pd(n \<mapsto> k)) L"
proof (rule engI)
  let ?A = "A(n \<mapsto> Rec p n P_wait)" and ?pd = "pd(n \<mapsto> k)"
  note D = engD [OF e] and R = act_Rec [OF engD(1) [OF e] A]
  have pdn: "pd n = None" and k: "k = length (ch n)" "k = 0 \<Longrightarrow> n = rt"
    using R(3) by (simp_all add: phase_ok_def)
  have it: "iterated ?A ?pd q c \<longleftrightarrow> iterated A pd q c" for q c
    using A pdn by (cases "q = n") (auto simp: iterated_def)
  have none: "?A m = None \<longleftrightarrow> A m = None" for m using A by simp
  show "act_ok pth par ch rt ?pd ?A"
    by (rule act_upd [OF D(1), where n = n]) (use R in \<open>simp_all add: phase_ok_def\<close>)
  show "pend_ok par ch rt ?A B ?pd"
  proof (rule pendI)
    show "par d \<noteq> None \<and> k' = length (ch d) + B d" if "?pd d = Some k'" for d k'
      using that R(1) k(1) pend_None [OF D(2) pdn] pendD(1,2) [OF D(2), of d k'] by (cases "d = n") simp_all
    show "?A d = None" if "?pd d \<noteq> None" "B d > 0" for d
      using that pend_None [OF D(2) pdn] pendD(3) [OF D(2), of d] by (cases "d = n") auto
    show "?A d = Some (Zero d) \<or> d = rt" if "?pd d = Some 0" for d
      using that k(2) pend_zero [OF D(2), of d] by (cases "d = n") simp_all
    show "B d = 0" if "?pd d = None" for d
      using that pend_None [OF D(2), of d] by (cases "d = n") simp_all
  qed
  show "touch_ok par ?A ?pd L"
    by (rule touchI) (unfold it none, rule touchD [OF D(3)], use A in \<open>auto split: if_splits\<close>)
  have n0: "par0 n \<noteq> None" using sv [OF R(1)] R(1) by simp
  then have nL: "n \<in> set L" using sentD(7) [OF D(4) _ A] by simp
  show "sent_ok par0 par ?A ?pd L"
  proof (rule sent_put)
    show "sent_ok par0 par A ?pd L"
      by (rule sentI [OF sentD(1,2,3) [OF D(4)] sentD(4) [OF D(4)]])
        (use sentD(5,6,7) [OF D(4)] nL in \<open>auto split: if_splits\<close>)
  qed (use nL in simp)
  show "prog_ok par ch rt ?A ?pd L" if g
  proof (rule progI, unfold it none)
    note P = progD [OF D(5) [OF that]]
    show "A c \<noteq> None \<or> ?pd c \<noteq> None" if "par c = Some (Some q)" "iterated A pd q c" for c q
      using P(1) [OF that] by auto
    show "ch rt = [] \<and> rt \<in> set L" if "A rt = None" "?pd rt = None"
      using P(2) that by (simp split: if_splits)
  qed
qed

text \<open>The loop over the children starts.\<close>

lemma eng_wait:
  assumes e: "eng pth par0 rt g par ch A B pd L" and A: "A n = Some (Rec p n P_wait)"
    and wf: "wf_links par ch nx rt" and sv: "\<And>m. par m \<noteq> None \<Longrightarrow> par m = par0 m"
  shows "eng pth par0 rt g par ch (A(n \<mapsto> Rec p n (P_iter (ch n)))) B pd L"
proof (rule engI)
  let ?A = "A(n \<mapsto> Rec p n (P_iter (ch n)))"
  note D = engD [OF e] and R = act_Rec [OF engD(1) [OF e] A] and W = wf_linksD [OF wf]
  have pdn: "pd n \<noteq> None" using R(3) by (simp add: phase_ok_def)
  have it: "iterated ?A pd q c \<longleftrightarrow> iterated A pd q c" if "par c = Some (Some q)" for q c
    using A W(4) [OF that] by (cases "q = n") (auto simp: iterated_def)
  have none: "?A m = None \<longleftrightarrow> A m = None" for m using A by simp
  show "act_ok pth par ch rt pd ?A"
    by (rule act_put [OF D(1) R(1)]) (use R(2) pdn W(6) in \<open>simp add: phase_ok_def\<close>)
  show "pend_ok par ch rt ?A B pd"
    by (rule pendI) (use pendD(1-3) [OF D(2)] pend_zero [OF D(2), of n] pend_zero [OF D(2)] pend_None [OF D(2)] A in auto)
  show "touch_ok par ?A pd L"
  proof (rule touchI)
    show "iterated ?A pd q c" if "par c = Some (Some q)" "?A c \<noteq> None \<or> pd c \<noteq> None \<or> c \<in> set L" for c q
      using that(2) touchD [OF D(3) that(1)] unfolding it [OF that(1)] none by blast
  qed
  have "par0 n \<noteq> None" using sv [OF R(1)] R(1) by simp
  then have "n \<in> set L" by (rule sentD(6) [OF D(4) _ pdn])
  then show "sent_ok par0 par ?A pd L" by (intro sent_put [OF D(4)]) simp
  show "prog_ok par ch rt ?A pd L" if g
  proof (rule progI, unfold none)
    note P = progD [OF D(5) [OF that]]
    show "A c \<noteq> None \<or> pd c \<noteq> None" if "par c = Some (Some q)" "iterated ?A pd q c" for c q
      using P(1) [OF that(1)] that(2) unfolding it [OF that(1)] by blast
  qed (rule progD(2) [OF D(5) [OF that]])
qed

text \<open>It starts the task of one child.\<close>

lemma eng_iter:
  assumes e: "eng pth par0 rt g par ch A B pd L" and A: "A n = Some (Rec p n (P_iter (c # rest)))"
    and wf: "wf_links par ch nx rt" and sv: "\<And>m. par m \<noteq> None \<Longrightarrow> par m = par0 m"
  shows "A c = None" "c \<noteq> n" "par c = Some (Some n)"
    and "eng pth par0 rt g par ch (A(n \<mapsto> Rec p n (P_iter rest), c \<mapsto> Rec (pth c) c P_start)) B pd L"
proof -
  let ?A1 = "A(n \<mapsto> Rec p n (P_iter rest))" and ?A = "A(n \<mapsto> Rec p n (P_iter rest), c \<mapsto> Rec (pth c) c P_start)"
  note D = engD [OF e] and R = act_Rec [OF engD(1) [OF e] A] and W = wf_linksD [OF wf]
  have pdn: "pd n \<noteq> None" and rest: "distinct (c # rest)" "set (c # rest) \<subseteq> set (ch n)"
    using R(3) by (simp_all add: phase_ok_def)
  show parc: "par c = Some (Some n)" using W(8) rest(2) by simp
  have "\<not> iterated A pd n c" using A by (simp add: iterated_def)
  then have new: "A c = None" "pd c = None" "c \<notin> set L" using touchD [OF D(3) parc] by blast+
  then show "A c = None" by simp
  show cn: "c \<noteq> n" using A new(1) by auto
  have it: "iterated ?A pd q x \<longleftrightarrow> iterated A pd q x \<or> x = c" if "par x = Some (Some q)" for q x
    using A parc that pdn new(1,2) rest(1) cn
    by (cases "q = n"; cases "q = c"; cases "x = c") (simp_all add: iterated_def)
  have none: "?A m = None \<longleftrightarrow> A m = None \<and> m \<noteq> c" for m using A by simp
  show "eng pth par0 rt g par ch ?A B pd L"
  proof (rule engI)
    have "act_ok pth par ch rt pd ?A1"
      by (rule act_put [OF D(1) R(1)]) (use R(2) pdn rest in \<open>simp add: phase_ok_def\<close>)
    then show "act_ok pth par ch rt pd ?A"
      by (rule act_put) (use parc new in \<open>simp_all add: phase_ok_def\<close>)
    show "pend_ok par ch rt ?A B pd"
      by (rule pendI) (use pendD(1-3) [OF D(2)] pend_zero [OF D(2), of n] pend_zero [OF D(2)] pend_None [OF D(2)] A new in auto)
    show "touch_ok par ?A pd L"
    proof (rule touchI)
      show "iterated ?A pd q x" if "par x = Some (Some q)" "?A x \<noteq> None \<or> pd x \<noteq> None \<or> x \<in> set L" for x q
        using that(2) touchD [OF D(3) that(1)] unfolding it [OF that(1)] none by blast
    qed
    have "par0 n \<noteq> None" using sv [OF R(1)] R(1) by simp
    then have "n \<in> set L" by (rule sentD(6) [OF D(4) _ pdn])
    then have "sent_ok par0 par ?A1 pd L" by (intro sent_put [OF D(4)]) simp
    then show "sent_ok par0 par ?A pd L" by (rule sent_put) (use new in auto)
    show "prog_ok par ch rt ?A pd L" if g
    proof (rule progI, unfold none)
      note P = progD [OF D(5) [OF that]]
      show "\<not> (A x = None \<and> x \<noteq> c) \<or> pd x \<noteq> None" if "par x = Some (Some q)" "iterated ?A pd q x" for x q
        using P(1) [OF that(1)] that(2) unfolding it [OF that(1)] by blast
    qed (use progD(2) [OF D(5) [OF that]] in blast)
  qed
qed

text \<open>A node without children is removed, and its parent is told.\<close>

lemma parent_idle:
  assumes e: "eng pth par0 rt g par ch A B pd L" and t: "A n \<noteq> None" and q: "par n = Some (Some q)"
    and free: "\<And>p rest. A q \<noteq> Some (Rec p q (P_iter rest))" and wf: "wf_links par ch nx rt"
  shows "\<exists>k. pd q = Some k" "A q = None" "n \<in> set (ch q)" "q \<noteq> n"
proof -
  note D = engD [OF e] and W = wf_linksD [OF wf]
  show nq: "n \<in> set (ch q)" by (rule W(4) [OF q])
  show "q \<noteq> n" using W(7) [OF nq] by simp
  have it: "iterated A pd q n" using touchD [OF D(3) q] t by blast
  then obtain k where k: "pd q = Some k" and w: "\<And>p. A q \<noteq> Some (Rec p q P_wait)" by (auto simp: iterated_def)
  then show "\<exists>k. pd q = Some k" by blast
  have "ch q \<noteq> []" using nq by auto
  then have "k \<noteq> 0" using pendD(2) [OF D(2) k] by simp
  show "A q = None"
  proof (cases "A q")
    case (Some x)
    note X = D(1) [unfolded act_ok_def, rule_format, OF Some]
    show ?thesis
    proof (cases x)
      case (Rec p m ph)
      then have "phase_ok ch rt pd q ph" "m = q" using X by simp_all
      then show ?thesis using w free k Some Rec by (cases ph) (auto simp: phase_ok_def)
    qed (use X k \<open>k \<noteq> 0\<close> in simp_all)
  qed
qed

lemma eng_remove:
  assumes e: "eng pth par0 rt g par ch A B pd L" and t: "A n \<noteq> None" and q: "par n = Some (Some q)"
    and leaf: "ch n = []" and bn: "B n = 0" and nL: "n \<in> set L"
    and free: "\<And>p rest. A q \<noteq> Some (Rec p q (P_iter rest))" and wf: "wf_links par ch nx rt"
  shows "eng pth par0 rt g (par(n := None)) (ch(q := remove1 n (ch q))) (A(n := None))
    (B(q := Suc (B q))) (pd(n := None)) L"
proof (rule engI)
  let ?par = "par(n := None)" and ?ch = "ch(q := remove1 n (ch q))" and ?A = "A(n := None)"
    and ?B = "B(q := Suc (B q))" and ?pd = "pd(n := None)"
  note D = engD [OF e] and W = wf_linksD [OF wf] and I = parent_idle [OF e t q free wf]
  obtain k where k: "pd q = Some k" using I(1) by blast
  have rt: "n \<noteq> rt" using W(1) q by auto
  have nch: "r \<noteq> n" if "par c = Some (Some r)" for r c using W(4) [OF that] leaf by auto
  have it: "iterated ?A ?pd r c \<longleftrightarrow> iterated A pd r c" if "r \<noteq> n" for r c using that by (simp add: iterated_def)
  show "act_ok pth ?par ?ch rt ?pd ?A" unfolding act_ok_def
  proof (intro allI impI)
    fix m x assume m: "?A m = Some x"
    then have mn: "m \<noteq> n" "m \<noteq> q" "A m = Some x" using I(2) by (auto split: if_splits)
    then have "phase_ok ?ch rt ?pd m ph \<longleftrightarrow> phase_ok ch rt pd m ph" for ph by (intro phase_ok_cong) simp_all
    with mn show "?par m \<noteq> None \<and> (case x of Rec p m' ph \<Rightarrow> m' = m \<and> p = pth m \<and> phase_ok ?ch rt ?pd m ph
      | Zero m' \<Rightarrow> m' = m \<and> ?pd m = Some 0 | _ \<Rightarrow> False)"
      using D(1) [unfolded act_ok_def, rule_format, of m x] by (simp split: task.splits)
  qed
  have len: "length (ch q) = Suc (length (remove1 n (ch q)))"
    using I(3) by (simp add: length_remove1) (metis Suc_pred length_pos_if_in_set)
  show "pend_ok ?par ?ch rt ?A ?B ?pd"
  proof (rule pendI)
    show "?B d = 0" if "?pd d = None" for d
      using that k I(4) bn pend_None [OF D(2), of d] by (cases "d = n"; cases "d = q") simp_all
    show "?par d \<noteq> None \<and> k' = length (?ch d) + ?B d" if "?pd d = Some k'" for d k'
      using that len pendD(1,2) [OF D(2), of d k'] by (cases "d = n"; cases "d = q") simp_all
    show "?A d = None" if "?pd d \<noteq> None" "?B d > 0" for d
      using that I(2) pendD(3) [OF D(2), of d] by (cases "d = n"; cases "d = q") auto
    show "?A d = Some (Zero d) \<or> d = rt" if "?pd d = Some 0" for d
      using that pend_zero [OF D(2), of d] by (cases "d = n") simp_all
  qed
  show "touch_ok ?par ?A ?pd L"
  proof (rule touchI)
    fix c r assume c: "?par c = Some (Some r)" "?A c \<noteq> None \<or> ?pd c \<noteq> None \<or> c \<in> set L"
    then have "c \<noteq> n" and pc: "par c = Some (Some r)" by (auto split: if_splits)
    then show "iterated ?A ?pd r c"
      using touchD [OF D(3) pc] c(2) unfolding it [OF nch [OF pc]] by simp
  qed
  have "sent_ok par0 ?par A ?pd L"
    by (rule sentI [OF sentD(1,2,3,4) [OF D(4)] _ _ sentD(7) [OF D(4)]])
      (use sentD(5,6) [OF D(4)] nL in \<open>simp_all split: if_splits\<close>)
  then show "sent_ok par0 ?par ?A ?pd L" by (rule sent_drop)
  show "prog_ok ?par ?ch rt ?A ?pd L" if g
  proof (rule progI)
    note P = progD [OF D(5) [OF that]]
    fix c r assume c: "?par c = Some (Some r)" "iterated ?A ?pd r c"
    then have cn: "c \<noteq> n" and pc: "par c = Some (Some r)" by (auto split: if_splits)
    then show "?A c \<noteq> None \<or> ?pd c \<noteq> None" using P(1) [OF pc] c(2) unfolding it [OF nch [OF pc]] by simp
  next
    assume "?A rt = None" "?pd rt = None"
    then show "?ch rt = [] \<and> rt \<in> set L" using progD(2) [OF D(5) [OF that]] rt by auto
  qed
qed

text \<open>The count of the root comes to zero.\<close>

lemma eng_zero_root:
  assumes e: "eng pth par0 rt g par ch A B pd L" and A: "A rt = Some (Zero rt)"
    and wf: "wf_links par ch nx rt" and sv: "\<And>m. par m \<noteq> None \<Longrightarrow> par m = par0 m"
  shows "eng pth par0 rt g par ch (A(rt := None)) B (pd(rt := None)) L"
proof (rule engI)
  let ?A = "A(rt := None)" and ?pd = "pd(rt := None)"
  note D = engD [OF e] and W = wf_linksD [OF wf]
  have pd: "pd rt = Some 0" using D(1) A by (force simp: act_ok_def)
  then have z: "ch rt = []" "B rt = 0" using pendD(2) [OF D(2) pd] by simp_all
  have nch: "r \<noteq> rt" if "par c = Some (Some r)" for r c using W(4) [OF that] z by auto
  have it: "iterated ?A ?pd r c \<longleftrightarrow> iterated A pd r c" if "r \<noteq> rt" for r c using that by (simp add: iterated_def)
  have "par0 rt \<noteq> None" using sv [of rt] W(1) by (metis option.distinct(1))
  then have rL: "rt \<in> set L" using sentD(6) [OF D(4)] pd by simp
  show "act_ok pth par ch rt ?pd ?A" by (rule act_upd [OF D(1), where n = rt]) simp_all
  show "pend_ok par ch rt ?A B ?pd"
  proof (rule pendI)
    show "?A d = Some (Zero d) \<or> d = rt" if "?pd d = Some 0" for d
      using that pend_zero [OF D(2), of d] by (cases "d = rt") simp_all
  qed (use pendD(1-3) [OF D(2)] pend_None [OF D(2)] z in \<open>auto split: if_splits\<close>)
  show "touch_ok par ?A ?pd L"
  proof (rule touchI)
    fix c r assume c: "par c = Some (Some r)" "?A c \<noteq> None \<or> ?pd c \<noteq> None \<or> c \<in> set L"
    then have "c \<noteq> rt" using W(1) by auto
    then show "iterated ?A ?pd r c" using touchD [OF D(3) c(1)] c(2) unfolding it [OF nch [OF c(1)]] by simp
  qed
  have "sent_ok par0 par A ?pd L"
    by (rule sentI [OF sentD(1,2,3,4) [OF D(4)] _ _ sentD(7) [OF D(4)]])
      (use sentD(5,6) [OF D(4)] in \<open>simp_all split: if_splits\<close>)
  then show "sent_ok par0 par ?A ?pd L" by (rule sent_drop)
  show "prog_ok par ch rt ?A ?pd L" if g
  proof (rule progI)
    fix c r assume c: "par c = Some (Some r)" "iterated ?A ?pd r c"
    then have "c \<noteq> rt" using W(1) by auto
    then show "?A c \<noteq> None \<or> ?pd c \<noteq> None"
      using progD(1) [OF D(5) [OF that] c(1)] c(2) unfolding it [OF nch [OF c(1)]] by simp
  qed (use z rL in simp)
qed

text \<open>One is taken from a count.\<close>

lemma eng_bubble:
  assumes e: "eng pth par0 rt g par ch A B pd L" and b: "B d = Suc b" and k: "pd d = Some k"
    and A': "A' = (if k = 1 then A(d \<mapsto> Zero d) else A)"
  shows "A d = None" "0 < k" "eng pth par0 rt g par ch A' (B(d := b)) (pd(d \<mapsto> k - 1)) L"
proof -
  let ?B = "B(d := b)" and ?pd = "pd(d \<mapsto> k - 1)"
  note D = engD [OF e] and K = pendD [OF engD(2) [OF e] k]
  show Ad: "A d = None" using K(3) b by simp
  show k0: "0 < k" using K(2) b by simp
  have it: "iterated A' ?pd q c \<longleftrightarrow> iterated A pd q c" for q c
    using k Ad by (cases "q = d") (simp_all add: iterated_def A')
  have tch: "A' c \<noteq> None \<or> ?pd c \<noteq> None \<or> c \<in> set L \<longleftrightarrow> A c \<noteq> None \<or> pd c \<noteq> None \<or> c \<in> set L" for c
    using k by (cases "c = d") (simp_all add: A')
  show "eng pth par0 rt g par ch A' ?B ?pd L"
  proof (rule engI)
    show "act_ok pth par ch rt ?pd A'"
      by (rule act_upd [OF D(1), where n = d]) (use Ad K(1) in \<open>auto simp: A' split: if_splits\<close>)
    show "pend_ok par ch rt A' ?B ?pd"
    proof (rule pendI)
      show "?B x = 0" if "?pd x = None" for x using that pend_None [OF D(2), of x] by (cases "x = d") simp_all
      show "par x \<noteq> None \<and> j = length (ch x) + ?B x" if "?pd x = Some j" for x j
        using that K(1,2) b pendD(1,2) [OF D(2), of x j] by (cases "x = d") auto
      show "A' x = None" if "?pd x \<noteq> None" "?B x > 0" for x
        using that K(2) b Ad pendD(3) [OF D(2), of x] by (cases "x = d") (auto simp: A')
      show "A' x = Some (Zero x) \<or> x = rt" if "?pd x = Some 0" for x
        using that k0 pend_zero [OF D(2), of x] by (cases "x = d") (auto simp: A')
    qed
    show "touch_ok par A' ?pd L" by (rule touchI) (unfold it tch, rule touchD [OF D(3)])
    have S: "sent_ok par0 par A ?pd L"
      by (rule sentI [OF sentD(1,2,3,4,5) [OF D(4)] _ sentD(7) [OF D(4)]])
        (use sentD(6) [OF D(4)] k in \<open>simp_all split: if_splits\<close>)
    have "sent_ok par0 par (A(d \<mapsto> Zero d)) ?pd L" by (rule sent_put [OF S]) simp
    with S show "sent_ok par0 par A' ?pd L" unfolding A' by (cases "k = 1") (simp_all only: if_True if_False simp_thms)
    show "prog_ok par ch rt A' ?pd L" if g
    proof (rule progI, unfold it)
      note P = progD [OF D(5) [OF that]]
      show "A' c \<noteq> None \<or> ?pd c \<noteq> None" if "par c = Some (Some q)" "iterated A pd q c" for c q
        using P(1) [OF that] by (auto simp: A')
      show "ch rt = [] \<and> rt \<in> set L" if "A' rt = None" "?pd rt = None"
        using P(2) that by (auto simp: A' split: if_splits)
    qed
  qed
qed

section \<open>The tasks as functions\<close>

fun own_of :: "task \<Rightarrow> nid option" where
  "own_of (Rec p n ph) = Some n"
| "own_of (Zero n) = Some n"
| "own_of t = None"

text \<open>\<open>A\<close> gives the one task that owns a node.\<close>

definition owns :: "task multiset \<Rightarrow> (nid \<rightharpoonup> task) \<Rightarrow> bool" where
  "owns T A \<longleftrightarrow>
     (\<forall>n. filter_mset (\<lambda>t. own_of t = Some n) T = (case A n of None \<Rightarrow> {#} | Some t \<Rightarrow> {#t#}))"

lemma owns_mem:
  assumes "owns T A" "t \<in># T" "own_of t = Some n"
  shows "A n = Some t"
proof -
  have "t \<in># filter_mset (\<lambda>t. own_of t = Some n) T" using assms(2,3) by simp
  then show ?thesis using assms(1) [unfolded owns_def, rule_format, of n] by (cases "A n") auto
qed

lemma owns_in:
  assumes "owns T A" "A n = Some t"
  shows "t \<in># T" "own_of t = Some n"
proof -
  have "t \<in># filter_mset (\<lambda>t. own_of t = Some n) T"
    using assms(1) [unfolded owns_def, rule_format, of n] assms(2) by simp
  then show "t \<in># T" "own_of t = Some n" by simp_all
qed

lemma owns_take:
  assumes "owns (add_mset t R) A" "own_of t = Some n"
  shows "A n = Some t" "owns R (A(n := None))"
proof -
  show A: "A n = Some t" by (rule owns_mem [OF assms(1) _ assms(2)]) simp
  show "owns R (A(n := None))" unfolding owns_def
  proof
    fix m
    show "filter_mset (\<lambda>t. own_of t = Some m) R = (case (A(n := None)) m of None \<Rightarrow> {#} | Some t \<Rightarrow> {#t#})"
      using assms(1) [unfolded owns_def, rule_format, of m] assms(2) A by (cases "m = n") simp_all
  qed
qed

lemma owns_put:
  assumes "owns R A" "own_of t = Some n" "A n = None"
  shows "owns (add_mset t R) (A(n \<mapsto> t))"
  unfolding owns_def
proof
  fix m
  show "filter_mset (\<lambda>t. own_of t = Some m) (add_mset t R) = (case (A(n \<mapsto> t)) m of None \<Rightarrow> {#} | Some t \<Rightarrow> {#t#})"
    using assms(1) [unfolded owns_def, rule_format, of m] assms(2,3) by (cases "m = n") simp_all
qed

lemma owns_skip [simp]: "own_of t = None \<Longrightarrow> owns (add_mset t R) A \<longleftrightarrow> owns R A"
  by (simp add: owns_def)

lemma owns_change:
  assumes "owns (add_mset t R) A" "own_of t = Some n" "own_of t' = Some n"
  shows "owns (add_mset t' R) (A(n \<mapsto> t'))"
  using owns_put [OF owns_take(2) [OF assms(1,2)] assms(3)] by simp

section \<open>The invariant of the engine\<close>

text \<open>What the scan leaves: ready nodes, directories and files, the root a directory.\<close>

definition scanned :: "M tracked \<Rightarrow> bool" where
  "scanned F \<longleftrightarrow> wf_tree F \<and> (\<forall>n r. t_nodes F n = Some r \<longrightarrow> n_ready r \<and>
     (m_ftype (n_meta r) = ft_directory \<or>
      m_ftype (n_meta r) = ft_regular \<and> n_children r = [] \<and> n_parent r \<noteq> None))"

text \<open>What is left of the tree is as it was.\<close>

definition same_node :: "'m TrackedNode \<Rightarrow> 'm TrackedNode \<Rightarrow> bool" where
  "same_node r r0 \<longleftrightarrow> n_meta r = n_meta r0 \<and> n_ready r = n_ready r0 \<and> n_parent r = n_parent r0 \<and>
     set (n_children r) \<subseteq> set (n_children r0)"

definition surv :: "'m tracked \<Rightarrow> 'm tracked \<Rightarrow> bool" where
  "surv F0 F \<longleftrightarrow> wf_tree F \<and> t_root F = t_root F0 \<and>
     (\<forall>n r. t_nodes F n = Some r \<longrightarrow> (\<exists>r0. t_nodes F0 n = Some r0 \<and> same_node r r0))"

definition inv_at where
  "inv_at F0 pth F pd ok rep sent T A \<longleftrightarrow> surv F0 F \<and> rep = (if ok then 0 else 1 :: nat) \<and>
     (\<forall>n q p. (n, q, p) \<in> set sent \<longrightarrow> p = pth n) \<and> owns T A \<and>
     eng pth (parent_of F0) (t_root F0) (ok \<and> Report \<notin># T) (parent_of F) (children_of F) A
       (\<lambda>d. count T (Bubble d)) pd (map fst sent)"

definition sync_inv :: "M tracked \<Rightarrow> (nid \<Rightarrow> string) \<Rightarrow> sync \<Rightarrow> bool" where
  "sync_inv F0 pth s \<longleftrightarrow>
     (\<exists>A. inv_at F0 pth (y_tree s) (y_pending s) (y_ok s) (y_reports s) (y_sent s) (y_tasks s) A)"

lemma surv_parent:
  assumes "surv F0 F" "parent_of F m \<noteq> None"
  shows "parent_of F m = parent_of F0 m"
proof -
  obtain r where r: "t_nodes F m = Some r" using assms(2) by auto
  then obtain r0 where "t_nodes F0 m = Some r0" "same_node r r0" using assms(1) by (auto simp: surv_def)
  with r show ?thesis by (simp add: same_node_def)
qed

lemma surv_wf: "surv F0 F \<Longrightarrow> wf_links (parent_of F) (children_of F) (t_next F) (t_root F0)"
  unfolding surv_def wf_tree_def by metis

lemma surv_node:
  assumes "scanned F0" "surv F0 F" "t_nodes F n = Some r"
  shows "n_ready r" "m_ftype (n_meta r) = ft_directory \<or>
      m_ftype (n_meta r) = ft_regular \<and> n_children r = [] \<and> n_parent r \<noteq> None"
    "n_parent r = None \<Longrightarrow> n = t_root F0"
proof -
  obtain r0 where r0: "t_nodes F0 n = Some r0" "same_node r r0" using assms(2,3) by (auto simp: surv_def)
  have S: "n_ready r0" "m_ftype (n_meta r0) = ft_directory \<or>
      m_ftype (n_meta r0) = ft_regular \<and> n_children r0 = [] \<and> n_parent r0 \<noteq> None"
    using assms(1) r0(1) by (auto simp: scanned_def)
  show "n_ready r" using S(1) r0(2) by (simp add: same_node_def)
  show "m_ftype (n_meta r) = ft_directory \<or>
      m_ftype (n_meta r) = ft_regular \<and> n_children r = [] \<and> n_parent r \<noteq> None"
    using S(2) r0(2) by (auto simp: same_node_def)
  show "n = t_root F0" if "n_parent r = None"
    using wf_linksD(3) [OF surv_wf [OF assms(2)]] assms(3) that by simp
qed

lemma surv_tick:
  assumes "surv F0 F" "tick render got now n delta F = Some (F', drawn)"
  shows "surv F0 F'"
proof -
  obtain r where r: "t_nodes F n = Some r"
    using assms(2) by (cases "t_nodes F n") (simp_all add: tick_def upd_node_def)
  have N: "t_nodes F' = (t_nodes F)(n \<mapsto> r\<lparr>n_done := n_done r + delta\<rparr>)"
    using assms(2) r by (auto simp: tick_def upd_node_def Let_def split: if_splits)
  have "wf_tree F" using assms(1) by (simp add: surv_def)
  then have "wf_tree F'" unfolding wf_tree_def tick_links [OF assms(2)] .
  then show ?thesis using assms(1) tick_links(4) [OF assms(2)] r N
    by (auto simp: surv_def same_node_def split: if_splits)
qed

lemma surv_remove:
  assumes sv: "surv F0 F" and rem: "remove n F = Some F'" and leaf: "children_of F n = []"
    and q: "parent_of F n = Some (Some q)"
  shows "surv F0 F'" "parent_of F' = (parent_of F)(n := None)"
    "children_of F' = (children_of F)(q := remove1 n (children_of F q))"
proof -
  have wf: "wf_tree F" using sv by (simp add: surv_def)
  obtain p where p: "parent_of F n = Some (Some p)" "parent_of F' = (parent_of F)(n := None)"
    "children_of F' = (children_of F)(p := remove1 n (children_of F p))"
    and me: "\<And>m. m \<noteq> n \<Longrightarrow> map_option n_meta (t_nodes F' m) = map_option n_meta (t_nodes F m)"
    and rd: "\<And>m. m \<noteq> n \<Longrightarrow> map_option n_ready (t_nodes F' m) = map_option n_ready (t_nodes F m)"
    using remove_leaf [OF wf rem leaf] by metis
  then show P: "parent_of F' = (parent_of F)(n := None)"
    and C: "children_of F' = (children_of F)(q := remove1 n (children_of F q))" using q by simp_all
  have rt: "t_root F' = t_root F" using remove_nodes [OF rem] by metis
  have "\<exists>r0. t_nodes F0 m = Some r0 \<and> same_node r r0" if m: "t_nodes F' m = Some r" for m r
  proof -
    have mn: "m \<noteq> n" using P m by (metis fun_upd_same option.distinct(1) parent_of_None)
    obtain r1 where r1: "t_nodes F m = Some r1" "n_meta r = n_meta r1" "n_ready r = n_ready r1"
      using me [OF mn] rd [OF mn] m by (cases "t_nodes F m") auto
    have "n_parent r = n_parent r1" using fun_cong [OF P, of m] mn m r1(1) by simp
    moreover have "set (n_children r) \<subseteq> set (n_children r1)"
      using fun_cong [OF C, of m] m r1(1) set_remove1_subset [of n "n_children r1"]
      by (simp split: if_splits)
    moreover obtain r0 where "t_nodes F0 m = Some r0" "same_node r1 r0" using sv r1(1) by (auto simp: surv_def)
    ultimately show ?thesis using r1 by (auto simp: same_node_def)
  qed
  then show "surv F0 F'" using remove_wf [OF wf rem] rt sv by (simp add: surv_def)
qed

end
