(* ===== verification/Sync_Run.thy ===== *)
theory Sync_Run
  imports Sync_Inv
begin

text \<open>
  The runs of the sync engine: no task crashes, some task can always run, every run ends, and at
  the end of a run without errors each node has been sent once, after its parent.
\<close>

section \<open>Every task keeps the invariant\<close>

definition task_good :: "M tracked \<Rightarrow> (nid \<Rightarrow> string) \<Rightarrow> task multiset \<Rightarrow> (task list \<times> sync) outcome \<Rightarrow> bool" where
  "task_good F0 pth R out \<longleftrightarrow> out \<noteq> Crash \<and>
     (\<forall>new s'. out = Ran (new, s') \<longrightarrow> sync_inv F0 pth (s'\<lparr>y_tasks := R + mset new\<rparr>))"

lemma task_good_Ran [simp]:
  "task_good F0 pth R (Ran (new, s')) \<longleftrightarrow> sync_inv F0 pth (s'\<lparr>y_tasks := R + mset new\<rparr>)"
  by (simp add: task_good_def)

lemma task_good_Blocked [simp]: "task_good F0 pth R Blocked"
  by (simp add: task_good_def)

text \<open>The invariant with a task of \<open>recurse\<close> at hand.\<close>

definition at_rec where
  "at_rec F0 pth path n ph R s A \<longleftrightarrow> surv F0 (y_tree s) \<and> y_reports s = (if y_ok s then 0 else 1) \<and>
     (\<forall>n q p. (n, q, p) \<in> set (y_sent s) \<longrightarrow> p = pth n) \<and> owns (add_mset (Rec path n ph) R) A \<and>
     eng pth (parent_of F0) (t_root F0) (y_ok s \<and> Report \<notin># R) (parent_of (y_tree s)) (children_of (y_tree s)) A
       (\<lambda>d. count R (Bubble d)) (y_pending s) (map fst (y_sent s))"

lemma at_recI:
  "sync_inv F0 pth s \<Longrightarrow> y_tasks s = add_mset (Rec path n ph) R \<Longrightarrow> \<exists>A. at_rec F0 pth path n ph R s A"
  by (auto simp: sync_inv_def inv_at_def at_rec_def)

lemma at_recD:
  "at_rec F0 pth path n ph R s A \<Longrightarrow> sync_inv F0 pth (s\<lparr>y_tasks := add_mset (Rec path n ph) R\<rparr>)"
  by (auto simp: sync_inv_def inv_at_def at_rec_def)

lemma at_rec_eng:
  assumes "at_rec F0 pth path n ph R s A"
  shows "eng pth (parent_of F0) (t_root F0) (y_ok s \<and> Report \<notin># R) (parent_of (y_tree s)) (children_of (y_tree s)) A
       (\<lambda>d. count R (Bubble d)) (y_pending s) (map fst (y_sent s))"
    "surv F0 (y_tree s)" "owns (add_mset (Rec path n ph) R) A"
  using assms by (simp_all add: at_rec_def)

lemma at_rec_node:
  assumes "at_rec F0 pth path n ph R s A"
  shows "A n = Some (Rec path n ph)" "path = pth n" "phase_ok (children_of (y_tree s)) (t_root F0) (y_pending s) n ph"
    "\<exists>r. t_nodes (y_tree s) n = Some r"
proof -
  note a = assms [unfolded at_rec_def]
  show A: "A n = Some (Rec path n ph)" using owns_take(1) [of "Rec path n ph" R A n] a by simp
  have "act_ok pth (parent_of (y_tree s)) (children_of (y_tree s)) (t_root F0) (y_pending s) A"
    using a engD(1) by blast
  note R = act_Rec [OF this A]
  show "path = pth n" "phase_ok (children_of (y_tree s)) (t_root F0) (y_pending s) n ph" by (rule R)+
  show "\<exists>r. t_nodes (y_tree s) n = Some r" using R(1) by auto
qed

lemma at_rec_phase:
  assumes a: "at_rec F0 pth path n ph R s A" and ph: "\<not> late ph" "\<not> late ph'" "post ph' = post ph"
    "phase_ok (children_of (y_tree s)) (t_root F0) (y_pending s) n ph'"
    and s': "surv F0 (y_tree s')" "parent_of (y_tree s') = parent_of (y_tree s)"
      "children_of (y_tree s') = children_of (y_tree s)"
      "y_pending s' = y_pending s" "y_ok s' = y_ok s" "y_reports s' = y_reports s" "y_sent s' = y_sent s"
  shows "sync_inv F0 pth (s'\<lparr>y_tasks := add_mset (Rec path n ph') R\<rparr>)"
proof -
  note a' = a [unfolded at_rec_def]
  have "eng pth (parent_of F0) (t_root F0) (y_ok s \<and> Report \<notin># R) (parent_of (y_tree s)) (children_of (y_tree s))
      (A(n \<mapsto> Rec path n ph')) (\<lambda>d. count R (Bubble d)) (y_pending s) (map fst (y_sent s))"
    by (rule eng_phase [OF at_rec_eng(1) [OF a] at_rec_node(1) [OF a] ph surv_parent [OF at_rec_eng(2) [OF a]]])
  moreover have "owns (add_mset (Rec path n ph') R) (A(n \<mapsto> Rec path n ph'))"
    by (rule owns_change [where t = "Rec path n ph"]) (use a' in simp_all)
  ultimately have "at_rec F0 pth path n ph' R s' (A(n \<mapsto> Rec path n ph'))"
    using a' s' by (simp add: at_rec_def)
  then show ?thesis by (rule at_recD)
qed

lemma at_rec_drop:
  assumes a: "at_rec F0 pth path n ph R s A" and ph: "\<not> late ph"
  shows "sync_inv F0 pth (s\<lparr>y_tasks := add_mset Report R\<rparr>)" "\<not> y_ok s \<Longrightarrow> sync_inv F0 pth (s\<lparr>y_tasks := R\<rparr>)"
proof -
  note a' = a [unfolded at_rec_def]
  have e: "eng pth (parent_of F0) (t_root F0) False (parent_of (y_tree s)) (children_of (y_tree s))
      (A(n := None)) (\<lambda>d. count R (Bubble d)) (y_pending s) (map fst (y_sent s))"
    by (rule eng_drop [OF at_rec_eng(1) [OF a] at_rec_node(1) [OF a] ph])
  have o: "owns R (A(n := None))" by (rule owns_take [where t = "Rec path n ph"]) (use a' in simp_all)
  show "sync_inv F0 pth (s\<lparr>y_tasks := add_mset Report R\<rparr>)"
    unfolding sync_inv_def inv_at_def by (rule exI [of _ "A(n := None)"]) (use a' e o in simp)
  show "sync_inv F0 pth (s\<lparr>y_tasks := R\<rparr>)" if "\<not> y_ok s"
    unfolding sync_inv_def inv_at_def by (rule exI [of _ "A(n := None)"]) (use that a' e o in simp)
qed

lemma rec_early_ok:
  assumes a: "at_rec F0 pth path n ph R s A" and sc: "scanned F0" and ph: "\<not> post ph"
  shows "task_good F0 pth R (recurse_step render ans path n ph (s\<lparr>y_tasks := R\<rparr>))"
proof -
  have late: "\<not> late ph" using ph by (cases ph) simp_all
  have pd: "y_pending s n = None" using at_rec_node(3) [OF a, unfolded phase_ok_def] late by blast
  obtain r where r: "t_nodes (y_tree s) n = Some r" using at_rec_node(4) [OF a] by blast
  have sv: "surv F0 (y_tree s)" by (rule at_rec_eng(2) [OF a])
  have go: "sync_inv F0 pth (s'\<lparr>y_tasks := add_mset (Rec path n ph') R\<rparr>)"
    if "\<not> post ph'" "surv F0 (y_tree s')" "parent_of (y_tree s') = parent_of (y_tree s)"
      "children_of (y_tree s') = children_of (y_tree s)"
      "y_pending s' = y_pending s" "y_ok s' = y_ok s" "y_reports s' = y_reports s" "y_sent s' = y_sent s" for ph' s'
  proof (rule at_rec_phase [OF a late _ _ _ that(2-8)])
    show "\<not> late ph'" using that(1) by (cases ph') simp_all
    show "post ph' = post ph" using that(1) ph by simp
    show "phase_ok (children_of (y_tree s)) (t_root F0) (y_pending s) n ph'"
      using that(1) pd by (cases ph') (simp_all add: phase_ok_def)
  qed
  show ?thesis
  proof (cases ph)
    case P_start
    then show ?thesis using go [of P_sock s] at_rec_drop(2) [OF a late] sv by simp
  next
    case P_sock
    then show ?thesis
      using go [of P_load s] go [of P_load "s\<lparr>y_port := y_port s + 1\<rparr>"] sv by simp
  next
    case P_load
    then show ?thesis using go [of "P_inc (y_seq s)" s] sv by simp
  next
    case (P_inc q)
    then show ?thesis using go [of "P_store q (y_seq s)" s] sv by simp
  next
    case (P_store q g)
    then show ?thesis using go [of "P_head q" "s\<lparr>y_seq := next_seq g\<rparr>"] sv by simp
  next
    case (P_head q)
    then show ?thesis
      using r go [of "P_send q (if m_ftype (n_meta r) = ft_regular then unat (m_fsize (n_meta r)) else 0)" s]
        at_rec_drop(1) [OF a late] sv by simp
  next
    case (P_send q k)
    show ?thesis
    proof (cases "k = 0")
      case True
      have e: "eng pth (parent_of F0) (t_root F0) (y_ok s \<and> Report \<notin># R) (parent_of (y_tree s))
          (children_of (y_tree s)) (A(n \<mapsto> Rec path n P_switch)) (\<lambda>d. count R (Bubble d)) (y_pending s)
          (map fst (y_sent s) @ [n])"
        by (rule eng_sent [OF at_rec_eng(1) [OF a] _ surv_parent [OF sv]])
          (use at_rec_node(1) [OF a] P_send True in simp)
      have "owns (add_mset (Rec path n P_switch) R) (A(n \<mapsto> Rec path n P_switch))"
        by (rule owns_change [OF at_rec_eng(3) [OF a]]) simp_all
      with e have "at_rec F0 pth path n P_switch R (s\<lparr>y_sent := y_sent s @ [(n, q, path)]\<rparr>) (A(n \<mapsto> Rec path n P_switch))"
        using a at_rec_node(2) [OF a] by (auto simp: at_rec_def)
      from at_recD [OF this] show ?thesis using P_send True by simp
    next
      case False
      define w where "w = min (a_wrote ans) (min CHUNK_SIZE k)"
      have "tick render (a_got ans) (a_now ans) n (of_nat w) (y_tree s) \<noteq> None"
        using r by (simp add: tick_def upd_node_def Let_def del: not_None_eq)
      then obtain F d where F: "tick render (a_got ans) (a_now ans) n (of_nat w) (y_tree s) = Some (F, d)" by auto
      show ?thesis
        using P_send False F go [of "P_send q (k - w)" "s\<lparr>y_tree := F\<rparr>"] surv_tick [OF sv F] tick_links [OF F]
          at_rec_drop(1) [OF a late]
        by (simp add: Let_def w_def [symmetric])
    qed
  qed (use ph in simp_all)
qed

lemma locked_free:
  assumes "owns (add_mset t R) A" "\<not> locked q (s\<lparr>y_tasks := R\<rparr>)" "own_of t \<noteq> Some q"
  shows "A q \<noteq> Some (Rec p q (P_iter rest))"
proof
  assume A: "A q = Some (Rec p q (P_iter rest))"
  then have "Rec p q (P_iter rest) \<in># add_mset t R" "Rec p q (P_iter rest) \<noteq> t"
    using owns_in(1) [OF assms(1) A] assms(3) by auto
  then have "Rec p q (P_iter rest) \<in># R" by auto
  then show False using assms(2) by (force simp: locked_def)
qed

text \<open>The removal of a leaf, from \<open>recurse\<close> and from \<open>bubble\<close>.\<close>

lemma remove_ok:
  assumes sv: "surv F0 (y_tree s)" and rep: "y_reports s = (if y_ok s then 0 else 1)"
    and snt: "\<And>n q p. (n, q, p) \<in> set (y_sent s) \<Longrightarrow> p = pth n" and ow: "owns (add_mset t R) A"
    and own: "own_of t = Some n"
    and e: "eng pth (parent_of F0) (t_root F0) (y_ok s \<and> Report \<notin># R) (parent_of (y_tree s))
       (children_of (y_tree s)) A (\<lambda>d. count R (Bubble d)) (y_pending s) (map fst (y_sent s))"
    and r: "t_nodes (y_tree s) n = Some r" and q: "n_parent r = Some q" and leaf: "n_children r = []"
    and bn: "Bubble n \<notin># R" and nL: "n \<in> fst ` set (y_sent s)" and lk: "\<not> locked q (s\<lparr>y_tasks := R\<rparr>)"
  shows "\<exists>F. remove n (y_tree s) = Some F \<and>
    sync_inv F0 pth (s\<lparr>y_tree := F, y_pending := (y_pending s)(n := None), y_tasks := add_mset (Bubble q) R\<rparr>)"
proof -
  have par: "parent_of (y_tree s) n = Some (Some q)" and ch: "children_of (y_tree s) n = []"
    using r q leaf by simp_all
  note wf = surv_wf [OF sv]
  note W = wf_linksD [OF wf]
  have nq: "n \<in> set (children_of (y_tree s) q)" by (rule W(4) [OF par])
  then obtain rq where rq: "t_nodes (y_tree s) q = Some rq"
    by (cases "t_nodes (y_tree s) q") (simp_all add: children_of_def)
  obtain F where F: "remove n (y_tree s) = Some F" using r q rq by (simp add: remove_def upd_node_def)
  note S = surv_remove [OF sv F ch par]
  have nqq: "q \<noteq> n" using W(7) [OF nq] by simp
  have free: "A q \<noteq> Some (Rec p q (P_iter rest))" for p rest
    by (rule locked_free [OF ow lk]) (use own nqq in simp)
  have An: "A n \<noteq> None" using owns_take(1) [OF ow own] by simp
  have "eng pth (parent_of F0) (t_root F0) (y_ok s \<and> Report \<notin># R) (parent_of F) (children_of F) (A(n := None))
      ((\<lambda>d. count R (Bubble d))(q := Suc (count R (Bubble q)))) ((y_pending s)(n := None)) (map fst (y_sent s))"
    unfolding S(2,3)
    by (rule eng_remove [OF e An par ch _ _ free wf]) (use bn nL in \<open>simp_all add: not_in_iff\<close>)
  moreover have "(\<lambda>d. count R (Bubble d))(q := Suc (count R (Bubble q))) = (\<lambda>d. count (add_mset (Bubble q) R) (Bubble d))"
    by (simp add: fun_eq_iff)
  ultimately have "inv_at F0 pth F ((y_pending s)(n := None)) (y_ok s) (y_reports s) (y_sent s)
      (add_mset (Bubble q) R) (A(n := None))"
    using S(1) rep snt owns_take(2) [OF ow own] by (simp add: inv_at_def)
  then show ?thesis using F by (auto simp: sync_inv_def)
qed

lemma rec_switch_ok:
  assumes a: "at_rec F0 pth path n P_switch R s A" and sc: "scanned F0"
  shows "task_good F0 pth R (recurse_step render ans path n P_switch (s\<lparr>y_tasks := R\<rparr>))"
proof -
  obtain r where r: "t_nodes (y_tree s) n = Some r" using at_rec_node(4) [OF a] by blast
  have sv: "surv F0 (y_tree s)" by (rule at_rec_eng(2) [OF a])
  note N = surv_node [OF sc sv r] and W = wf_linksD [OF surv_wf [OF sv]]
  have pd: "y_pending s n = None" using at_rec_node(3) [OF a, unfolded phase_ok_def] by simp
  have root: "n \<noteq> t_root F0" if "n_parent r \<noteq> None" using W(1) r that by auto
  have go: "sync_inv F0 pth (s\<lparr>y_tasks := add_mset (Rec path n ph') R\<rparr>)"
    if "\<not> late ph'" "post ph'" "phase_ok (children_of (y_tree s)) (t_root F0) (y_pending s) n ph'" for ph'
    by (rule at_rec_phase [OF a _ that(1) _ that(3)]) (use that(2) sv in simp_all)
  have rem: "sync_inv F0 pth (s\<lparr>y_tasks := add_mset (Rec path n P_remove) R\<rparr>)"
    if "n_children r = []" "n_parent r \<noteq> None"
    by (rule go) (use that r pd root in \<open>simp_all add: phase_ok_def\<close>)
  have emp: "sync_inv F0 pth (s\<lparr>y_tasks := add_mset (Rec path n (P_emplace (length (n_children r)))) R\<rparr>)"
    if "n_children r \<noteq> [] \<or> n_parent r = None"
    by (rule go) (use that r pd N(3) in \<open>auto simp: phase_ok_def\<close>)
  show ?thesis using r N(2) rem emp by (auto simp: Let_def simp del: not_None_eq)
qed

lemma at_rec_sent:
  assumes a: "at_rec F0 pth path n ph R s A" and ph: "post ph"
  shows "n \<in> fst ` set (y_sent s)"
proof -
  have sv: "surv F0 (y_tree s)" by (rule at_rec_eng(2) [OF a])
  obtain r where r: "t_nodes (y_tree s) n = Some r" using at_rec_node(4) [OF a] by blast
  then have "parent_of F0 n \<noteq> None" using surv_parent [OF sv, of n] by (metis option.distinct(1) parent_of_Some)
  then show ?thesis
    using sentD(7) [OF engD(4) [OF at_rec_eng(1) [OF a]] _ at_rec_node(1) [OF a] ph] by simp
qed

lemma rec_remove_ok:
  assumes a: "at_rec F0 pth path n P_remove R s A"
  shows "task_good F0 pth R (recurse_step render ans path n P_remove (s\<lparr>y_tasks := R\<rparr>))"
proof -
  note a' = a [unfolded at_rec_def]
  obtain r where r: "t_nodes (y_tree s) n = Some r" using at_rec_node(4) [OF a] by blast
  have sv: "surv F0 (y_tree s)" by (rule at_rec_eng(2) [OF a])
  have P: "y_pending s n = None" "n_children r = []" "n \<noteq> t_root F0"
    using at_rec_node(3) [OF a] r by (simp_all add: phase_ok_def)
  obtain q where q: "n_parent r = Some q"
    using wf_linksD(3) [OF surv_wf [OF sv], of n] P(3) r by (cases "n_parent r") simp_all
  have bn: "Bubble n \<notin># R" using pend_None [OF engD(2) [OF at_rec_eng(1) [OF a]] P(1)] by (simp add: not_in_iff)
  have pd: "(y_pending s)(n := None) = y_pending s" using P(1) by auto
  show ?thesis
  proof (cases "locked q (s\<lparr>y_tasks := R\<rparr>)")
    case False
    obtain F where F: "remove n (y_tree s) = Some F"
      "sync_inv F0 pth (s\<lparr>y_tree := F, y_pending := (y_pending s)(n := None), y_tasks := add_mset (Bubble q) R\<rparr>)"
      using remove_ok [OF sv _ _ at_rec_eng(3) [OF a] _ at_rec_eng(1) [OF a] r q P(2) bn at_rec_sent [OF a] False]
        a' by auto
    then show ?thesis using r q False unfolding pd by simp
  qed (use r q in simp)
qed

lemma rec_emplace_ok:
  assumes a: "at_rec F0 pth path n (P_emplace k) R s A"
  shows "task_good F0 pth R (recurse_step render ans path n (P_emplace k) (s\<lparr>y_tasks := R\<rparr>))"
proof -
  note e = at_rec_eng [OF a] and N = at_rec_node [OF a]
  have pd: "y_pending s n = None" using N(3) [unfolded phase_ok_def, THEN conjunct1] by simp
  have "owns (add_mset (Rec path n P_wait) R) (A(n \<mapsto> Rec path n P_wait))"
    by (rule owns_change [OF e(3)]) simp_all
  then have "at_rec F0 pth path n P_wait R (s\<lparr>y_pending := (y_pending s)(n \<mapsto> k)\<rparr>) (A(n \<mapsto> Rec path n P_wait))"
    using a eng_emplace [OF e(1) N(1) surv_parent [OF e(2)]] by (simp add: at_rec_def)
  from at_recD [OF this] show ?thesis using pd by simp
qed

lemma rec_wait_ok:
  assumes a: "at_rec F0 pth path n P_wait R s A" and sc: "scanned F0"
  shows "task_good F0 pth R (recurse_step render ans path n P_wait (s\<lparr>y_tasks := R\<rparr>))"
proof -
  note e = at_rec_eng [OF a] and N = at_rec_node [OF a]
  let ?t = "Rec path n (P_iter (children_of (y_tree s) n))"
  obtain r where r: "t_nodes (y_tree s) n = Some r" using N(4) by blast
  have "owns (add_mset ?t R) (A(n \<mapsto> ?t))" by (rule owns_change [OF e(3)]) simp_all
  then have "at_rec F0 pth path n (P_iter (children_of (y_tree s) n)) R s (A(n \<mapsto> ?t))"
    using a eng_wait [OF e(1) N(1) surv_wf [OF e(2)] surv_parent [OF e(2)]] by (simp add: at_rec_def)
  from at_recD [OF this] show ?thesis using r surv_node(1) [OF sc e(2) r] by (simp add: iter_children_def)
qed

lemma rec_iter_ok:
  assumes a: "at_rec F0 pth path n (P_iter cs) R s A" and pth: "paths_ok pth F0"
  shows "task_good F0 pth R (recurse_step render ans path n (P_iter cs) (s\<lparr>y_tasks := R\<rparr>))"
proof (cases cs)
  case Nil
  note e = at_rec_eng [OF a] and N = at_rec_node [OF a]
  have "inv_at F0 pth (y_tree s) (y_pending s) (y_ok s) (y_reports s) (y_sent s) R (A(n := None))"
    using a eng_iter_end [OF e(1) N(1) [unfolded Nil]] owns_take(2) [OF e(3), of n] by (simp add: inv_at_def at_rec_def)
  then show ?thesis using Nil by (auto simp: sync_inv_def)
next
  case (Cons c rest)
  note e = at_rec_eng [OF a] and N = at_rec_node [OF a]
  let ?t = "Rec path n (P_iter rest)" and ?u = "Rec (pth c) c P_start"
  note I = eng_iter [OF e(1) N(1) [unfolded Cons] surv_wf [OF e(2)] surv_parent [OF e(2)]]
  have "parent_of (y_tree s) c \<noteq> None" using I(3) by simp
  then obtain r where r: "t_nodes (y_tree s) c = Some r" by auto
  obtain r0 where r0: "t_nodes F0 c = Some r0" "same_node r r0" using e(2) r by (auto simp: surv_def)
  have "c \<in> set (children_of (y_tree s) n)" using N(3) by (simp add: phase_ok_def Cons)
  moreover obtain rn where rn: "t_nodes (y_tree s) n = Some rn" using N(4) by blast
  moreover obtain rn0 where "t_nodes F0 n = Some rn0" "same_node rn rn0" using e(2) rn by (auto simp: surv_def)
  ultimately have "c \<in> set (children_of F0 n)" by (auto simp: same_node_def)
  then have pc: "pth c = path_append path (m_name (n_meta r))"
    using pth r0 N(2) by (simp add: paths_ok_def meta_of_def same_node_def)
  have "owns (add_mset ?u (add_mset ?t R)) (A(n \<mapsto> ?t, c \<mapsto> ?u))"
    by (rule owns_put [OF owns_change [OF e(3)]]) (use I(1,2) in simp_all)
  then have "inv_at F0 pth (y_tree s) (y_pending s) (y_ok s) (y_reports s) (y_sent s)
      (add_mset ?u (add_mset ?t R)) (A(n \<mapsto> ?t, c \<mapsto> ?u))"
    using a I(4) by (simp add: inv_at_def at_rec_def)
  then show ?thesis using r pc by (auto simp: sync_inv_def Cons add_mset_commute)
qed

lemma rec_ok:
  assumes inv: "sync_inv F0 pth s" and t: "y_tasks s = add_mset (Rec path n ph) R"
    and sc: "scanned F0" and pth: "paths_ok pth F0"
  shows "task_good F0 pth R (recurse_step render ans path n ph (s\<lparr>y_tasks := R\<rparr>))"
proof -
  obtain A where a: "at_rec F0 pth path n ph R s A" using at_recI [OF inv t] by blast
  show ?thesis
  proof (cases "post ph")
    case True
    then show ?thesis
    proof (cases ph)
      case P_switch
      show ?thesis unfolding P_switch by (rule rec_switch_ok [OF a [unfolded P_switch] sc])
    next
      case P_remove
      show ?thesis unfolding P_remove by (rule rec_remove_ok [OF a [unfolded P_remove]])
    next
      case (P_emplace k)
      show ?thesis unfolding P_emplace by (rule rec_emplace_ok [OF a [unfolded P_emplace]])
    next
      case P_wait
      show ?thesis unfolding P_wait by (rule rec_wait_ok [OF a [unfolded P_wait] sc])
    next
      case (P_iter cs)
      show ?thesis unfolding P_iter by (rule rec_iter_ok [OF a [unfolded P_iter] pth])
    qed simp_all
  next
    case False
    show ?thesis by (rule rec_early_ok [OF a sc False])
  qed
qed

lemma report_ok:
  assumes inv: "sync_inv F0 pth s" and t: "y_tasks s = add_mset Report R"
  shows "task_good F0 pth R (report_step (s\<lparr>y_tasks := R\<rparr>))"
proof -
  obtain A where a: "inv_at F0 pth (y_tree s) (y_pending s) (y_ok s) (y_reports s) (y_sent s) (add_mset Report R) A"
    using inv t by (auto simp: sync_inv_def)
  then have "inv_at F0 pth (y_tree s) (y_pending s) False 1 (y_sent s) R A"
    by (simp add: inv_at_def)
  moreover have "y_reports s = (if y_ok s then 0 else 1)" using a by (simp add: inv_at_def)
  ultimately show ?thesis by (cases "y_ok s") (auto simp: report_step_def sync_inv_def)
qed

lemma bubble_ok:
  assumes inv: "sync_inv F0 pth s" and t: "y_tasks s = add_mset (Bubble d) R"
  shows "task_good F0 pth R (bubble_step d (s\<lparr>y_tasks := R\<rparr>))"
    and "\<exists>out. bubble_step d (s\<lparr>y_tasks := R\<rparr>) = Ran out"
proof -
  obtain A where a: "inv_at F0 pth (y_tree s) (y_pending s) (y_ok s) (y_reports s) (y_sent s) (add_mset (Bubble d) R) A"
    using inv t by (auto simp: sync_inv_def)
  have e: "eng pth (parent_of F0) (t_root F0) (y_ok s \<and> Report \<notin># R) (parent_of (y_tree s)) (children_of (y_tree s)) A
      (\<lambda>x. count (add_mset (Bubble d) R) (Bubble x)) (y_pending s) (map fst (y_sent s))" and ow: "owns R A"
    using a by (simp_all add: inv_at_def)
  obtain k where k: "y_pending s d = Some k"
    using pend_None [OF engD(2) [OF e], of d] by (cases "y_pending s d") simp_all
  define A' where "A' = (if k = 1 then A(d \<mapsto> Zero d) else A)"
  have b: "count (add_mset (Bubble d) R) (Bubble d) = Suc (count R (Bubble d))" by simp
  note E = eng_bubble [OF e b k A'_def]
  have B: "(\<lambda>x. count (add_mset (Bubble d) R) (Bubble x))(d := count R (Bubble d)) = (\<lambda>x. count R (Bubble x))"
    by (auto simp: fun_eq_iff)
  have z: "Zero d \<notin># R"
  proof
    assume "Zero d \<in># R"
    from owns_mem [OF ow this, of d] E(1) show False by simp
  qed
  let ?new = "if k = 1 then [Zero d] else []"
  have out: "bubble_step d (s\<lparr>y_tasks := R\<rparr>) =
      Ran (?new, s\<lparr>y_tasks := R, y_pending := (y_pending s)(d \<mapsto> k - 1)\<rparr>)"
    using E(2) z k by (auto simp: bubble_step_def Let_def)
  then show "\<exists>out. bubble_step d (s\<lparr>y_tasks := R\<rparr>) = Ran out" by blast
  have "owns (R + mset ?new) A'" using owns_put [OF ow, of "Zero d" d] ow E(1) by (simp add: A'_def)
  moreover have "(\<lambda>x. count (R + mset ?new) (Bubble x)) = (\<lambda>x. count R (Bubble x))" by auto
  moreover have "Report \<in># R + mset ?new \<longleftrightarrow> Report \<in># R" by simp
  ultimately have "inv_at F0 pth (y_tree s) ((y_pending s)(d \<mapsto> k - 1)) (y_ok s) (y_reports s) (y_sent s) (R + mset ?new) A'"
    using a E(3) unfolding inv_at_def B by simp
  then show "task_good F0 pth R (bubble_step d (s\<lparr>y_tasks := R\<rparr>))"
    unfolding out task_good_Ran sync_inv_def by (intro exI [of _ A']) simp
qed

lemma zero_facts:
  assumes inv: "sync_inv F0 pth s" and t: "y_tasks s = add_mset (Zero d) R"
  obtains A r where "surv F0 (y_tree s)" "owns (add_mset (Zero d) R) A"
    "inv_at F0 pth (y_tree s) (y_pending s) (y_ok s) (y_reports s) (y_sent s) (add_mset (Zero d) R) A"
    "eng pth (parent_of F0) (t_root F0) (y_ok s \<and> Report \<notin># R) (parent_of (y_tree s)) (children_of (y_tree s)) A
       (\<lambda>d. count R (Bubble d)) (y_pending s) (map fst (y_sent s))"
    "t_nodes (y_tree s) d = Some r" "n_children r = []" "Bubble d \<notin># R" "d \<in> fst ` set (y_sent s)" "A d = Some (Zero d)"
proof -
  obtain A where a: "inv_at F0 pth (y_tree s) (y_pending s) (y_ok s) (y_reports s) (y_sent s) (add_mset (Zero d) R) A"
    using inv t by (auto simp: sync_inv_def)
  have e: "eng pth (parent_of F0) (t_root F0) (y_ok s \<and> Report \<notin># R) (parent_of (y_tree s)) (children_of (y_tree s)) A
      (\<lambda>d. count R (Bubble d)) (y_pending s) (map fst (y_sent s))"
    and ow: "owns (add_mset (Zero d) R) A" and sv: "surv F0 (y_tree s)"
    using a by (simp_all add: inv_at_def)
  have Ad: "A d = Some (Zero d)" using owns_take(1) [OF ow] by simp
  have ad: "parent_of (y_tree s) d \<noteq> None" "y_pending s d = Some 0"
    using engD(1) [OF e, unfolded act_ok_def, rule_format, OF Ad] by simp_all
  obtain r where r: "t_nodes (y_tree s) d = Some r" using ad(1) by auto
  have "0 = length (children_of (y_tree s) d) + count R (Bubble d)" by (rule pendD(2) [OF engD(2) [OF e] ad(2)])
  then have z: "n_children r = []" "Bubble d \<notin># R" using r by (simp_all add: not_in_iff)
  have "parent_of F0 d \<noteq> None" using surv_parent [OF sv ad(1)] ad(1) by simp
  then have L: "d \<in> fst ` set (y_sent s)" using sentD(6) [OF engD(4) [OF e]] ad(2) by simp
  show thesis by (rule that [OF sv ow a e r z L Ad])
qed

lemma zero_ok:
  assumes inv: "sync_inv F0 pth s" and t: "y_tasks s = add_mset (Zero d) R"
  shows "task_good F0 pth R (zero_step d (s\<lparr>y_tasks := R\<rparr>))"
proof -
  obtain A r where sv: "surv F0 (y_tree s)" and ow: "owns (add_mset (Zero d) R) A"
    and a: "inv_at F0 pth (y_tree s) (y_pending s) (y_ok s) (y_reports s) (y_sent s) (add_mset (Zero d) R) A"
    and e: "eng pth (parent_of F0) (t_root F0) (y_ok s \<and> Report \<notin># R) (parent_of (y_tree s)) (children_of (y_tree s)) A
       (\<lambda>d. count R (Bubble d)) (y_pending s) (map fst (y_sent s))"
    and r: "t_nodes (y_tree s) d = Some r" and z: "n_children r = []" "Bubble d \<notin># R" "d \<in> fst ` set (y_sent s)"
    and Ad: "A d = Some (Zero d)" by (rule zero_facts [OF inv t])
  note a' = a [unfolded inv_at_def]
  show ?thesis
  proof (cases "n_parent r")
    case None
    then have d: "d = t_root F0" using wf_linksD(3) [OF surv_wf [OF sv], of d] r by simp
    have "inv_at F0 pth (y_tree s) ((y_pending s)(d := None)) (y_ok s) (y_reports s) (y_sent s) R (A(d := None))"
      using a' owns_take(2) [OF ow, of d] eng_zero_root [OF e Ad [unfolded d] surv_wf [OF sv] surv_parent [OF sv]]
      by (simp add: inv_at_def d)
    then show ?thesis using r None by (auto simp: zero_step_def sync_inv_def)
  next
    case (Some q)
    show ?thesis
    proof (cases "locked q (s\<lparr>y_tasks := R\<rparr>)")
      case False
      have rep: "y_reports s = (if y_ok s then 0 else 1)"
        and snt: "\<And>n q p. (n, q, p) \<in> set (y_sent s) \<Longrightarrow> p = pth n" using a' by blast+
      have "\<exists>F. remove d (y_tree s) = Some F \<and>
        sync_inv F0 pth (s\<lparr>y_tree := F, y_pending := (y_pending s)(d := None), y_tasks := add_mset (Bubble q) R\<rparr>)"
        by (rule remove_ok [OF sv rep _ ow _ e r Some z False]) (simp_all add: snt)
      then obtain F where F: "remove d (y_tree s) = Some F"
        "sync_inv F0 pth (s\<lparr>y_tree := F, y_pending := (y_pending s)(d := None), y_tasks := add_mset (Bubble q) R\<rparr>)"
        by blast
      then show ?thesis using r Some False by (simp add: zero_step_def)
    qed (use r Some in \<open>simp add: zero_step_def\<close>)
  qed
qed

text \<open>Every task, from a state that the engine reaches.\<close>

lemma task_ok:
  assumes "scanned F0" "paths_ok pth F0" "sync_inv F0 pth s" "y_tasks s = add_mset t R"
  shows "task_good F0 pth R (run_task render ans t (s\<lparr>y_tasks := R\<rparr>))"
  using assms rec_ok report_ok bubble_ok(1) zero_ok by (cases t) simp_all

definition engine_good :: "M tracked \<Rightarrow> (nid \<Rightarrow> string) \<Rightarrow> sync \<Rightarrow> bool" where
  "engine_good F0 pth s \<longleftrightarrow> scanned F0 \<and> paths_ok pth F0 \<and> sync_inv F0 pth s"

interpretation engine: transition "sync_step render" "engine_good F0 pth" for render F0 pth
proof
  fix s s' assume g: "engine_good F0 pth s" and st: "sync_step render s s'"
  from st show "engine_good F0 pth s'"
  proof cases
    case (run t R a new s1)
    then show ?thesis using task_ok [of F0 pth s t R render a] g
      by (simp add: engine_good_def task_good_def)
  qed
qed

lemma engine_safe: "engine_good F0 pth s \<Longrightarrow> \<not> sync_crash render s"
  using task_ok by (fastforce simp: sync_crash_def engine_good_def task_good_def)

lemma start_good:
  assumes "scanned F" "paths_ok pth F"
  shows "engine_good F pth (sync_start base (pth (t_root F)) F)"
proof -
  let ?t = "Rec (pth (t_root F)) (t_root F) P_start" and ?rt = "t_root F"
  have wf: "wf_tree F" using assms(1) by (simp add: scanned_def)
  note W = wf_linksD [OF wf [unfolded wf_tree_def]]
  have "act_ok pth (parent_of F) (children_of F) ?rt Map.empty [?rt \<mapsto> ?t]"
    using W(1) by (simp add: act_ok_def phase_ok_def del: parent_of_None)
  moreover have "pend_ok (parent_of F) (children_of F) ?rt [?rt \<mapsto> ?t] (\<lambda>d. 0) Map.empty" by (simp add: pend_ok_def)
  moreover have "touch_ok (parent_of F) [?rt \<mapsto> ?t] Map.empty []" using W(1) by (auto simp: touch_ok_def)
  moreover have "sent_ok (parent_of F) (parent_of F) [?rt \<mapsto> ?t] Map.empty []"
    by (auto simp: sent_ok_def parents_first_def split: if_splits)
  moreover have "prog_ok (parent_of F) (children_of F) ?rt [?rt \<mapsto> ?t] Map.empty []"
    by (simp add: prog_ok_def iterated_def)
  ultimately have "eng pth (parent_of F) ?rt True (parent_of F) (children_of F) [?rt \<mapsto> ?t] (\<lambda>d. 0) Map.empty []"
    by (simp add: eng_def)
  moreover have "owns {#?t#} [?rt \<mapsto> ?t]" by (simp add: owns_def)
  moreover have "surv F F" using wf by (simp add: surv_def same_node_def)
  ultimately have "inv_at F pth F Map.empty True 0 [] {#?t#} [?rt \<mapsto> ?t]" by (simp add: inv_at_def)
  then show ?thesis using assms by (auto simp: engine_good_def sync_inv_def sync_start_def)
qed

section \<open>Some task can always run\<close>

lemma step_of:
  assumes "t \<in># y_tasks s" "\<And>R. y_tasks s = add_mset t R \<Longrightarrow> \<exists>a out. run_task render a t (s\<lparr>y_tasks := R\<rparr>) = Ran out"
  shows "\<exists>s'. sync_step render s s'"
proof -
  obtain R where R: "y_tasks s = add_mset t R" using assms(1) by (meson multi_member_split)
  obtain a out where o: "run_task render a t (s\<lparr>y_tasks := R\<rparr>) = Ran out" using assms(2) [OF R] by blast
  obtain new s' where "out = (new, s')" by (cases out)
  with o have "run_task render a t (s\<lparr>y_tasks := R\<rparr>) = Ran (new, s')" by simp
  from sync_step.run [OF R this] show ?thesis by blast
qed

text \<open>A task that does not wait for a mutex runs.\<close>

lemma unlocked_runs:
  assumes g: "engine_good F0 pth s" and t: "y_tasks s = add_mset t R"
    and free: "\<And>n. \<not> locked n (s\<lparr>y_tasks := R\<rparr>)"
  shows "\<exists>out. run_task render a t (s\<lparr>y_tasks := R\<rparr>) = Ran out"
proof -
  have sc: "scanned F0" and inv: "sync_inv F0 pth s" using g by (simp_all add: engine_good_def)
  have nc: "run_task render a t (s\<lparr>y_tasks := R\<rparr>) \<noteq> Crash"
    using task_ok [of F0 pth s t R render a] g t by (simp add: engine_good_def task_good_def)
  have "run_task render a t (s\<lparr>y_tasks := R\<rparr>) \<noteq> Blocked"
  proof (cases t)
    case (Rec path n ph)
    show ?thesis
    proof (cases "ph = P_wait")
      case True
      obtain A where a: "at_rec F0 pth path n ph R s A" using at_recI [OF inv t [unfolded Rec]] by blast
      obtain r where r: "t_nodes (y_tree s) n = Some r" using at_rec_node(4) [OF a] by blast
      show ?thesis using True Rec r surv_node(1) [OF sc at_rec_eng(2) [OF a] r] free
        by (simp add: iter_children_def)
    next
      case False
      show ?thesis unfolding Rec using False free
        by (cases "(render, a, path, n, ph, s\<lparr>y_tasks := R\<rparr>)" rule: recurse_step.cases)
          (simp_all add: Let_def split: option.split prod.split)
    qed
  next
    case (Bubble d)
    then show ?thesis using bubble_ok(2) [OF inv t [unfolded Bubble]] by auto
  next
    case (Zero d)
    then show ?thesis using free by (simp add: zero_step_def split: option.split)
  qed (simp add: report_step_def)
  with nc show ?thesis by (cases "run_task render a t (s\<lparr>y_tasks := R\<rparr>)") simp_all
qed

lemma iter_runs:
  assumes g: "engine_good F0 pth s" and t: "y_tasks s = add_mset (Rec path n (P_iter cs)) R"
  shows "\<exists>out. run_task render a (Rec path n (P_iter cs)) (s\<lparr>y_tasks := R\<rparr>) = Ran out"
proof -
  have "run_task render a (Rec path n (P_iter cs)) (s\<lparr>y_tasks := R\<rparr>) \<noteq> Crash"
    using task_ok [of F0 pth s _ R render a] g t by (simp add: engine_good_def task_good_def)
  then show ?thesis by (cases cs) (auto split: option.splits)
qed

lemma engine_progress:
  assumes g: "engine_good F0 pth s" and ne: "y_tasks s \<noteq> {#}"
  shows "\<exists>s'. sync_step render s s'"
proof (cases "\<exists>path n cs. Rec path n (P_iter cs) \<in># y_tasks s")
  case True
  then obtain path n cs where "Rec path n (P_iter cs) \<in># y_tasks s" by blast
  then show ?thesis by (rule step_of) (use iter_runs [OF g] in blast)
next
  case False
  obtain t where t: "t \<in># y_tasks s" using ne by auto
  have "\<not> locked n (s\<lparr>y_tasks := R\<rparr>)" if "y_tasks s = add_mset t R" for n R
  proof
    assume "locked n (s\<lparr>y_tasks := R\<rparr>)"
    then obtain u where u: "u \<in># R" "case u of Rec p m (P_iter rest) \<Rightarrow> m = n | _ \<Rightarrow> False"
      by (auto simp: locked_def)
    then have "\<exists>p rest. u = Rec p n (P_iter rest)" by (auto split: task.splits phase.splits)
    with u(1) that False show False by auto
  qed
  with t show ?thesis by (intro step_of) (use unlocked_runs [OF g] in blast)+
qed

section \<open>Every run ends\<close>

text \<open>
  The steps that the task of a node and of the nodes below it can take, over the tree \<open>F0\<close> at the
  start; the first argument is a bound of the depth.
\<close>

definition own_steps :: "M tracked \<Rightarrow> nid \<Rightarrow> nat" where
  "own_steps F0 n = 11 + 2 * n + unat (m_fsize (meta_of F0 n))"

fun steps_to :: "M tracked \<Rightarrow> nat \<Rightarrow> nid \<Rightarrow> nat" where
  "steps_to F0 0 n = 0"
| "steps_to F0 (Suc k) n = own_steps F0 n + (\<Sum>c \<leftarrow> children_of F0 n. Suc (steps_to F0 k c))"

definition steps :: "M tracked \<Rightarrow> nid \<Rightarrow> nat" where
  "steps F0 n = steps_to F0 (t_next F0 - n) n"

definition kids :: "M tracked \<Rightarrow> nid list \<Rightarrow> nat" where
  "kids F0 cs = (\<Sum>c \<leftarrow> cs. Suc (steps F0 c))"

fun weight :: "M tracked \<Rightarrow> task \<Rightarrow> nat" where
  "weight F0 (Rec p n P_start) = steps F0 n"
| "weight F0 (Rec p n P_sock) = own_steps F0 n - 1 + kids F0 (children_of F0 n)"
| "weight F0 (Rec p n P_load) = own_steps F0 n - 2 + kids F0 (children_of F0 n)"
| "weight F0 (Rec p n (P_inc q)) = own_steps F0 n - 3 + kids F0 (children_of F0 n)"
| "weight F0 (Rec p n (P_store q g)) = own_steps F0 n - 4 + kids F0 (children_of F0 n)"
| "weight F0 (Rec p n (P_head q)) = own_steps F0 n - 5 + kids F0 (children_of F0 n)"
| "weight F0 (Rec p n (P_send q k)) = 5 + 2 * n + k + kids F0 (children_of F0 n)"
| "weight F0 (Rec p n P_switch) = 4 + 2 * n + kids F0 (children_of F0 n)"
| "weight F0 (Rec p n P_remove) = 2 * n + 1"
| "weight F0 (Rec p n (P_emplace k)) = 3 + kids F0 (children_of F0 n)"
| "weight F0 (Rec p n P_wait) = 2 + kids F0 (children_of F0 n)"
| "weight F0 (Rec p n (P_iter cs)) = 1 + kids F0 cs"
| "weight F0 Report = 1"
| "weight F0 (Bubble d) = 2 * d + 2"
| "weight F0 (Zero d) = 2 * d + 1"

definition engine_weight :: "M tracked \<Rightarrow> sync \<Rightarrow> nat" where
  "engine_weight F0 s = (\<Sum>t \<in># y_tasks s. weight F0 t)"

lemma steps_to_mono: "k \<le> k' \<Longrightarrow> steps_to F0 k n \<le> steps_to F0 k' n"
proof (induction k arbitrary: k' n)
  case (Suc k)
  then obtain j where j: "k' = Suc j" "k \<le> j" by (cases k') simp_all
  have "(\<Sum>c \<leftarrow> cs. Suc (steps_to F0 k c)) \<le> (\<Sum>c \<leftarrow> cs. Suc (steps_to F0 j c))" for cs
    by (rule sum_list_mono) (use Suc.IH [OF j(2)] in simp)
  then show ?case by (simp add: j(1))
qed simp

lemma steps_unfold:
  assumes wf: "wf_tree F0" and n: "t_nodes F0 n \<noteq> None"
  shows "own_steps F0 n + kids F0 (children_of F0 n) \<le> steps F0 n"
proof -
  note W = wf_linksD [OF wf [unfolded wf_tree_def]]
  have "n < t_next F0" using W(5) n by (metis not_Some_eq parent_of_None)
  then obtain j where j: "t_next F0 - n = Suc j" by (cases "t_next F0 - n") simp_all
  have "Suc (steps F0 c) \<le> Suc (steps_to F0 j c)" if "c \<in> set (children_of F0 n)" for c
    unfolding steps_def Suc_le_mono by (rule steps_to_mono) (use W(7) [OF that] j in simp)
  then have "kids F0 (children_of F0 n) \<le> (\<Sum>c \<leftarrow> children_of F0 n. Suc (steps_to F0 j c))"
    unfolding kids_def by (rule sum_list_mono)
  then show ?thesis by (simp add: steps_def j)
qed

lemma kids_subset:
  assumes "distinct cs" "distinct ds" "set cs \<subseteq> set ds"
  shows "kids F0 cs \<le> kids F0 ds"
  unfolding kids_def using assms by (simp add: sum_list_distinct_conv_sum_set sum_mono2)

text \<open>A task outweighs what follows from it.\<close>

lemma rec_weight:
  assumes inv: "sync_inv F0 pth s" and t: "y_tasks s = add_mset (Rec path n ph) R" and wf: "wf_tree F0"
    and out: "recurse_step render a path n ph (s\<lparr>y_tasks := R\<rparr>) = Ran (new, s')"
  shows "(\<Sum>t \<leftarrow> new. weight F0 t) < weight F0 (Rec path n ph)"
proof -
  obtain A where at: "at_rec F0 pth path n ph R s A" using at_recI [OF inv t] by blast
  have sv: "surv F0 (y_tree s)" by (rule at_rec_eng(2) [OF at])
  obtain r where r: "t_nodes (y_tree s) n = Some r" using at_rec_node(4) [OF at] by blast
  then obtain r0 where r0: "t_nodes F0 n = Some r0" "same_node r r0" using sv by (auto simp: surv_def)
  have st: "own_steps F0 n + kids F0 (children_of F0 n) \<le> steps F0 n"
    by (rule steps_unfold [OF wf]) (use r0 in simp)
  have own: "own_steps F0 n = 11 + 2 * n + unat (m_fsize (n_meta r))"
    using r0 by (simp add: own_steps_def meta_of_def same_node_def)
  note W0 = wf_linksD [OF wf [unfolded wf_tree_def]] and W = wf_linksD [OF surv_wf [OF sv]]
  have kids: "kids F0 (n_children r) \<le> kids F0 (children_of F0 n)"
    by (rule kids_subset) (use W(6) [of n] W0(6) [of n] r r0 in \<open>simp_all add: same_node_def\<close>)
  have up: "q < n" if "n_parent r = Some q" for q
    using W(7) [OF W(4) [of n q]] r that by simp
  show ?thesis
  proof (cases ph)
    case P_start
    then show ?thesis using out st own by (auto split: if_splits)
  next
    case (P_send q k)
    then show ?thesis using out by (auto simp: Let_def split: if_splits option.splits prod.splits)
  next
    case P_remove
    then show ?thesis using out r up by (auto split: if_splits option.splits)
  next
    case (P_iter cs)
    then show ?thesis using out by (cases cs) (auto simp: kids_def split: option.splits)
  qed (use out r own kids in \<open>auto simp: Let_def iter_children_def split: if_splits option.splits\<close>)
qed

lemma task_weight:
  assumes g: "engine_good F0 pth s" and t: "y_tasks s = add_mset t R"
    and out: "run_task render a t (s\<lparr>y_tasks := R\<rparr>) = Ran (new, s')"
  shows "(\<Sum>t \<leftarrow> new. weight F0 t) < weight F0 t"
proof -
  have inv: "sync_inv F0 pth s" and wf: "wf_tree F0" using g by (auto simp: engine_good_def scanned_def)
  show ?thesis
  proof (cases t)
    case (Rec path n ph)
    show ?thesis using out rec_weight [OF inv t [unfolded Rec] wf] unfolding Rec by simp
  next
    case Report
    then show ?thesis using out by (auto simp: report_step_def)
  next
    case (Bubble d)
    then show ?thesis using out by (auto simp: bubble_step_def Let_def split: if_splits option.splits)
  next
    case (Zero d)
    obtain A r where sv: "surv F0 (y_tree s)" and r: "t_nodes (y_tree s) d = Some r"
      by (rule zero_facts [OF inv t [unfolded Zero]])
    note W = wf_linksD [OF surv_wf [OF sv]]
    have "q < d" if "n_parent r = Some q" for q using W(7) [OF W(4) [of d q]] r that by simp
    then show ?thesis using out r Zero by (auto simp: zero_step_def split: if_splits option.splits)
  qed
qed

lemma step_weight:
  assumes "engine_good F0 pth s" "sync_step render s s'"
  shows "engine_weight F0 s' < engine_weight F0 s"
  using assms(2)
proof cases
  case (run t R a new s1)
  from task_weight [OF assms(1) run(2,3)] run(1,2) show ?thesis
    by (simp add: engine_weight_def sum_mset_sum_list [symmetric] flip: mset_map)
qed

lemma run_weight:
  "(sync_step render ^^ k) s s' \<Longrightarrow> engine_good F0 pth s \<Longrightarrow> k + engine_weight F0 s' \<le> engine_weight F0 s"
proof (induction k arbitrary: s')
  case (Suc k)
  then obtain s1 where s1: "(sync_step render ^^ k) s s1" "sync_step render s1 s'" by auto
  have "engine_good F0 pth s1" by (rule engine.run_good [OF relpowp_imp_rtranclp [OF s1(1)] Suc.prems(2)])
  from step_weight [OF this s1(2)] Suc.IH [OF s1(1) Suc.prems(2)] show ?case by simp
qed simp

lemma engine_ends:
  assumes "engine_good F0 pth s"
  shows "\<exists>s'. (sync_step render)\<^sup>*\<^sup>* s s' \<and> y_tasks s' = {#}"
  using assms
proof (induction "engine_weight F0 s" arbitrary: s rule: less_induct)
  case less
  show ?case
  proof (cases "y_tasks s = {#}")
    case False
    obtain s1 where s1: "sync_step render s s1" using engine_progress [OF less.prems False] by blast
    obtain s' where "(sync_step render)\<^sup>*\<^sup>* s1 s'" "y_tasks s' = {#}"
      using less.hyps [OF step_weight [OF less.prems s1] engine.step_good [OF less.prems s1]] by blast
    then show ?thesis using s1 by (meson converse_rtranclp_into_rtranclp)
  qed blast
qed

section \<open>The end of a run without errors\<close>

lemma tree_from_root:
  assumes wf: "wf_tree F" and P: "P (t_root F)"
    and kid: "\<And>c p. parent_of F c = Some (Some p) \<Longrightarrow> P p \<Longrightarrow> P c"
  shows "t_nodes F n \<noteq> None \<Longrightarrow> P n"
proof (induction n rule: less_induct)
  case (less n)
  note W = wf_linksD [OF wf [unfolded wf_tree_def]]
  obtain q where q: "parent_of F n = Some q" using less.prems by (cases "parent_of F n") simp_all
  show ?case
  proof (cases q)
    case None
    then show ?thesis using W(3) [of n] q P by simp
  next
    case (Some p)
    have c: "n \<in> set (children_of F p)" using W(4) q Some by simp
    have "t_nodes F p \<noteq> None" using c by (cases "t_nodes F p") (simp_all add: children_of_def)
    then show ?thesis using less.IH [OF W(7) [OF c]] kid [of n p] q Some by simp
  qed
qed

lemma engine_done:
  assumes g: "engine_good F0 pth s" and e: "y_tasks s = {#}" and ok: "y_ok s"
  shows "dom (t_nodes (y_tree s)) = {t_root F0}" "set (map fst (y_sent s)) = dom (t_nodes F0)"
proof -
  let ?F = "y_tree s" and ?rt = "t_root F0" and ?L = "map fst (y_sent s)"
  obtain A where a: "inv_at F0 pth ?F (y_pending s) True (y_reports s) (y_sent s) {#} A"
    using g e ok by (auto simp: engine_good_def sync_inv_def)
  have sv: "surv F0 ?F" and ow: "owns {#} A"
    and E: "eng pth (parent_of F0) ?rt True (parent_of ?F) (children_of ?F) A (\<lambda>d. 0) (y_pending s) ?L"
    using a by (simp_all add: inv_at_def)
  note D = engD [OF E] and W = wf_linksD [OF surv_wf [OF sv]] and Q = progD [OF engD(5) [OF E TrueI]]
  have A: "A n = None" for n using ow owns_in(1) [OF ow, of n] by (cases "A n") simp_all
  have wf: "wf_tree ?F" and rt: "t_root ?F = ?rt" using sv by (simp_all add: surv_def)
  have up: "p < c" "c \<in> set (children_of ?F p)" if "parent_of ?F c = Some (Some p)" for c p
    using W(4) [OF that] W(7) [OF W(4) [OF that]] by simp_all
  have least: "t_nodes ?F n \<noteq> None \<Longrightarrow> ?rt \<le> n" for n
    by (rule tree_from_root [OF wf, where P = "\<lambda>n. ?rt \<le> n"])
      (use rt up(1) in \<open>simp_all add: less_imp_le_nat le_trans [OF _ less_imp_le_nat]\<close>)
  have only: "n = ?rt" if n: "t_nodes ?F n \<noteq> None" for n
  proof (cases "y_pending s ?rt")
    case None
    then have "children_of ?F ?rt = []" using Q(2) [OF A] by simp
    then have "parent_of ?F c \<noteq> Some (Some ?rt)" for c using up(2) by fastforce
    then show ?thesis by (intro tree_from_root [OF wf _ _ n, where P = "\<lambda>n. n = ?rt"]) (simp_all add: rt)
  next
    case (Some k)
    have all: "t_nodes ?F n \<noteq> None \<Longrightarrow> y_pending s n \<noteq> None" for n
    proof (rule tree_from_root [OF wf, where P = "\<lambda>n. y_pending s n \<noteq> None"])
      show "y_pending s c \<noteq> None" if c: "parent_of ?F c = Some (Some p)" and p: "y_pending s p \<noteq> None" for c p
      proof -
        have "iterated A (y_pending s) p c" using p A by (simp add: iterated_def)
        from Q(1) [OF c this] A show ?thesis by simp
      qed
    qed (simp_all add: rt Some)
    have fin: "finite (dom (t_nodes ?F))" by (rule wf_finite [OF wf])
    define d where "d = Max (dom (t_nodes ?F))"
    have d: "d \<in> dom (t_nodes ?F)" unfolding d_def by (rule Max_in [OF fin]) (use n in auto)
    have "children_of ?F d = []"
    proof (rule ccontr)
      assume "children_of ?F d \<noteq> []"
      then obtain c where c: "c \<in> set (children_of ?F d)" by (cases "children_of ?F d") auto
      have "c \<in> dom (t_nodes ?F)" using W(8) [OF c] by (metis domIff option.distinct(1) parent_of_None)
      then have "c \<le> d" unfolding d_def using fin by simp
      then show False using W(7) [OF c] by simp
    qed
    moreover obtain j where j: "y_pending s d = Some j" using all d by blast
    ultimately have "j = 0" using pendD(2) [OF D(2) j] by simp
    then have "d = ?rt" using pend_zero [OF D(2), of d] j A by simp
    moreover have "n \<le> d" unfolding d_def using fin n by (simp add: domIff)
    ultimately show ?thesis using least [OF n] by simp
  qed
  have root: "t_nodes ?F ?rt \<noteq> None" using W(1) by (metis option.distinct(1) parent_of_None)
  have sub: "n = ?rt" if "n \<in> dom (t_nodes ?F)" for n using only [of n] that by blast
  show "dom (t_nodes ?F) = {?rt}"
  proof (rule set_eqI)
    show "n \<in> dom (t_nodes ?F) \<longleftrightarrow> n \<in> {?rt}" for n
      using sub [of n] root unfolding singleton_iff by blast
  qed
  have "n \<in> set ?L" if n: "parent_of F0 n \<noteq> None" for n
  proof (cases "n = ?rt")
    case True
    show ?thesis
    proof (cases "y_pending s n")
      case None
      then show ?thesis using Q(2) [OF A] True by simp
    qed (use sentD(6) [OF D(4) n] in simp)
  next
    case False
    then have "parent_of ?F n = None" using only [of n] by (simp only: parent_of_None) blast
    from sentD(5) [OF D(4) n this] show ?thesis .
  qed
  moreover have "n \<in> set ?L \<Longrightarrow> parent_of F0 n \<noteq> None" for n by (rule sentD(3) [OF D(4)])
  ultimately show "set ?L = dom (t_nodes F0)" by (intro set_eqI) (simp only: domIff parent_of_None, blast)
qed

section \<open>Sequence numbers\<close>

fun task_seqs :: "task \<Rightarrow> u32 set" where
  "task_seqs (Rec p n (P_inc q)) = {q}"
| "task_seqs (Rec p n (P_store q g)) = {q}"
| "task_seqs (Rec p n (P_head q)) = {q}"
| "task_seqs (Rec p n (P_send q k)) = {q}"
| "task_seqs t = {}"

definition seq_ok :: "sync \<Rightarrow> bool" where
  "seq_ok s \<longleftrightarrow> y_seq s \<noteq> - 1 \<and> (\<forall>t \<in># y_tasks s. - 1 \<notin> task_seqs t) \<and> - 1 \<notin> (\<lambda>x. fst (snd x)) ` set (y_sent s)"

lemma next_seq_max: "next_seq g \<noteq> - 1"
proof
  assume "next_seq g = - 1"
  moreover have "unat (next_seq g) < unat (- 1 :: u32)"
    unfolding next_seq_def unat_mod by (rule mod_less_divisor) (simp add: unsigned_minus_1_eq_mask)
  ultimately show False by simp
qed

lemma seq_task:
  assumes "seq_ok s" "y_tasks s = add_mset t R" "run_task render a t (s\<lparr>y_tasks := R\<rparr>) = Ran (new, s')"
  shows "seq_ok (s'\<lparr>y_tasks := R + mset new\<rparr>)"
proof (cases t)
  case (Rec path n ph)
  show ?thesis using assms next_seq_max unfolding Rec
    by (cases "(render, a, path, n, ph, s\<lparr>y_tasks := R\<rparr>)" rule: recurse_step.cases)
      (auto simp: seq_ok_def Let_def split: if_splits option.splits prod.splits sum.splits)
next
  case (Bubble d)
  then show ?thesis using assms by (auto simp: seq_ok_def bubble_step_def Let_def split: if_splits option.splits)
next
  case (Zero d)
  then show ?thesis using assms by (auto simp: seq_ok_def zero_step_def split: if_splits option.splits)
qed (use assms in \<open>auto simp: seq_ok_def report_step_def split: if_splits\<close>)

interpretation seqs: transition "sync_step render" seq_ok for render
  by unfold_locales (auto elim!: sync_step.cases intro: seq_task)

section \<open>Runs by a schedule\<close>

text \<open>A schedule names the task of each step and what the system answers.\<close>

fun run_sched :: "(M tracked \<Rightarrow> int \<Rightarrow> nat) \<Rightarrow> (task \<times> answer) list \<Rightarrow> sync \<Rightarrow> sync option" where
  "run_sched render [] s = Some s"
| "run_sched render ((t, a) # xs) s =
     (if t \<in># y_tasks s then
        (case run_task render a t (s\<lparr>y_tasks := y_tasks s - {#t#}\<rparr>) of
           Ran (new, s') \<Rightarrow> run_sched render xs (s'\<lparr>y_tasks := y_tasks s - {#t#} + mset new\<rparr>)
         | _ \<Rightarrow> None)
      else None)"

lemma run_sched_steps: "run_sched render xs s = Some s' \<Longrightarrow> (sync_step render)\<^sup>*\<^sup>* s s'"
proof (induction xs arbitrary: s)
  case (Cons x xs)
  obtain t a where x: "x = (t, a)" by (cases x)
  have t: "t \<in># y_tasks s" using Cons.prems x by (simp split: if_splits)
  obtain new s1 where r: "run_task render a t (s\<lparr>y_tasks := y_tasks s - {#t#}\<rparr>) = Ran (new, s1)"
    "run_sched render xs (s1\<lparr>y_tasks := y_tasks s - {#t#} + mset new\<rparr>) = Some s'"
    using Cons.prems x t by (auto split: outcome.splits)
  have "sync_step render s (s1\<lparr>y_tasks := y_tasks s - {#t#} + mset new\<rparr>)"
    by (rule sync_step.run [OF _ r(1)]) (use t in simp)
  with Cons.IH [OF r(2)] show ?case by (rule converse_rtranclp_into_rtranclp [rotated])
qed simp

text \<open>A directory with a file of 5 bytes and an empty one.\<close>

definition ex_two :: "M tracked" where
  "ex_two =
     \<lparr>t_nodes =
        [0 \<mapsto> \<lparr>n_ready = True, n_children = [1, 2], n_done = 0, n_total = 0, n_parent = None,
               n_meta = \<lparr>m_name = ''d'', m_perms = 493, m_ftype = ft_directory, m_fsize = 0\<rparr>\<rparr>,
         1 \<mapsto> \<lparr>n_ready = True, n_children = [], n_done = 0, n_total = 5, n_parent = Some 0,
               n_meta = \<lparr>m_name = ''f'', m_perms = 420, m_ftype = ft_regular, m_fsize = 5\<rparr>\<rparr>,
         2 \<mapsto> \<lparr>n_ready = True, n_children = [], n_done = 0, n_total = 0, n_parent = Some 0,
               n_meta = \<lparr>m_name = ''g'', m_perms = 420, m_ftype = ft_regular, m_fsize = 0\<rparr>\<rparr>],
      t_next = 3, t_root = 0, t_start = 0, t_last_draw = 0, t_rows = 0, t_sum_done = 0, t_sum_total = 5\<rparr>"

definition ex_pth :: "nid \<Rightarrow> string" where
  "ex_pth n = (if n = 0 then ''d'' else if n = 1 then ''d/f'' else ''d/g'')"

lemma ex_two_links:
  "parent_of ex_two = [0 \<mapsto> None, 1 \<mapsto> Some 0, 2 \<mapsto> Some 0]" "children_of ex_two = (\<lambda>n. if n = 0 then [1, 2] else [])"
  by (auto simp: fun_eq_iff ex_two_def parent_of_def children_of_def)

lemma ex_two_scanned: "scanned ex_two"
proof -
  have "wf_tree ex_two" unfolding wf_tree_def wf_links_def ex_two_links
    by (auto simp: ex_two_def split: if_splits)
  then show ?thesis by (auto simp: scanned_def ex_two_def split: if_splits)
qed

lemma ex_two_paths: "paths_ok ex_pth ex_two"
  unfolding paths_ok_def ex_two_links
  by (auto simp: ex_pth_def path_append_def meta_of_def ex_two_def split: if_splits)

definition ex_ans :: answer where "ex_ans = \<lparr>a_sock = 0, a_wrote = 100, a_got = False, a_now = 0\<rparr>"

text \<open>Both files load the counter before either stores it.\<close>

definition ex_race :: "(task \<times> answer) list" where
  "ex_race = map (\<lambda>t. (t, ex_ans))
     [Rec ''d'' 0 P_start, Rec ''d'' 0 P_sock, Rec ''d'' 0 P_load, Rec ''d'' 0 (P_inc 0), Rec ''d'' 0 (P_store 0 0), Rec ''d'' 0 (P_head 0),
      Rec ''d'' 0 (P_send 0 0), Rec ''d'' 0 P_switch, Rec ''d'' 0 (P_emplace (Suc (Suc 0))), Rec ''d'' 0 P_wait,
      Rec ''d'' 0 (P_iter [1, 2]), Rec ''d'' 0 (P_iter [2]), Rec ''d'' 0 (P_iter []),
      Rec ''d/f'' 1 P_start, Rec ''d/f'' 1 P_sock, Rec ''d/g'' 2 P_start, Rec ''d/g'' 2 P_sock, Rec ''d/f'' 1 P_load, Rec ''d/g'' 2 P_load,
      Rec ''d/f'' 1 (P_inc 1), Rec ''d/f'' 1 (P_store 1 1), Rec ''d/g'' 2 (P_inc 1), Rec ''d/g'' 2 (P_store 1 2),
      Rec ''d/f'' 1 (P_head 1), Rec ''d/f'' 1 (P_send 1 5), Rec ''d/f'' 1 (P_send 1 0), Rec ''d/f'' 1 P_switch,
      Rec ''d/f'' 1 P_remove, Bubble 0,
      Rec ''d/g'' 2 (P_head 1), Rec ''d/g'' 2 (P_send 1 0), Rec ''d/g'' 2 P_switch,
      Rec ''d/g'' 2 P_remove, Bubble 0, Zero 0]"

lemma next_seq_ex: "next_seq 0 = 1" "next_seq 1 = 2" "next_seq 2 = 3"
  by (code_simp)+

lemma subtree_numeral:
  "subtree (numeral v) F n = n # concat (map (subtree (pred_numeral v) F) (children_of F n))"
  by (simp add: numeral_eq_Suc)

lemma ex_race_run:
  "\<exists>s. run_sched render ex_race (sync_start base ''d'' ex_two) = Some s \<and> y_ok s \<and> y_tasks s = {#} \<and>
    y_sent s = [(0, 0, ''d''), (1, 1, ''d/f''), (2, 1, ''d/g'')]"
  by (simp add: ex_race_def sync_start_def ex_ans_def ex_two_def locked_def iter_children_def next_seq_ex
      path_append_def bubble_step_def zero_step_def tick_def upd_node_def remove_def children_of_def
      subtree_numeral CHUNK_SIZE_def)

lemma run_good_start:
  assumes "scanned F" "paths_ok pth F" "(sync_step render)\<^sup>*\<^sup>* (sync_start base (pth (t_root F)) F) s"
  shows "engine_good F pth s"
  by (rule engine.run_good [OF assms(3) start_good [OF assms(1,2)]])

lemma good_parts:
  assumes "engine_good F pth s"
  obtains A where "surv F (y_tree s)" "y_reports s = (if y_ok s then 0 else 1)"
    "\<forall>n q p. (n, q, p) \<in> set (y_sent s) \<longrightarrow> p = pth n"
    "pend_ok (parent_of (y_tree s)) (children_of (y_tree s)) (t_root F) A (\<lambda>d. count (y_tasks s) (Bubble d)) (y_pending s)"
    "sent_ok (parent_of F) (parent_of (y_tree s)) A (y_pending s) (map fst (y_sent s))"
  using assms unfolding engine_good_def sync_inv_def inv_at_def eng_def by blast

lemma no_task_no_step: "y_tasks s = {#} \<Longrightarrow> \<not> sync_step render s s'"
  by (auto elim: sync_step.cases)

lemma ex_race_reach:
  "\<exists>s. (sync_step render)\<^sup>*\<^sup>* (sync_start base (ex_pth (t_root ex_two)) ex_two) s \<and> y_ok s \<and> y_tasks s = {#} \<and>
    y_sent s = [(0, 0, ''d''), (1, 1, ''d/f''), (2, 1, ''d/g'')]"
proof -
  have "ex_pth (t_root ex_two) = ''d''" by (simp add: ex_pth_def ex_two_def)
  then show ?thesis using ex_race_run [of render base] run_sched_steps by metis
qed

lemma ex_part_reach:
  "\<exists>s. (sync_step render)\<^sup>*\<^sup>* (sync_start base (ex_pth (t_root ex_two)) ex_two) s \<and> y_pending s 0 = Some 2"
proof -
  have "ex_pth (t_root ex_two) = ''d''" by (simp add: ex_pth_def ex_two_def)
  moreover have "\<exists>s. run_sched render (take 9 ex_race) (sync_start base ''d'' ex_two) = Some s \<and> y_pending s 0 = Some 2"
    by (simp add: ex_race_def sync_start_def ex_ans_def ex_two_def next_seq_ex)
  ultimately show ?thesis using run_sched_steps by metis
qed

text \<open>No message carries the sequence number \<^verbatim>\<open>UINT32_MAX\<close>.\<close>

lemma sync_seq_range:
  assumes "(sync_step render)\<^sup>*\<^sup>* (sync_start base root F) s"
  shows "\<forall>n q p. (n, q, p) \<in> set (y_sent s) \<longrightarrow> q \<noteq> - 1"
proof -
  have "seq_ok s" by (rule seqs.run_good [OF assms]) (simp add: seq_ok_def sync_start_def)
  then show ?thesis by (force simp: seq_ok_def)
qed

section \<open>Properties\<close>

text \<open>C5. In no interleaving of the tasks does one touch a freed node, find no entry in the table of
  pending children or reach the call of \<open>fatal\<close> of \<open>recurse\<close>; the nodes that are left are a tree, and
  the error is reported once when the run has failed and not at all otherwise.\<close>

theorem sync_no_crash:
  assumes "scanned F" and "paths_ok pth F"
    and "(sync_step render)\<^sup>*\<^sup>* (sync_start base (pth (t_root F)) F) s"
  shows "\<not> sync_crash render s \<and> wf_tree (y_tree s) \<and> y_reports s = (if y_ok s then 0 else 1)"
proof -
  note g = run_good_start [OF assms]
  obtain A where "surv F (y_tree s)" "y_reports s = (if y_ok s then 0 else 1)" by (rule good_parts [OF g])
  then show ?thesis using engine_safe [OF g] by (simp add: surv_def)
qed

theorem sync_no_crash_witness:
  "\<not> sync_crash (\<lambda>_ _. 0) (sync_start 49152 (ex_pth (t_root ex_two)) ex_two)"
  using sync_no_crash [OF ex_two_scanned ex_two_paths rtranclp.rtrancl_refl] by blast



text \<open>C4. At the end of a run in which no write failed, every node of the tree has been sent exactly
  once, with the path it stands for, and after its parent; the nodes have all been freed but the
  root.\<close>

theorem sync_complete:
  assumes "scanned F" and "paths_ok pth F"
    and "(sync_step render)\<^sup>*\<^sup>* (sync_start base (pth (t_root F)) F) s" and "y_tasks s = {#}" and "y_ok s"
  shows "distinct (map fst (y_sent s)) \<and> set (map fst (y_sent s)) = dom (t_nodes F) \<and>
    parents_first (parent_of F) (map fst (y_sent s)) \<and>
    (\<forall>n q p. (n, q, p) \<in> set (y_sent s) \<longrightarrow> p = pth n) \<and>
    dom (t_nodes (y_tree s)) = {t_root F}"
proof -
  note g = run_good_start [OF assms(1-3)]
  obtain A where "\<forall>n q p. (n, q, p) \<in> set (y_sent s) \<longrightarrow> p = pth n"
    "sent_ok (parent_of F) (parent_of (y_tree s)) A (y_pending s) (map fst (y_sent s))" by (rule good_parts [OF g])
  then show ?thesis using engine_done [OF g assms(4,5)] sentD(1,2) by blast
qed

theorem sync_complete_witness:
  "\<exists>s. (sync_step (\<lambda>_ _. 0))\<^sup>*\<^sup>* (sync_start 49152 (ex_pth (t_root ex_two)) ex_two) s \<and> y_tasks s = {#} \<and> y_ok s \<and>
    set (map fst (y_sent s)) = dom (t_nodes ex_two)"
proof -
  obtain s where s: "(sync_step (\<lambda>_ _. 0))\<^sup>*\<^sup>* (sync_start 49152 (ex_pth (t_root ex_two)) ex_two) s"
    "y_ok s" "y_tasks s = {#}" using ex_race_reach by blast
  then show ?thesis using sync_complete [OF ex_two_scanned ex_two_paths s(1,3,2)] by blast
qed

text \<open>C23. In every state the count kept for a directory is the number of children that are left plus
  the calls of \<open>bubble\<close> for it that are on their way, so \<open>bubble\<close> never takes one from zero, and the
  count is zero only when the directory has no child left.\<close>

theorem sync_pending_exact:
  assumes "scanned F" and "paths_ok pth F"
    and "(sync_step render)\<^sup>*\<^sup>* (sync_start base (pth (t_root F)) F) s" and "y_pending s d = Some k"
  shows "t_nodes (y_tree s) d \<noteq> None \<and> k = length (children_of (y_tree s) d) + count (y_tasks s) (Bubble d)"
proof -
  note g = run_good_start [OF assms(1-3)]
  obtain A where "pend_ok (parent_of (y_tree s)) (children_of (y_tree s)) (t_root F) A
      (\<lambda>d. count (y_tasks s) (Bubble d)) (y_pending s)" by (rule good_parts [OF g])
  from pendD(1,2) [OF this assms(4)] show ?thesis by simp
qed

theorem sync_pending_exact_witness:
  "\<exists>s. (sync_step (\<lambda>_ _. 0))\<^sup>*\<^sup>* (sync_start 49152 (ex_pth (t_root ex_two)) ex_two) s \<and> y_pending s 0 = Some 2 \<and>
    2 = length (children_of (y_tree s) 0) + count (y_tasks s) (Bubble 0)"
proof -
  obtain s where s: "(sync_step (\<lambda>_ _. 0))\<^sup>*\<^sup>* (sync_start 49152 (ex_pth (t_root ex_two)) ex_two) s" "y_pending s 0 = Some 2"
    using ex_part_reach by blast
  then show ?thesis using sync_pending_exact [OF ex_two_scanned ex_two_paths s] by blast
qed

text \<open>C24. What the data of the engine are, in every state of every run: a node of the tree is ready and is a
  directory, or a regular file that has a parent and no children, so the default of the switch
  over the file type is not reached; a task of \<open>recurse\<close> has a node that exists and the path of
  that node; and a message carries the path of its node and a number other than
  \<^verbatim>\<open>UINT32_MAX\<close>.\<close>

theorem sync_state_typed:
  assumes "scanned F" and "paths_ok pth F" and "(sync_step render)\<^sup>*\<^sup>* (sync_start base (pth (t_root F)) F) s"
  shows "(\<forall>n r. t_nodes (y_tree s) n = Some r \<longrightarrow> n_ready r \<and>
      (m_ftype (n_meta r) = ft_directory \<or>
       m_ftype (n_meta r) = ft_regular \<and> n_children r = [] \<and> n_parent r \<noteq> None)) \<and>
    (\<forall>path n ph. Rec path n ph \<in># y_tasks s \<longrightarrow> path = pth n \<and> n \<in> dom (t_nodes (y_tree s))) \<and>
    (\<forall>n q p. (n, q, p) \<in> set (y_sent s) \<longrightarrow> p = pth n \<and> q \<noteq> - 1)"
proof -
  have g: "engine_good F pth s" by (rule run_good_start [OF assms])
  then have inv: "sync_inv F pth s" by (simp add: engine_good_def)
  obtain A where sv: "surv F (y_tree s)" and p: "\<forall>n q p. (n, q, p) \<in> set (y_sent s) \<longrightarrow> p = pth n"
    by (rule good_parts [OF g])
  have "path = pth n \<and> n \<in> dom (t_nodes (y_tree s))" if t: "Rec path n ph \<in># y_tasks s" for path n ph
  proof -
    obtain R where "y_tasks s = add_mset (Rec path n ph) R" using multi_member_split [OF t] by blast
    then obtain A where a: "at_rec F pth path n ph R s A" using at_recI [OF inv] by blast
    show ?thesis using at_rec_node(2,4) [OF a] by blast
  qed
  then show ?thesis using surv_node(1,2) [OF assms(1) sv] p sync_seq_range [OF assms(3)] by blast
qed

theorem sync_state_typed_witness:
  "\<exists>s. (sync_step (\<lambda>_ _. 0))\<^sup>*\<^sup>* (sync_start 49152 (ex_pth (t_root ex_two)) ex_two) s \<and>
    (2, 1, ''d/g'') \<in> set (y_sent s) \<and> ''d/g'' = ex_pth 2 \<and> (1 :: u32) \<noteq> - 1"
proof -
  obtain s where s: "(sync_step (\<lambda>_ _. 0))\<^sup>*\<^sup>* (sync_start 49152 (ex_pth (t_root ex_two)) ex_two) s"
    "y_sent s = [(0, 0, ''d''), (1, 1, ''d/f''), (2, 1, ''d/g'')]" using ex_race_reach by blast
  then have "(2, 1, ''d/g'') \<in> set (y_sent s)" by simp
  then show ?thesis using s(1) sync_state_typed [OF ex_two_scanned ex_two_paths s(1)] by blast
qed


end
