(* ===== verification/Send_Data.thy ===== *)
theory Send_Data
  imports Sync_Run Daemon_Inv
begin

text \<open>
  The sending of one node (\<^verbatim>\<open>enu/main.cpp\<close>, \<open>send_datamsg\<close>): the header, the relative path and the
  content of a file in chunks. What reaches the socket is one frame of the wire format, the kind
  the daemon takes apart (\<open>Daemon_Inv\<close>).
\<close>

section \<open>The sender (main.cpp)\<close>

text \<open>
  What the sender asks of the system: writes, \<open>fs::relative\<close> (the message of the error or the
  path), opening, mapping and closing of the file, and the shared flag \<open>ok\<close>.
\<close>

record 'w send_env =
  s_write :: "'w sys_write"
  s_relative :: "string \<Rightarrow> string \<Rightarrow> string + string"
  s_open :: "'w \<Rightarrow> string \<Rightarrow> fd option \<times> 'w"
  s_mmap :: "'w \<Rightarrow> fd \<Rightarrow> nat \<Rightarrow> byte list option \<times> 'w"
  s_close :: "'w \<Rightarrow> fd \<Rightarrow> 'w"
  s_ok :: "'w \<Rightarrow> bool"

text \<open>The loop over the chunks; \<open>ts\<close> are the arguments of the calls of \<open>tick\<close>.\<close>

partial_function (option) write_chunks ::
  "'w send_env \<Rightarrow> fd \<Rightarrow> byte list \<Rightarrow> nat \<Rightarrow> nat \<Rightarrow> nat list \<Rightarrow> 'w \<Rightarrow> (bool \<times> nat list \<times> 'w) option" where
  "write_chunks E sock mem fsize n_sent ts w =
     (if n_sent < fsize then
        (case write_partial (s_write E) sock (drop n_sent mem) (min CHUNK_SIZE (fsize - n_sent)) w of
           None \<Rightarrow> None
         | Some (r, w) \<Rightarrow>
             if \<not> io_bool r \<or> n_bytes r = 0 \<or> \<not> s_ok E w then Some (False, ts, w)
             else write_chunks E sock mem fsize (n_sent + n_bytes r) (ts @ [n_bytes r]) w)
      else Some (True, ts, w))"

text \<open>\<open>write_file_contents\<close>: Inl is the message of a call of \<open>fatal\<close>.\<close>

definition write_file_contents ::
  "'w send_env \<Rightarrow> fd \<Rightarrow> string \<Rightarrow> M \<Rightarrow> 'w \<Rightarrow> (string + bool \<times> nat list \<times> 'w) option" where
  "write_file_contents E sock path meta w =
     (case s_open E w path of
        (None, w) \<Rightarrow> Some (Inl (''open('' @ path @ '')''))
      | (Some out_fd, w) \<Rightarrow>
          (case s_mmap E w out_fd (unat (m_fsize meta)) of
             (None, w) \<Rightarrow> Some (Inl (''mmap('' @ path @ '')''))
           | (Some mem, w) \<Rightarrow>
               map_option (\<lambda>(res, ts, w). Inr (res, ts, s_close E w out_fd))
                 (write_chunks E sock mem (unat (m_fsize meta)) 0 [] w)))"

definition data_header :: "u32 \<Rightarrow> M \<Rightarrow> string \<Rightarrow> DataMessage" where
  "data_header seq meta rel_path =
     \<lparr>dm_seq = seq, dm_perms = m_perms meta, dm_ftype = m_ftype meta,
      dm_path_len = of_nat (length rel_path), dm_fsize = m_fsize meta\<rparr>"

definition send_datamsg ::
  "'w send_env \<Rightarrow> (nat \<Rightarrow> byte) \<Rightarrow> fd \<Rightarrow> u32 \<Rightarrow> string \<Rightarrow> string \<Rightarrow> M \<Rightarrow> 'w \<Rightarrow>
   (string + bool \<times> nat list \<times> 'w) option" where
  "send_datamsg E pad sock seq base path meta w =
     (case s_relative E path base of
        Inl message \<Rightarrow> Some (Inl (path @ '': '' @ str_to_lower message))
      | Inr rel_path \<Rightarrow>
          if length rel_path > 65535 then Some (Inr (False, [], w))
          else
            (case write_exact (s_write E) sock (put_DataMessage pad (data_header seq meta rel_path))
                    sizeof_DataMessage w of
               None \<Rightarrow> None
             | Some (r, w) \<Rightarrow>
                 if \<not> io_bool r then Some (Inr (False, [], w))
                 else
                   (case write_exact (s_write E) sock (bytes_of rel_path) (length rel_path) w of
                      None \<Rightarrow> None
                    | Some (r, w) \<Rightarrow>
                        if \<not> io_bool r then Some (Inr (False, [], w))
                        else if m_ftype meta = ft_regular \<and> m_fsize meta > 0
                             then write_file_contents E sock path meta w
                             else Some (Inr (True, [], w)))))"

section \<open>The errors of the remote side (main.cpp)\<close>

text \<open>
  \<open>report_stderr_remote\<close> copies what the daemon wrote to its error output; \<open>Rule\<close> is the line of
  equal signs, \<open>Lost\<close> the remark that the connection was closed.
\<close>

datatype report = Clear | Rule | Title | Lost | Chunk "byte list"

partial_function (option) report_loop ::
  "'w sys_read \<Rightarrow> fd \<Rightarrow> byte list \<Rightarrow> report list \<Rightarrow> 'w \<Rightarrow> (report list \<times> 'w) option" where
  "report_loop rd fd buf log w =
     (case read_partial rd fd buf 0 CHUNK_SIZE w of
        None \<Rightarrow> None
      | Some (r, buf, w) \<Rightarrow>
          if n_bytes r = 0 then Some (log, w)
          else
            (let log = (if log = [] then [Clear, Rule, Title] else log) in
             if \<not> io_bool r then Some (log @ [Lost], w)
             else report_loop rd fd buf (log @ [Chunk (take (n_bytes r) buf)]) w))"

definition report_stderr_remote :: "'w sys_read \<Rightarrow> fd \<Rightarrow> 'w \<Rightarrow> (report list \<times> 'w) option" where
  "report_stderr_remote rd err_rd w =
     map_option (\<lambda>(log, w). (if log \<noteq> [] then log @ [Rule] else log, w))
       (report_loop rd err_rd (replicate CHUNK_SIZE 0) [] w)"

section \<open>What reaches the socket\<close>

text \<open>
  \<open>send_streams\<close>: writes append to what has been written to the socket, and the other calls do
  not write; a mapping shows the first bytes of the file, which is at least that long.
\<close>

definition send_streams :: "'w send_env \<Rightarrow> ('w \<Rightarrow> fd \<Rightarrow> byte list) \<Rightarrow> (string \<Rightarrow> byte list) \<Rightarrow> bool" where
  "send_streams E out file \<longleftrightarrow> writes_stream (s_write E) out \<and>
     (\<forall>w p x w'. s_open E w p = (x, w') \<longrightarrow> out w' = out w) \<and>
     (\<forall>w fd n x w'. s_mmap E w fd n = (x, w') \<longrightarrow> out w' = out w) \<and>
     (\<forall>w fd. out (s_close E w fd) = out w) \<and>
     (\<forall>w p fd w1 n mem w2. s_open E w p = (Some fd, w1) \<longrightarrow> s_mmap E w1 fd n = (Some mem, w2) \<longrightarrow>
        n \<le> length (file p) \<and> mem = take n (file p))"

lemma send_streamsD:
  assumes "send_streams E out file"
  shows "writes_stream (s_write E) out" "s_open E w p = (x, w') \<Longrightarrow> out w' = out w"
    "s_mmap E w fd n = (y, w') \<Longrightarrow> out w' = out w" "out (s_close E w fd) = out w"
    "s_open E w p = (Some fd, w1) \<Longrightarrow> s_mmap E w1 fd n = (Some mem, w2) \<Longrightarrow> n \<le> length (file p) \<and> mem = take n (file p)"
  using assms unfolding send_streams_def by blast+

lemma write_exact_stream:
  assumes "writes_stream wr out" "length buf = len" "write_exact wr fd buf len w = Some (r, w')"
  shows "\<exists>k \<le> len. out w' fd = out w fd @ take k buf \<and> (io_bool r \<longrightarrow> k = len)"
proof -
  obtain r0 where r0: "write_partial wr fd buf len w = Some (r0, w')" "r = exact_result len r0"
    using assms(3) by (auto simp: write_exact_def)
  from write_partial_stream [OF assms(1) _ r0(1)] assms(2) have
    "n_bytes r0 \<le> len" "out w' fd = out w fd @ take (n_bytes r0) buf" by simp_all
  then show ?thesis using r0(2)
    by (intro exI [of _ "n_bytes r0"]) (auto simp: exact_result_def io_bool_def split: if_splits)
qed

lemma write_chunks_stream:
  assumes E: "writes_stream (s_write E) out" and len: "length mem = fsize"
  shows "write_chunks E sock mem fsize n_sent ts w = Some (res, ts', w') \<Longrightarrow> n_sent \<le> fsize \<Longrightarrow>
    \<exists>k. n_sent + k \<le> fsize \<and> out w' sock = out w sock @ take k (drop n_sent mem) \<and>
      (res \<longrightarrow> n_sent + k = fsize \<and> sum_list ts' = sum_list ts + k)"
proof (induction "fsize - n_sent" arbitrary: n_sent ts w rule: less_induct)
  case less
  let ?c = "min CHUNK_SIZE (fsize - n_sent)"
  show ?case
  proof (cases "n_sent < fsize")
    case True
    obtain r w1 where r: "write_partial (s_write E) sock (drop n_sent mem) ?c w = Some (r, w1)"
      using less.prems(1) True by (subst (asm) write_chunks.simps) (auto split: option.splits)
    have S: "n_bytes r \<le> ?c" "out w1 sock = out w sock @ take (n_bytes r) (drop n_sent mem)"
      using write_partial_stream [OF E _ r] len by simp_all
    show ?thesis
    proof (cases "\<not> io_bool r \<or> n_bytes r = 0 \<or> \<not> s_ok E w1")
      case stop: True
      then have "res = False \<and> w' = w1" using less.prems(1) True r by (subst (asm) write_chunks.simps) simp
      then show ?thesis using S True by (intro exI [of _ "n_bytes r"]) auto
    next
      case False
      then have rec: "write_chunks E sock mem fsize (n_sent + n_bytes r) (ts @ [n_bytes r]) w1 = Some (res, ts', w')"
        using less.prems(1) True r by (subst (asm) write_chunks.simps) simp
      have "fsize - (n_sent + n_bytes r) < fsize - n_sent" "n_sent + n_bytes r \<le> fsize" using False True S(1) by auto
      from less.hyps [OF this(1) rec this(2)] obtain k where
        k: "n_sent + n_bytes r + k \<le> fsize" "out w' sock = out w1 sock @ take k (drop (n_sent + n_bytes r) mem)"
          "res \<longrightarrow> n_sent + n_bytes r + k = fsize \<and> sum_list ts' = sum_list (ts @ [n_bytes r]) + k" by blast
      then show ?thesis using S(2) take_add [of "n_bytes r" k "drop n_sent mem"]
        by (intro exI [of _ "n_bytes r + k"]) (simp add: add.commute add.left_commute)
    qed
  next
    case False
    then have "res = True \<and> ts' = ts \<and> w' = w" using less.prems(1) by (subst (asm) write_chunks.simps) simp
    then show ?thesis using False less.prems(2) by (intro exI [of _ 0]) simp
  qed
qed

definition sent_content :: "(string \<Rightarrow> byte list) \<Rightarrow> string \<Rightarrow> M \<Rightarrow> byte list" where
  "sent_content file path meta =
     (if m_ftype meta = ft_regular then take (unat (m_fsize meta)) (file path) else [])"

definition data_frame ::
  "(nat \<Rightarrow> byte) \<Rightarrow> (string \<Rightarrow> byte list) \<Rightarrow> u32 \<Rightarrow> string \<Rightarrow> string \<Rightarrow> M \<Rightarrow> byte list" where
  "data_frame pad file seq rel_path path meta =
     put_DataMessage pad (data_header seq meta rel_path) @ bytes_of rel_path @ sent_content file path meta"

lemma length_bytes_of [simp]: "length (bytes_of s) = length s"
  by (simp add: bytes_of_def)

text \<open>The file content: all of it, or a part when the loop stops early.\<close>

lemma write_file_stream:
  assumes E: "send_streams E out file" and reg: "m_ftype meta = ft_regular"
    and run: "write_file_contents E sock path meta w = Some (Inr (res, ts, w'))"
  shows "\<exists>k. out w' sock = out w sock @ take k (sent_content file path meta) \<and>
    (res \<longrightarrow> k = length (sent_content file path meta) \<and> k = unat (m_fsize meta) \<and> sum_list ts = k)"
proof -
  let ?n = "unat (m_fsize meta)"
  obtain fd w1 where o: "s_open E w path = (Some fd, w1)"
    using run by (auto simp: write_file_contents_def split: prod.splits option.splits)
  obtain mem w2 where m: "s_mmap E w1 fd ?n = (Some mem, w2)"
    using run o by (auto simp: write_file_contents_def split: prod.splits option.splits)
  obtain w3 where c: "write_chunks E sock mem ?n 0 [] w2 = Some (res, ts, w3)" "w' = s_close E w3 fd"
    using run o m by (auto simp: write_file_contents_def)
  note S = send_streamsD [OF E]
  have f: "?n \<le> length (file path)" "mem = take ?n (file path)" using S(5) [OF o m] by simp_all
  then have len: "length mem = ?n" by simp
  obtain k where k: "0 + k \<le> ?n" "out w3 sock = out w2 sock @ take k (drop 0 mem)"
    "res \<longrightarrow> 0 + k = ?n \<and> sum_list ts = sum_list [] + k"
    using write_chunks_stream [OF S(1) len c(1)] by blast
  have "out w' sock = out w sock @ take k mem" using k(2) c(2) S(2) [OF o] S(3) [OF m] S(4) by simp
  moreover have "sent_content file path meta = mem" using reg f(2) by (simp add: sent_content_def)
  ultimately show ?thesis using k(3) len by (intro exI [of _ k]) simp
qed

lemma send_datamsg_stream:
  assumes E: "send_streams E out file" and rel: "s_relative E path base = Inr rel"
    and run: "send_datamsg E pad sock seq base path meta w = Some (Inr (res, ts, w'))"
  shows "\<exists>k. out w' sock = out w sock @ take k (data_frame pad file seq rel path meta) \<and>
    (res \<longrightarrow> k = length (data_frame pad file seq rel path meta) \<and> length rel \<le> 65535 \<and>
       length (sent_content file path meta) = (if m_ftype meta = ft_regular then unat (m_fsize meta) else 0) \<and>
       sum_list ts = length (sent_content file path meta))"
proof (cases "length rel > 65535")
  case True
  then show ?thesis using run rel by (intro exI [of _ 0]) (simp add: send_datamsg_def)
next
  case short: False
  let ?h = "put_DataMessage pad (data_header seq meta rel)" and ?p = "bytes_of rel" and ?c = "sent_content file path meta"
  note W = send_streamsD(1) [OF E]
  obtain r1 w1 where 1: "write_exact (s_write E) sock ?h sizeof_DataMessage w = Some (r1, w1)"
    using run rel short by (auto simp: send_datamsg_def split: option.splits)
  obtain k1 where k1: "k1 \<le> sizeof_DataMessage" "out w1 sock = out w sock @ take k1 ?h" "io_bool r1 \<longrightarrow> k1 = sizeof_DataMessage"
    using write_exact_stream [OF W _ 1] hdr.length_put by blast
  show ?thesis
  proof (cases "io_bool r1")
    case False
    then have "\<not> res \<and> w' = w1" using run rel short 1 by (simp add: send_datamsg_def)
    then show ?thesis using k1 by (intro exI [of _ k1]) (simp add: data_frame_def hdr.length_put)
  next
    case ok1: True
    obtain r2 w2 where 2: "write_exact (s_write E) sock ?p (length rel) w1 = Some (r2, w2)"
      using run rel short 1 ok1 by (auto simp: send_datamsg_def split: option.splits)
    obtain k2 where k2: "k2 \<le> length rel" "out w2 sock = out w1 sock @ take k2 ?p" "io_bool r2 \<longrightarrow> k2 = length rel"
      using write_exact_stream [OF W _ 2] by auto
    have o1: "out w1 sock = out w sock @ ?h" using k1 ok1 by (simp add: hdr.length_put)
    show ?thesis
    proof (cases "io_bool r2")
      case False
      then have "\<not> res \<and> w' = w2" using run rel short 1 ok1 2 by (simp add: send_datamsg_def)
      then show ?thesis using k2 o1
        by (intro exI [of _ "sizeof_DataMessage + k2"]) (simp add: data_frame_def hdr.length_put)
    next
      case ok2: True
      have o2: "out w2 sock = out w sock @ ?h @ ?p" using k2 ok2 o1 by simp
      show ?thesis
      proof (cases "m_ftype meta = ft_regular \<and> m_fsize meta > 0")
        case True
        then have "write_file_contents E sock path meta w2 = Some (Inr (res, ts, w'))"
          using run rel short 1 ok1 2 ok2 by (simp add: send_datamsg_def)
        from write_file_stream [OF E _ this] True obtain k where k: "out w' sock = out w2 sock @ take k ?c"
          "res \<longrightarrow> k = length ?c \<and> k = unat (m_fsize meta) \<and> sum_list ts = k" by blast
        then show ?thesis using o2 short True
          by (intro exI [of _ "sizeof_DataMessage + length rel + k"]) (auto simp: data_frame_def hdr.length_put)
      next
        case False
        then have "res \<and> w' = w2 \<and> ts = []" using run rel short 1 ok1 2 ok2 by (auto simp: send_datamsg_def)
        moreover have "?c = []" "m_ftype meta = ft_regular \<longrightarrow> m_fsize meta = 0"
          using False by (auto simp: sent_content_def word_gt_0)
        ultimately show ?thesis using o2 short
          by (intro exI [of _ "length (data_frame pad file seq rel path meta)"]) (auto simp: data_frame_def)
      qed
    qed
  qed
qed

text \<open>The calls return when a transient error does not come for ever.\<close>

lemma write_chunks_returns:
  assumes "transient_bounded (\<lambda>w (fd, bs). s_write E w fd bs) m"
  shows "\<exists>x. write_chunks E sock mem fsize n_sent ts w = Some x"
proof (induction "fsize - n_sent" arbitrary: n_sent ts w rule: less_induct)
  case less
  obtain r w1 where r: "write_partial (s_write E) sock (drop n_sent mem) (min CHUNK_SIZE (fsize - n_sent)) w = Some (r, w1)"
    using write_partial_total [OF assms] by blast
  show ?case
  proof (cases "n_sent < fsize \<and> n_bytes r \<noteq> 0")
    case True
    then have "fsize - (n_sent + n_bytes r) < fsize - n_sent" by linarith
    from less.hyps [OF this] True r show ?thesis by (subst write_chunks.simps) auto
  next
    case False
    then show ?thesis using r by (subst write_chunks.simps) auto
  qed
qed

lemma send_datamsg_returns:
  assumes "transient_bounded (\<lambda>w (fd, bs). s_write E w fd bs) m"
  shows "\<exists>x. send_datamsg E pad sock seq base path meta w = Some x"
proof -
  have we: "\<exists>r w'. write_exact (s_write E) sock buf len w = Some (r, w')" for buf len w
    using write_partial_total [OF assms, of sock buf len w] by (auto simp: write_exact_def)
  have wf: "\<exists>x. write_file_contents E sock path meta w = Some x" for w
    using write_chunks_returns [OF assms]
    by (fastforce simp: write_file_contents_def split: prod.split option.split)
  show ?thesis
  proof (cases "s_relative E path base")
    case (Inr rel)
    obtain r1 w1 where 1: "write_exact (s_write E) sock (put_DataMessage pad (data_header seq meta rel)) sizeof_DataMessage w = Some (r1, w1)"
      using we by blast
    obtain r2 w2 where 2: "write_exact (s_write E) sock (bytes_of rel) (length rel) w1 = Some (r2, w2)" using we by blast
    show ?thesis using Inr 1 2 wf [of w2] by (auto simp: send_datamsg_def)
  qed (simp add: send_datamsg_def)
qed

lemma frame_of_header:
  assumes "length rel \<le> 65535"
    and "length content = (if m_ftype meta = ft_regular then unat (m_fsize meta) else 0)"
  shows "is_frame (put_DataMessage pad (data_header seq meta rel) @ bytes_of rel @ content)"
    "frame_action (put_DataMessage pad (data_header seq meta rel) @ bytes_of rel @ content) =
       (if m_ftype meta = ft_regular then Install (c_str (bytes_of rel)) content else MakeDir (c_str (bytes_of rel)))"
proof -
  have "unat (of_nat (length rel) :: u16) = length rel"
    using assms(1) by (simp add: unat_of_nat)
  then show "is_frame (put_DataMessage pad (data_header seq meta rel) @ bytes_of rel @ content)"
    "frame_action (put_DataMessage pad (data_header seq meta rel) @ bytes_of rel @ content) =
       (if m_ftype meta = ft_regular then Install (c_str (bytes_of rel)) content else MakeDir (c_str (bytes_of rel)))"
    using message_frame [of "bytes_of rel" "data_header seq meta rel" content pad] assms(2)
    by (simp_all add: data_header_def)
qed

section \<open>What is reported\<close>

definition reported :: "report list \<Rightarrow> byte list" where
  "reported log = concat (map (\<lambda>x. case x of Chunk bs \<Rightarrow> bs | _ \<Rightarrow> []) log)"

lemma reported_simps [simp]:
  "reported [] = []" "reported (log @ [Chunk bs]) = reported log @ bs" "reported (log @ [Lost]) = reported log"
  "reported (log @ [Rule]) = reported log" "reported [Clear, Rule, Title] = []"
  "reported [Clear, Rule, Title, Chunk bs] = bs" "reported [Clear, Rule, Title, Lost] = []"
  by (simp_all add: reported_def)

lemma report_loop_run:
  assumes rd: "reads_stream rd inp" and tr: "transient_bounded (\<lambda>w (fd, n). rd w fd n) m"
  shows "length buf = CHUNK_SIZE \<Longrightarrow>
    \<exists>log' w' bs lost. report_loop rd fd buf log w = Some (log', w') \<and> inp w fd = bs @ lost @ inp w' fd \<and>
      reported log' = reported log @ bs \<and> (lost \<noteq> [] \<longrightarrow> Lost \<in> set log') \<and>
      (log' \<noteq> [] \<longleftrightarrow> log \<noteq> [] \<or> bs @ lost \<noteq> [])"
proof (induction "length (inp w fd)" arbitrary: w buf log rule: less_induct)
  case less
  obtain r buf1 w1 where r: "read_partial rd fd buf 0 CHUNK_SIZE w = Some (r, buf1, w1)"
    using read_partial_total [OF tr] by blast
  have S: "n_bytes r \<le> CHUNK_SIZE" "n_bytes r \<le> length (inp w fd)"
    "buf1 = mem_store 0 (take (n_bytes r) (inp w fd)) buf" "inp w1 fd = drop (n_bytes r) (inp w fd)"
    using read_partial_stream [OF rd _ r] less.prems by auto
  have b1: "length buf1 = CHUNK_SIZE" "take (n_bytes r) buf1 = take (n_bytes r) (inp w fd)"
    using S less.prems by (simp_all add: mem_store_def)
  let ?log = "if log = [] then [Clear, Rule, Title] else log"
  have rl: "reported ?log = reported log" by simp
  show ?case
  proof (cases "n_bytes r = 0")
    case True
    then show ?thesis using r S(4) by (subst report_loop.simps) (auto intro!: exI [of _ "[]"])
  next
    case pos: False
    show ?thesis
    proof (cases "io_bool r")
      case False
      have "report_loop rd fd buf log w = Some (?log @ [Lost], w1)"
        using r pos False by (subst report_loop.simps) (simp add: Let_def)
      moreover have "inp w fd = [] @ take (n_bytes r) (inp w fd) @ inp w1 fd" using S(4) by simp
      ultimately show ?thesis using pos S(2) rl
        by (intro exI [of _ "?log @ [Lost]"] exI [of _ w1] exI [of _ "[]"] exI [of _ "take (n_bytes r) (inp w fd)"]) auto
    next
      case True
      let ?l = "?log @ [Chunk (take (n_bytes r) buf1)]"
      have step: "report_loop rd fd buf log w = report_loop rd fd buf1 ?l w1"
        using r pos True by (subst report_loop.simps) (simp add: Let_def)
      have "length (inp w1 fd) < length (inp w fd)" using S(2,4) pos by simp
      from less.hyps [OF this b1(1)] obtain log' w' bs lost where
        I: "report_loop rd fd buf1 ?l w1 = Some (log', w')" "inp w1 fd = bs @ lost @ inp w' fd"
          "reported log' = reported ?l @ bs" "lost \<noteq> [] \<longrightarrow> Lost \<in> set log'" "log' \<noteq> []" by blast
      have "inp w fd = (take (n_bytes r) (inp w fd) @ bs) @ lost @ inp w' fd"
        using I(2) S(4) append_take_drop_id [of "n_bytes r" "inp w fd"] by simp
      moreover have "reported log' = reported log @ take (n_bytes r) (inp w fd) @ bs" using I(3) b1(2) rl by simp
      moreover have "take (n_bytes r) (inp w fd) \<noteq> []" using pos S(2) by auto
      ultimately show ?thesis using I step
        by (intro exI [of _ log'] exI [of _ w'] exI [of _ "take (n_bytes r) (inp w fd) @ bs"] exI [of _ lost]) simp
    qed
  qed
qed

section \<open>An example\<close>

text \<open>Writes as in \<open>sim_write\<close>; a file of three bytes that opens as descriptor 9.\<close>

definition ex_file :: "string \<Rightarrow> byte list" where
  "ex_file p = (if p = ''/r/d/f'' then [7, 8, 9] else [])"

definition ex_send :: "sim send_env" where
  "ex_send =
     \<lparr>s_write = sim_write, s_relative = (\<lambda>p b. Inr (drop (Suc (length b)) p)),
      s_open = (\<lambda>w p. (if p = ''/r/d/f'' then Some 9 else None, w)),
      s_mmap = (\<lambda>w fd n. (if fd = 9 \<and> n \<le> 3 then Some (take n (ex_file ''/r/d/f'')) else None, w)),
      s_close = (\<lambda>w fd. w), s_ok = (\<lambda>w. True)\<rparr>"

lemma ex_send_streams: "send_streams ex_send (\<lambda>w fd. snd w) ex_file"
  using sim_write_stream by (auto simp: send_streams_def ex_send_def ex_file_def split: if_splits)

lemma ex_send_bounded: "transient_bounded (\<lambda>w (fd, bs). s_write ex_send w fd bs) (\<lambda>w. length (fst w))"
  using sim_write_bounded by (simp add: ex_send_def)

definition ex_meta :: M where
  "ex_meta = \<lparr>m_name = ''f'', m_perms = 420, m_ftype = ft_regular, m_fsize = 3\<rparr>"

lemma ex_send_run:
  "send_datamsg ex_send (\<lambda>_. 0) 4 1 ''/r'' ''/r/d/f'' ex_meta ([Inl EINTR], []) =
   Some (Inr (True, [3], [], data_frame (\<lambda>_. 0) ex_file 1 ''d/f'' ''/r/d/f'' ex_meta))"
proof -
  have h: "length (put_DataMessage (\<lambda>_. 0) (data_header 1 ex_meta ''d/f'')) = sizeof_DataMessage"
    by (rule hdr.length_put)
  show ?thesis
    using h by (simp add: send_datamsg_def ex_send_def write_exact_def write_partial_def write_loop.simps transient_def
      MAX_RW_SIZE_def mem_slice_def sizeof_DataMessage_def exact_result_def io_bool_def bytes_of_def
      write_file_contents_def write_chunks.simps CHUNK_SIZE_def data_frame_def sent_content_def ex_file_def ex_meta_def)
qed

section \<open>Properties\<close>

text \<open>C7. \<open>send_datamsg\<close> returns when transient errors do not come for ever. On success the socket has
  got exactly one frame: the header, the path relative to the base, and the content of a regular
  file; the ticks add up to the size of the file, and the frame tells the daemon to make the
  directory or to install the file with that content. On failure the socket has got a prefix of
  that frame.\<close>

theorem send_datamsg_exact:
  assumes "send_streams E out file" and "s_relative E path base = Inr rel"
    and "transient_bounded (\<lambda>w (fd, bs). s_write E w fd bs) m"
  shows "\<exists>x. send_datamsg E pad sock seq base path meta w = Some x \<and>
    (\<forall>res ts w'. x = Inr (res, ts, w') \<longrightarrow>
      (let frame = data_frame pad file seq rel path meta in
       (\<exists>k. out w' sock = out w sock @ take k frame \<and> (res \<longrightarrow> k = length frame)) \<and>
       (res \<longrightarrow> is_frame frame \<and> sum_list ts = length (sent_content file path meta) \<and>
          frame_action frame =
            (if m_ftype meta = ft_regular then Install (c_str (bytes_of rel)) (sent_content file path meta)
             else MakeDir (c_str (bytes_of rel))))))"
proof -
  obtain x where x: "send_datamsg E pad sock seq base path meta w = Some x"
    using send_datamsg_returns [OF assms(3)] by blast
  show ?thesis
  proof (intro exI [of _ x] conjI allI impI x)
    fix res ts w' assume xr: "x = Inr (res, ts, w')"
    let ?f = "data_frame pad file seq rel path meta" and ?c = "sent_content file path meta"
    obtain k where k: "out w' sock = out w sock @ take k ?f" "res \<longrightarrow> k = length ?f"
      and r: "res \<longrightarrow> length rel \<le> 65535 \<and> length ?c = (if m_ftype meta = ft_regular then unat (m_fsize meta) else 0) \<and>
        sum_list ts = length ?c"
      using send_datamsg_stream [OF assms(1,2) x [unfolded xr]] by blast
    have "res \<longrightarrow> is_frame ?f \<and> frame_action ?f =
        (if m_ftype meta = ft_regular then Install (c_str (bytes_of rel)) ?c else MakeDir (c_str (bytes_of rel)))"
      unfolding data_frame_def using r frame_of_header by blast
    then show "let frame = ?f in (\<exists>k. out w' sock = out w sock @ take k frame \<and> (res \<longrightarrow> k = length frame)) \<and>
       (res \<longrightarrow> is_frame frame \<and> sum_list ts = length ?c \<and>
          frame_action frame =
            (if m_ftype meta = ft_regular then Install (c_str (bytes_of rel)) ?c
             else MakeDir (c_str (bytes_of rel))))"
      unfolding Let_def using k r by blast
  qed
qed

theorem send_datamsg_exact_witness:
  "send_datamsg ex_send (\<lambda>_. 0) 4 1 ''/r'' ''/r/d/f'' ex_meta ([Inl EINTR], []) =
     Some (Inr (True, [3], [], data_frame (\<lambda>_. 0) ex_file 1 ''d/f'' ''/r/d/f'' ex_meta)) \<and>
   frame_action (data_frame (\<lambda>_. 0) ex_file 1 ''d/f'' ''/r/d/f'' ex_meta) = Install [100, 47, 102] [7, 8, 9]"
proof -
  have rel: "s_relative ex_send ''/r/d/f'' ''/r'' = Inr ''d/f''" by (simp add: ex_send_def)
  have "frame_action (data_frame (\<lambda>_. 0) ex_file 1 ''d/f'' ''/r/d/f'' ex_meta) =
      (if m_ftype ex_meta = ft_regular then Install (c_str (bytes_of ''d/f'')) (sent_content ex_file ''/r/d/f'' ex_meta)
       else MakeDir (c_str (bytes_of ''d/f'')))"
    using send_datamsg_exact [OF ex_send_streams rel ex_send_bounded, of "\<lambda>_. 0" 4 1 ex_meta "([Inl EINTR], [])"]
    unfolding ex_send_run Let_def by blast
  then show ?thesis using ex_send_run by (simp add: ex_meta_def sent_content_def ex_file_def c_str_def bytes_of_def)
qed

end
