(* ===== verification/Logging.thy ===== *)
theory Logging
  imports Cxx_Lib
begin

text \<open>
  The log (\<^verbatim>\<open>enu/log.h\<close>, \<^verbatim>\<open>enu/log.cpp\<close>): the line that \<open>print\<close> writes and where, the way \<open>exit_break\<close> ends the
  process, and the macros. \<open>__FILE__\<close>, \<open>__LINE__\<close> and \<open>__FUNCTION__\<close> are a \<open>Loc\<close>; the clock is an
  argument.
\<close>

section \<open>Time stamps (std::chrono)\<close>

text \<open>
  The calendar date of a day counted from 1 January 1970: first the year, then the month are
  found by taking away their days.
\<close>

definition leap_year :: "nat \<Rightarrow> bool" where
  "leap_year y \<longleftrightarrow> y mod 4 = 0 \<and> (y mod 100 \<noteq> 0 \<or> y mod 400 = 0)"

definition year_days :: "nat \<Rightarrow> nat" where
  "year_days y = (if leap_year y then 366 else 365)"

definition month_days :: "nat \<Rightarrow> nat list" where
  "month_days y = [31, if leap_year y then 29 else 28, 31, 30, 31, 30, 31, 31, 30, 31, 30, 31]"

function find_year :: "nat \<Rightarrow> nat \<Rightarrow> nat \<times> nat" where
  "find_year y d = (if d < year_days y then (y, d) else find_year (y + 1) (d - year_days y))"
  by pat_completeness auto
termination
  by (relation "measure snd") (auto simp: year_days_def)

declare find_year.simps [simp del]

fun find_month :: "nat list \<Rightarrow> nat \<Rightarrow> nat \<times> nat" where
  "find_month (l # ls) d = (if d < l then (1, d + 1) else (case find_month ls (d - l) of (m, r) \<Rightarrow> (m + 1, r)))"
| "find_month [] d = (1, d + 1)"

definition civil :: "nat \<Rightarrow> nat \<times> nat \<times> nat" where
  "civil days = (case find_year 1970 days of (y, d) \<Rightarrow> (y, find_month (month_days y) d))"

text \<open>A number with at least the given count of digits.\<close>

definition digits :: "nat \<Rightarrow> nat \<Rightarrow> string" where
  "digits w n = replicate (w - length (dec n)) CHR ''0'' @ dec n"

text \<open>
  \<^verbatim>\<open>{:%Y-%m-%d %H:%M:%S}\<close> of a time of the system clock, which counts \<open>p\<close> decimals of a
  second (nine with libstdc++, six with libc++); \<^verbatim>\<open>%S\<close> prints them.
\<close>

definition format_time :: "nat \<Rightarrow> nat \<Rightarrow> string" where
  "format_time p t =
     (let secs = t div 10 ^ p; tod = secs mod 86400 in
      case civil (secs div 86400) of (y, m, d) \<Rightarrow>
        digits 4 y @ ''-'' @ digits 2 m @ ''-'' @ digits 2 d @ '' '' @
        digits 2 (tod div 3600) @ '':'' @ digits 2 (tod div 60 mod 60) @ '':'' @ digits 2 (tod mod 60) @
        (if p = 0 then [] else ''.'' @ digits p (t mod 10 ^ p)))"

section \<open>The log (log.h, log.cpp)\<close>

record Loc =
  l_fpath :: string
  l_line :: nat
  l_func :: string

datatype Level = L_info | L_warn | L_error | L_fatal

datatype target = Stdout | Stderr

fun level_target :: "Level \<Rightarrow> target" where
  "level_target L_info = Stdout"
| "level_target L_warn = Stderr"
| "level_target L_error = Stderr"
| "level_target L_fatal = Stderr"

fun level_color :: "Level \<Rightarrow> string" where
  "level_color L_info = []"
| "level_color L_warn = CHR 0x1B # ''[1;38;5;3m''"
| "level_color L_error = CHR 0x1B # ''[1;38;5;1m''"
| "level_color L_fatal = CHR 0x1B # ''[1;38;5;1m''"

text \<open>\<open>clock\<close>: the decimals of the clock and its value.\<close>

definition log_print :: "nat \<times> nat \<Rightarrow> Level \<Rightarrow> Loc \<Rightarrow> string \<Rightarrow> target \<times> string" where
  "log_print clock level loc args =
     (level_target level,
      format_time (fst clock) (snd clock) @ '' ['' @ path_filename (l_fpath loc) @ '':'' @ dec (l_line loc) @ ''] enu::'' @
      l_func loc @ level_color level @ '' '' @ args @ '' '' @ CHR 0x1B # ''[0m'' @ [CHR 0x0A])"

text \<open>
  How a process ends. \<open>exit_break\<close> executes the breakpoint instruction of the processor; unless a
  debugger takes the trap and continues, the signal \<^verbatim>\<open>SIGTRAP\<close> (5) ends the process there.
\<close>

datatype arch = X86_64 | AArch64 | Other_arch

datatype exit_status = Exit nat | Killed nat

definition SIGTRAP :: nat where "SIGTRAP = 5"

definition exit_break :: "arch \<Rightarrow> bool \<Rightarrow> exit_status" where
  "exit_break a debugger =
     (case a of
        X86_64 \<Rightarrow> if debugger then Exit 1 else Killed SIGTRAP
      | AArch64 \<Rightarrow> if debugger then Exit 1 else Killed SIGTRAP
      | Other_arch \<Rightarrow> Exit 1)"

text \<open>
  The macros: a call of \<open>print\<close> with the place it stands at, which \<open>log_print\<close> turns into the
  text at the time of the call; \<open>fatal\<close> and \<open>pfatal\<close> then end the process. \<open>machine\<close> is the
  processor and whether the process is debugged.
\<close>

datatype log_call = Log Level Loc string

fun log_text :: "nat \<times> nat \<Rightarrow> log_call \<Rightarrow> target \<times> string" where
  "log_text clock (Log level loc args) = log_print clock level loc args"

record machine =
  h_arch :: arch
  h_debugger :: bool

definition info :: "Loc \<Rightarrow> string \<Rightarrow> log_call" where
  "info loc args = Log L_info loc args"

definition warn :: "Loc \<Rightarrow> string \<Rightarrow> log_call" where
  "warn loc args = Log L_warn loc args"

definition log_error :: "Loc \<Rightarrow> string \<Rightarrow> log_call" where
  "log_error loc args = Log L_error loc args"

definition fatal :: "machine \<Rightarrow> Loc \<Rightarrow> string \<Rightarrow> log_call \<times> exit_status" where
  "fatal h loc args = (Log L_fatal loc args, exit_break (h_arch h) (h_debugger h))"

text \<open>\<open>err\<close>: the text of \<^verbatim>\<open>strerror(errno)\<close>.\<close>

definition pfatal :: "machine \<Rightarrow> Loc \<Rightarrow> string \<Rightarrow> string \<Rightarrow> log_call \<times> exit_status" where
  "pfatal h loc args err = fatal h loc (args @ '': '' @ err)"

section \<open>The calendar is right\<close>

text \<open>The days before a date: those of the years since 1970, of the months of the year, of the month.\<close>

fun months_before :: "nat list \<Rightarrow> nat \<Rightarrow> nat" where
  "months_before ls m = sum_list (take (m - 1) ls)"

definition days_before :: "nat \<times> nat \<times> nat \<Rightarrow> nat" where
  "days_before x = (case x of (y, m, d) \<Rightarrow>
     (\<Sum>k \<in> {1970..<y}. year_days k) + months_before (month_days y) m + (d - 1))"

definition valid_date :: "nat \<times> nat \<times> nat \<Rightarrow> bool" where
  "valid_date x \<longleftrightarrow> (case x of (y, m, d) \<Rightarrow> 1970 \<le> y \<and> 1 \<le> m \<and> m \<le> 12 \<and> 1 \<le> d \<and> d \<le> month_days y ! (m - 1))"

lemma find_year_sum:
  "find_year y d = (y', r) \<Longrightarrow> y \<le> y' \<and> r < year_days y' \<and> d = (\<Sum>k \<in> {y..<y'}. year_days k) + r"
proof (induction y d rule: find_year.induct)
  case (1 y d)
  show ?case
  proof (cases "d < year_days y")
    case False
    then have "find_year (y + 1) (d - year_days y) = (y', r)" using 1(2) by (subst (asm) find_year.simps) simp
    from 1(1) [OF False this] have I: "y + 1 \<le> y'" "r < year_days y'"
      "d - year_days y = (\<Sum>k \<in> {y + 1..<y'}. year_days k) + r" by auto
    have "(\<Sum>k \<in> {y..<y'}. year_days k) = year_days y + (\<Sum>k \<in> {y + 1..<y'}. year_days k)"
      using I(1) by (subst sum.atLeast_Suc_lessThan) simp_all
    then show ?thesis using I False by simp
  qed (use 1(2) in \<open>simp add: find_year.simps\<close>)
qed

lemma find_month_sum:
  "find_month ls d = (m, r) \<Longrightarrow> d < sum_list ls \<Longrightarrow>
     1 \<le> m \<and> m \<le> length ls \<and> 1 \<le> r \<and> r \<le> ls ! (m - 1) \<and> d = months_before ls m + (r - 1)"
proof (induction ls d arbitrary: m r rule: find_month.induct)
  case (1 l ls d)
  show ?case
  proof (cases "d < l")
    case False
    obtain m' where m: "find_month ls (d - l) = (m', r)" "m = m' + 1"
      using 1(2) False by (auto split: prod.splits)
    have "d - l < sum_list ls" using 1(3) False by simp
    from 1(1) [OF False m(1) this]
    have "1 \<le> m'" "m' \<le> length ls" "1 \<le> r" "r \<le> ls ! (m' - 1)" "d - l = months_before ls m' + (r - 1)"
      by blast+
    then show ?thesis using m(2) False by (cases m') auto
  qed (use 1(2) in auto)
qed simp

lemma month_days_sum: "sum_list (month_days y) = year_days y" "length (month_days y) = 12"
  by (simp_all add: month_days_def year_days_def)

lemma civil_correct: "valid_date (civil days) \<and> days_before (civil days) = days"
proof -
  obtain y d where y: "find_year 1970 days = (y, d)" by (cases "find_year 1970 days")
  obtain m r where m: "find_month (month_days y) d = (m, r)" by (cases "find_month (month_days y) d")
  have c: "civil days = (y, m, r)" by (simp add: civil_def y m)
  have "1970 \<le> y" "d < year_days y" "days = (\<Sum>k \<in> {1970..<y}. year_days k) + d"
    using find_year_sum [OF y] by blast+
  moreover have "d < sum_list (month_days y)" using calculation month_days_sum(1) by simp
  note find_month_sum [OF m this, unfolded month_days_sum(2)]
  ultimately show ?thesis unfolding c valid_date_def days_before_def by auto
qed

section \<open>A fatal error ends the process\<close>

text \<open>
  Nothing runs after \<open>fatal\<close>: the line is on the error output and the process ends without
  success, on the two processors by a signal unless it is being debugged.
\<close>

lemma fatal_ends:
  "snd (fatal h loc args) \<noteq> Exit 0" "fst (log_text clock (fst (fatal h loc args))) = Stderr"
  "h_arch h \<noteq> Other_arch \<Longrightarrow> \<not> h_debugger h \<Longrightarrow> snd (fatal h loc args) = Killed SIGTRAP"
  by (cases "h_arch h"; simp add: fatal_def exit_break_def log_print_def)+

text \<open>A line of the log, on 29 February 1972.\<close>

lemma log_line_example:
  "log_print (3, 68214896007) L_warn \<lparr>l_fpath = ''enu/main.cpp'', l_line = 519, l_func = ''enu_main''\<rparr> ''slow'' =
     (Stderr, ''1972-02-29 12:34:56.007 [main.cpp:519] enu::enu_main'' @ CHR 0x1B # ''[1;38;5;3m slow '' @ CHR 0x1B # ''[0m'' @ [CHR 0x0A])"
proof -
  have "civil 789 = (1972, 2, 29)"
    by (simp add: civil_def find_year.simps year_days_def leap_year_def month_days_def)
  moreover have r2: "replicate 2 c = [c, c]" for c :: char by (simp add: numeral_2_eq_2)
  moreover have "digits 4 1972 = ''1972''" "digits 2 2 = ''02''" "digits 2 29 = ''29''" "digits 2 12 = ''12''"
    "digits 2 34 = ''34''" "digits 2 56 = ''56''" "digits 3 7 = ''007''" "dec 519 = ''519''"
    by (simp_all add: digits_def dec.simps char_of_def bit_iff_odd r2)
  ultimately show ?thesis by (simp add: log_print_def format_time_def path_filename_def)
qed

end
