(* ===== verification/Render.thy ===== *)
theory Render
  imports Scan_Dir Complex_Main
begin

text \<open>
  The drawing of the progress (\<^verbatim>\<open>enu/main.cpp\<close>): \<open>term_height\<close>, \<open>scale\<close>, \<open>display_progress\<close> with its local functions,
  \<open>clear_progress\<close>. A \<^verbatim>\<open>double\<close> is a rational number, so the digits after rounding are those of the
  exact value; the rows and the layout do not depend on it. Text is the sequence of its UTF-8
  bytes. The tree is drawn as one snapshot.
\<close>

section \<open>Numbers (std::format)\<close>

text \<open>\<^verbatim>\<open>{:w.df}\<close>: rounding to the nearest, ties to the even digit.\<close>

definition round_even :: "rat \<Rightarrow> int" where
  "round_even x =
     (let f = \<lfloor>x\<rfloor>; d = x - of_int f in
      if d < 1 / 2 \<or> d = 1 / 2 \<and> even f then f else f + 1)"

definition fixed0 :: "nat \<Rightarrow> rat \<Rightarrow> string" where
  "fixed0 w x = pad_left w (dec (nat (round_even x)))"

definition fixed1 :: "nat \<Rightarrow> rat \<Rightarrow> string" where
  "fixed1 w x =
     (let t = nat (round_even (10 * x)) in pad_left w (dec (t div 10) @ ''.'' @ dec (t mod 10)))"

section \<open>The frame (main.cpp)\<close>

definition SYNC_ON :: string where "SYNC_ON = CHR 0x1B # ''[?2026h''"
definition SYNC_OFF :: string where "SYNC_OFF = CHR 0x1B # ''[?2026l''"
definition ERASE_TO_END :: string where "ERASE_TO_END = CHR 0x1B # ''[J''"

text \<open>The answer of \<open>ioctl\<close>: the rows of the terminal, when there is one.\<close>

definition term_height :: "nat option \<Rightarrow> nat" where
  "term_height ws = (case ws of Some rows \<Rightarrow> if rows \<noteq> 0 then rows - 1 else 23 | None \<Rightarrow> 23)"

text \<open>The array has five elements, of which four are given.\<close>

definition UNITS :: "string list" where
  "UNITS = [''B'', ''KiB'', ''MiB'', ''GiB'', []]"

function scale_loop :: "rat \<Rightarrow> nat \<Rightarrow> rat \<times> nat" where
  "scale_loop bytes idx =
     (if bytes \<ge> 1024 \<and> idx + 1 < length UNITS then scale_loop (bytes / 1024) (idx + 1) else (bytes, idx))"
  by pat_completeness auto
termination
  by (relation "measure (\<lambda>(b, i). length UNITS - i)") auto

declare scale_loop.simps [simp del]

definition scale :: "rat \<Rightarrow> rat \<times> string" where
  "scale bytes = (case scale_loop bytes 0 of (v, idx) \<Rightarrow> (v, UNITS ! idx))"

definition COL_START :: nat where "COL_START = 58"
definition BAR_WIDTH :: nat where "BAR_WIDTH = 40"

text \<open>The ten signs of the wheel: \<^verbatim>\<open>U+280B\<close> and so on, in UTF-8.\<close>

definition wheel :: "string list" where
  "wheel = map (\<lambda>c. [CHR 0xE2, fst c, snd c])
     [(CHR 0xA0, CHR 0x8B), (CHR 0xA0, CHR 0x99), (CHR 0xA0, CHR 0xB9), (CHR 0xA0, CHR 0xB8),
      (CHR 0xA0, CHR 0xBC), (CHR 0xA0, CHR 0xB4), (CHR 0xA0, CHR 0xA6), (CHR 0xA0, CHR 0xA7),
      (CHR 0xA0, CHR 0x87), (CHR 0xA0, CHR 0x8F)]"

text \<open>None: the length of the empty part of the bar is negative and \<^verbatim>\<open>std::string\<close> throws.\<close>

definition total_stats :: "rat \<Rightarrow> nat \<Rightarrow> nat \<Rightarrow> string option" where
  "total_stats elapsed_s done tot =
     (let ratio = (if tot \<noteq> 0 then of_nat done / of_nat tot else 1);
          filled = nat \<lfloor>ratio * of_nat BAR_WIDTH\<rfloor>;
          (done_val, done_unit) = scale (of_nat done);
          (speed_val, speed_unit) = scale (if elapsed_s > 0 then of_nat done / elapsed_s else 0);
          sym = wheel ! (nat \<lfloor>elapsed_s * 8\<rfloor> mod length wheel)
      in if filled > BAR_WIDTH then None
         else Some (''['' @ replicate filled CHR ''='' @ replicate (BAR_WIDTH - filled) CHR '' '' @ ''] ['' @
           fixed1 5 (min 100 (ratio * 100)) @ ''% '' @ fixed1 5 done_val @ '' '' @ done_unit @ '' '' @
           fixed1 5 speed_val @ '' '' @ speed_unit @ ''/s ] '' @ sym @ [CHR 0x0A]))"

definition node_stats :: "nat \<Rightarrow> nat \<Rightarrow> string" where
  "node_stats done tot =
     (if tot = 0 then [CHR 0x0A]
      else
        (let pct = 100 * of_nat done / of_nat tot; (done_val, done_unit) = scale (of_nat done) in
         if done < 1024
         then ''['' @ fixed1 5 pct @ ''% '' @ fixed0 5 done_val @ pad_right 3 done_unit @ '']'' @ [CHR 0x0A]
         else ''['' @ fixed1 5 pct @ ''% '' @ fixed1 5 done_val @ pad_right 3 done_unit @ '']'' @ [CHR 0x0A]))"

text \<open>The pieces of the branches: \<^verbatim>\<open>U+2514\<close>, \<^verbatim>\<open>U+251C\<close>, \<^verbatim>\<open>U+2502\<close> and \<^verbatim>\<open>U+2500\<close>.\<close>

definition ELBOW :: string where "ELBOW = [CHR 0xE2, CHR 0x94, CHR 0x94, CHR 0xE2, CHR 0x94, CHR 0x80, CHR '' '']"
definition TEE :: string where "TEE = [CHR 0xE2, CHR 0x94, CHR 0x9C, CHR 0xE2, CHR 0x94, CHR 0x80, CHR '' '']"
definition PIPE :: string where "PIPE = [CHR 0xE2, CHR 0x94, CHR 0x82, CHR '' '', CHR '' '']"

text \<open>The row of a node, without its branch, at the column \<open>p_len\<close>.\<close>

definition node_row :: "M TrackedNode \<Rightarrow> nat \<Rightarrow> string" where
  "node_row r p_len =
     (let name = m_name (n_meta r) in
      name @ (if p_len + length name \<ge> COL_START then '' ''
              else replicate (COL_START - (p_len + length name)) CHR '' '') @
      node_stats (unat (n_done r)) (unat (n_total r)))"

text \<open>
  \<open>visit\<close> and the loop over the children, \<open>idx\<close> of \<open>cnt\<close> done. The first argument bounds the depth;
  None is a freed node, a node that is not ready, or the bound.
\<close>

fun visit :: "nat \<Rightarrow> M tracked \<Rightarrow> nat \<Rightarrow> nid \<Rightarrow> string \<Rightarrow> nat \<Rightarrow> bool \<Rightarrow> string \<times> nat \<Rightarrow> (string \<times> nat) option"
  and visit_children :: "nat \<Rightarrow> M tracked \<Rightarrow> nat \<Rightarrow> nid list \<Rightarrow> nat \<Rightarrow> nat \<Rightarrow> string \<Rightarrow> nat \<Rightarrow> string \<times> nat \<Rightarrow> (string \<times> nat) option"
where
  "visit 0 F max_rows n p p_len lst s = None"
| "visit (Suc k) F max_rows n p p_len lst (out, line_count) =
     (if line_count + 1 = max_rows then Some (out, line_count)
      else
        (case t_nodes F n of
           None \<Rightarrow> None
         | Some r \<Rightarrow>
             (let root = (n_parent r = None);
                  out = (if root then out else out @ p @ (if lst then ELBOW else TEE));
                  p = (if root then p else p @ (if lst then ''   '' else PIPE));
                  p_len = (if root then p_len else p_len + 3);
                  out = out @ node_row r p_len;
                  line_count = line_count + 1
              in if n_ready r
                 then visit_children k F max_rows (n_children r) 0 (length (n_children r)) p p_len (out, line_count)
                 else None)))"
| "visit_children k F max_rows [] idx cnt p p_len s = Some s"
| "visit_children k F max_rows (c # cs) idx cnt p p_len s =
     (let idx = idx + 1 in
      case visit k F max_rows c p p_len (idx = cnt) s of
        None \<Rightarrow> None
      | Some s \<Rightarrow> visit_children k F max_rows cs idx cnt p p_len s)"

text \<open>
  \<open>display_progress\<close>: what is printed and the number of lines. The call passes \<^verbatim>\<open>true\<close> for \<open>p_len\<close> and
  \<^verbatim>\<open>0\<close> for \<open>last\<close>.
\<close>

definition display_progress :: "nat option \<Rightarrow> M tracked \<Rightarrow> rat \<Rightarrow> (string \<times> nat) option" where
  "display_progress ws F elapsed_s =
     (case visit (t_next F) F (term_height ws) (t_root F) [] 1 False ([], 0) of
        None \<Rightarrow> None
      | Some (out, line_count) \<Rightarrow>
          (case total_stats elapsed_s (unat (t_sum_done F)) (unat (t_sum_total F)) of
             None \<Rightarrow> None
           | Some stats \<Rightarrow>
               (let out = out @ stats; line_count = line_count + 1 in
                Some (SYNC_ON @ ERASE_TO_END @ out @
                      (if line_count > 0 then CHR 0x1B # ''['' @ dec line_count @ ''A'' else []) @ SYNC_OFF,
                      line_count))))"

definition clear_progress :: string where
  "clear_progress = SYNC_ON @ ERASE_TO_END @ SYNC_OFF"

section \<open>Rows\<close>

definition rows :: "string \<Rightarrow> nat" where
  "rows s = length (filter (\<lambda>c. c = CHR 0x0A) s)"

lemma rows_simps [simp]:
  "rows [] = 0" "rows (a @ b) = rows a + rows b" "rows (c # s) = (if c = CHR 0x0A then Suc (rows s) else rows s)"
  "rows (replicate n CHR '' '') = 0" "rows (replicate n CHR ''='') = 0"
  by (simp_all add: rows_def)

lemma rows_none: "CHR 0x0A \<notin> set s \<Longrightarrow> rows s = 0"
  by (induction s) auto

lemma rows_dec [simp]: "rows (dec n) = 0"
proof (induction n rule: dec.induct)
  case (1 n)
  have digit: "char_of (48 + d) \<noteq> CHR 0x0A" if "d < 10" for d :: nat
  proof
    assume "char_of (48 + d) = CHR 0x0A"
    then have "of_char (char_of (48 + d)) = (of_char (CHR 0x0A) :: nat)" by simp
    then show False using that by (simp add: of_char_of)
  qed
  show ?case
  proof (cases "n < 10")
    case True
    then show ?thesis using digit [of n] by (subst dec.simps) simp
  next
    case False
    then show ?thesis using 1 digit [of "n mod 10"] by (subst dec.simps) simp
  qed
qed

lemma rows_fixed [simp]: "rows (fixed0 w x) = 0" "rows (fixed1 w x) = 0"
  by (simp_all add: fixed0_def fixed1_def pad_left_def Let_def)

lemma scale_loop_idx: "idx < length UNITS \<Longrightarrow> snd (scale_loop b idx) < length UNITS"
proof (induction b idx rule: scale_loop.induct)
  case (1 b idx)
  then show ?case by (subst scale_loop.simps) auto
qed

lemma rows_unit [simp]: "rows (snd (scale b)) = 0"
proof -
  have "snd (scale_loop b 0) < length UNITS" by (rule scale_loop_idx) (simp add: UNITS_def)
  then have "UNITS ! snd (scale_loop b 0) \<in> set UNITS" by simp
  then show ?thesis by (auto simp: scale_def UNITS_def split: prod.splits)
qed

lemma rows_node_stats [simp]: "rows (node_stats done tot) = 1"
proof -
  obtain v u where u: "scale (of_nat done) = (v, u)" by (cases "scale (of_nat done)")
  then have "rows u = 0" using rows_unit [of "of_nat done"] by simp
  then show ?thesis using u by (simp add: node_stats_def Let_def pad_right_def)
qed

lemma rows_node_row: "CHR 0x0A \<notin> set (m_name (n_meta r)) \<Longrightarrow> rows (node_row r p_len) = 1"
  by (simp add: node_row_def Let_def rows_none)

lemma total_stats_ok:
  assumes "done \<le> tot"
  shows "\<exists>s. total_stats elapsed_s done tot = Some s \<and> rows s = 1"
proof -
  define ratio :: rat where "ratio = (if tot \<noteq> 0 then of_nat done / of_nat tot else 1)"
  have "ratio \<le> 1" using assms by (simp add: ratio_def divide_le_eq)
  then have "ratio * of_nat BAR_WIDTH \<le> of_nat BAR_WIDTH" by (simp add: BAR_WIDTH_def)
  then have "\<lfloor>ratio * of_nat BAR_WIDTH\<rfloor> \<le> \<lfloor>of_nat BAR_WIDTH :: rat\<rfloor>" by (rule floor_mono)
  then have f: "\<not> nat \<lfloor>ratio * of_nat BAR_WIDTH\<rfloor> > BAR_WIDTH" by simp
  obtain v u where u: "scale (of_nat done) = (v, u)" by (cases "scale (of_nat done)")
  obtain v' u' where u': "scale (if elapsed_s > 0 then of_nat done / elapsed_s else 0) = (v', u')"
    by (cases "scale (if elapsed_s > 0 then of_nat done / elapsed_s else 0)")
  have r: "rows u = 0" "rows u' = 0" using rows_unit [of "of_nat done"] u
      rows_unit [of "if elapsed_s > 0 then of_nat done / elapsed_s else 0"] u' by simp_all
  have "wheel ! (nat \<lfloor>elapsed_s * 8\<rfloor> mod length wheel) \<in> set wheel" by (rule nth_mem) (simp add: wheel_def)
  moreover have "rows x = 0" if "x \<in> set wheel" for x using that by (auto simp: wheel_def)
  ultimately have w: "rows (wheel ! (nat \<lfloor>elapsed_s * 8\<rfloor> mod length wheel)) = 0" by blast
  show ?thesis
    unfolding total_stats_def Let_def ratio_def [symmetric] u u' prod.case using f r w by (simp only: if_False) simp
qed

section \<open>The rows of the tree\<close>

text \<open>The last row of the terminal is kept for the totals; a height of zero sets no limit.\<close>

definition cap :: "nat \<Rightarrow> nat \<Rightarrow> nat" where
  "cap max_rows x = (if max_rows = 0 then x else min (max_rows - 1) x)"

lemma cap_cap: "cap m (cap m a + b) = cap m (a + b)"
  by (simp add: cap_def min_def)

definition drawable :: "M tracked \<Rightarrow> bool" where
  "drawable F \<longleftrightarrow> wf_tree F \<and> unat (t_sum_done F) \<le> unat (t_sum_total F) \<and>
     (\<forall>n r. t_nodes F n = Some r \<longrightarrow> n_ready r \<and> CHR 0x0A \<notin> set (m_name (n_meta r)))"

lemma branch_rows [simp]: "rows ELBOW = 0" "rows TEE = 0" "rows PIPE = 0"
  by (simp_all add: ELBOW_def TEE_def PIPE_def)

lemma visit_children_rows:
  assumes one: "\<And>c p_len lst out lc. c \<in> set cs \<Longrightarrow> max_rows = 0 \<or> lc < max_rows \<Longrightarrow>
      \<exists>out' lc'. visit k F max_rows c p p_len lst (out, lc) = Some (out', lc') \<and>
        lc' = cap max_rows (lc + length (subtree k F c)) \<and> rows out' + lc = rows out + lc'"
    and "max_rows = 0 \<or> lc < max_rows"
  shows "\<exists>out' lc'. visit_children k F max_rows cs idx cnt p p_len (out, lc) = Some (out', lc') \<and>
    lc' = cap max_rows (lc + length (concat (map (subtree k F) cs))) \<and> rows out' + lc = rows out + lc'"
  using assms
proof (induction cs arbitrary: idx out lc)
  case Nil
  then show ?case by (auto simp: cap_def)
next
  case (Cons c cs)
  obtain o1 l1 where 1: "visit k F max_rows c p p_len (idx + 1 = cnt) (out, lc) = Some (o1, l1)"
    "l1 = cap max_rows (lc + length (subtree k F c))" "rows o1 + lc = rows out + l1"
    using Cons.prems(1) [of c lc p_len "idx + 1 = cnt" out] Cons.prems(2) by auto
  have "max_rows = 0 \<or> l1 < max_rows" using 1(2) by (auto simp: cap_def)
  then obtain o2 l2 where 2: "visit_children k F max_rows cs (idx + 1) cnt p p_len (o1, l1) = Some (o2, l2)"
    "l2 = cap max_rows (l1 + length (concat (map (subtree k F) cs)))" "rows o2 + l1 = rows o1 + l2"
    using Cons.IH [of l1 "idx + 1" o1] Cons.prems(1) by fastforce
  have "l2 = cap max_rows (lc + length (concat (map (subtree k F) (c # cs))))"
    using 1(2) 2(2) by (simp add: cap_cap add.assoc)
  then show ?case using 1 2 by simp
qed

lemma visit_rows:
  assumes F: "drawable F"
  shows "t_nodes F n \<noteq> None \<Longrightarrow> t_next F - n \<le> k \<Longrightarrow> rows p = 0 \<Longrightarrow> max_rows = 0 \<or> lc < max_rows \<Longrightarrow>
    \<exists>out' lc'. visit k F max_rows n p p_len lst (out, lc) = Some (out', lc') \<and>
      lc' = cap max_rows (lc + length (subtree k F n)) \<and> rows out' + lc = rows out + lc'"
proof (induction k arbitrary: n p p_len lst out lc)
  case 0
  have wf: "wf_tree F" using F by (simp add: drawable_def)
  have "n < t_next F"
    using wf_linksD(5) [OF wf [unfolded wf_tree_def]] 0(1) by (metis not_Some_eq parent_of_None)
  then show ?case using 0(2) by simp
next
  case (Suc k)
  obtain r where r: "t_nodes F n = Some r" using Suc.prems(1) by auto
  have wf: "wf_tree F" and rd: "n_ready r" and nm: "CHR 0x0A \<notin> set (m_name (n_meta r))"
    using F r by (auto simp: drawable_def)
  note W = wf_linksD [OF wf [unfolded wf_tree_def]]
  show ?case
  proof (cases "lc + 1 = max_rows")
    case True
    then show ?thesis by (auto simp: cap_def)
  next
    case False
    let ?root = "n_parent r = None"
    let ?p = "if ?root then p else p @ (if lst then ''   '' else PIPE)"
    let ?pl = "if ?root then p_len else p_len + 3"
    let ?o = "(if ?root then out else out @ p @ (if lst then ELBOW else TEE)) @ node_row r ?pl"
    have p: "rows ?p = 0" using Suc.prems(3) by simp
    have o: "rows ?o = rows out + 1" using Suc.prems(3) rows_node_row [OF nm] by simp
    have l: "max_rows = 0 \<or> lc + 1 < max_rows" using False Suc.prems(4) by auto
    have kid: "t_nodes F c \<noteq> None" "t_next F - c \<le> k" if "c \<in> set (n_children r)" for c
    proof -
      have c: "c \<in> set (children_of F n)" using that r by simp
      show "t_nodes F c \<noteq> None" using W(8) [OF c] by (metis option.distinct(1) parent_of_None)
      show "t_next F - c \<le> k" using W(7) [OF c] Suc.prems(2) by simp
    qed
    have "\<exists>o2 l2. visit_children k F max_rows (n_children r) 0 (length (n_children r)) ?p ?pl (?o, lc + 1) = Some (o2, l2) \<and>
      l2 = cap max_rows (lc + 1 + length (concat (map (subtree k F) (n_children r)))) \<and> rows o2 + (lc + 1) = rows ?o + l2"
      by (rule visit_children_rows [OF Suc.IH [OF kid p] l]) simp_all
    then obtain o2 l2 where 2: "visit_children k F max_rows (n_children r) 0 (length (n_children r)) ?p ?pl (?o, lc + 1) = Some (o2, l2)"
      "l2 = cap max_rows (lc + 1 + length (concat (map (subtree k F) (n_children r))))" "rows o2 + (lc + 1) = rows ?o + l2"
      by blast
    have "visit (Suc k) F max_rows n p p_len lst (out, lc) = Some (o2, l2)"
      using r rd False 2(1) by (simp add: Let_def)
    moreover have "l2 = cap max_rows (lc + length (subtree (Suc k) F n))" using 2(2) r by simp
    ultimately show ?thesis using 2(3) o by simp
  qed
qed

section \<open>Units\<close>

lemma scale_loop_value:
  "idx < length UNITS \<Longrightarrow> scale_loop b idx = (v, i) \<Longrightarrow>
   idx \<le> i \<and> i < length UNITS \<and> b = v * 1024 ^ (i - idx) \<and> (v < 1024 \<or> i + 1 = length UNITS)"
proof (induction b idx rule: scale_loop.induct)
  case (1 b idx)
  show ?case
  proof (cases "b \<ge> 1024 \<and> idx + 1 < length UNITS")
    case True
    have "scale_loop (b / 1024) (idx + 1) = (v, i)" using 1(3) True by (subst (asm) scale_loop.simps) simp
    then have I: "idx + 1 \<le> i" "i < length UNITS" "b / 1024 = v * 1024 ^ (i - (idx + 1))"
      "v < 1024 \<or> i + 1 = length UNITS" using 1(1) [OF True] True by auto
    have "i - idx = Suc (i - (idx + 1))" using I(1) by simp
    then have "b = v * 1024 ^ (i - idx)" using I(3) by (simp add: divide_eq_eq)
    then show ?thesis using I by simp
  next
    case False
    then have "v = b \<and> i = idx" using 1(3) by (subst (asm) scale_loop.simps) auto
    then show ?thesis using False 1(2) by auto
  qed
qed

text \<open>The value times its unit is the number; from \<^verbatim>\<open>2^40\<close> on the unit is the missing fifth name.\<close>

lemma scale_units:
  assumes "scale b = (v, u)"
  shows "\<exists>i < length UNITS. u = UNITS ! i \<and> b = v * 1024 ^ i \<and> (v < 1024 \<or> u = [])"
proof -
  obtain w i where w: "scale_loop b 0 = (w, i)" by (cases "scale_loop b 0")
  have "v = w" "u = UNITS ! i" using assms w by (simp_all add: scale_def)
  then show ?thesis using scale_loop_value [OF _ w] by (auto simp: UNITS_def)
qed

lemma scale_no_unit: "scale (1024 ^ 4) = (1, [])"
  by (simp add: scale_def scale_loop.simps UNITS_def)

section \<open>An example\<close>

definition ex_draw :: "M tracked" where
  "ex_draw =
     \<lparr>t_nodes =
        [0 \<mapsto> \<lparr>n_ready = True, n_children = [1], n_done = 0, n_total = 0, n_parent = None,
               n_meta = \<lparr>m_name = ''d'', m_perms = 493, m_ftype = ft_directory, m_fsize = 0\<rparr>\<rparr>,
         1 \<mapsto> \<lparr>n_ready = True, n_children = [], n_done = 3, n_total = 5, n_parent = Some 0,
               n_meta = \<lparr>m_name = ''f'', m_perms = 420, m_ftype = ft_regular, m_fsize = 5\<rparr>\<rparr>],
      t_next = Suc (Suc 0), t_root = 0, t_start = 0, t_last_draw = 0, t_rows = 0, t_sum_done = 3, t_sum_total = 5\<rparr>"

lemma ex_draw_links:
  "parent_of ex_draw = [0 \<mapsto> None, 1 \<mapsto> Some 0]" "children_of ex_draw = (\<lambda>n. if n = 0 then [1] else [])"
  by (auto simp: fun_eq_iff ex_draw_def parent_of_def children_of_def)

lemma ex_drawable: "drawable ex_draw"
proof -
  have "wf_tree ex_draw" unfolding wf_tree_def wf_links_def ex_draw_links
    by (auto simp: ex_draw_def split: if_splits)
  then show ?thesis by (auto simp: drawable_def ex_draw_def split: if_splits)
qed

section \<open>Properties\<close>

text \<open>C35. A frame of the display fits the terminal: its rows are the nodes of the tree and the totals, cut
  off at the height of the terminal, and the number returned, by which the cursor moves up
  again, is the number of lines printed. Only a terminal of a single row sets no limit.\<close>

theorem display_fits:
  assumes "drawable F"
  shows "\<exists>out. display_progress ws F elapsed_s =
      Some (out, Suc (cap (term_height ws) (length (subtree (t_next F) F (t_root F))))) \<and>
    rows out = Suc (cap (term_height ws) (length (subtree (t_next F) F (t_root F)))) \<and>
    (ws \<noteq> Some 1 \<longrightarrow> rows out \<le> term_height ws)"
proof -
  have wf: "wf_tree F" and s: "unat (t_sum_done F) \<le> unat (t_sum_total F)" using assms by (simp_all add: drawable_def)
  have root: "t_nodes F (t_root F) \<noteq> None"
    using wf_linksD(1) [OF wf [unfolded wf_tree_def]] by (metis option.distinct(1) parent_of_None)
  obtain o1 l1 where v: "visit (t_next F) F (term_height ws) (t_root F) [] 1 False ([], 0) = Some (o1, l1)"
    "l1 = cap (term_height ws) (length (subtree (t_next F) F (t_root F)))" "rows o1 = l1"
    using visit_rows [OF assms root, of "t_next F" "[]" "term_height ws" 0 1 False "[]"] by auto
  obtain st where st: "total_stats elapsed_s (unat (t_sum_done F)) (unat (t_sum_total F)) = Some st" "rows st = 1"
    using total_stats_ok [OF s] by blast
  have "ws = Some 1" if "term_height ws = 0" using that by (cases ws) (auto simp: term_height_def split: if_splits)
  then have "ws \<noteq> Some 1 \<longrightarrow> Suc l1 \<le> term_height ws" unfolding v(2) cap_def by force
  then show ?thesis using v st
    by (simp add: display_progress_def Let_def SYNC_ON_def SYNC_OFF_def ERASE_TO_END_def)
qed

theorem display_fits_witness:
  "\<exists>out. display_progress (Some 24) ex_draw 2 = Some (out, 3) \<and> rows out = 3"
proof -
  have "length (subtree (t_next ex_draw) ex_draw (t_root ex_draw)) = 2"
    by (simp add: ex_draw_def children_of_def)
  then show ?thesis using display_fits [OF ex_drawable, of "Some 24" 2] by (auto simp: cap_def term_height_def)
qed

end
