(* ===== verification/Enu_Main.thy ===== *)
theory Enu_Main
  imports Logging Send_Data Daemon_Loop Arg_Parser Fs_Watch Proc_Spawn
    Render
begin

text \<open>
  The program as a whole (\<^verbatim>\<open>enu/main.cpp\<close>): \<open>main\<close> with its checks of the path, \<open>enu_main\<close>, and the frame of
  \<open>sync_with_remote\<close>, which starts ssh, runs the engine and judges the exit code of ssh. What is
  printed is a list of texts and log calls; a run that does not return is None, undefined
  behaviour is \<open>Some None\<close>.
\<close>

section \<open>The remote daemon (sync_with_remote)\<close>

definition ssh_path :: string where
  "ssh_path = ''/usr/bin/ssh''"

definition ssh_args :: "string list" where
  "ssh_args = [''-o'', ''ExitOnForwardFailure=yes'', ''-o'', ''ControlMaster=auto'', ''-o'', ''ControlPath=~/.ssh/%h'',
     ''nicolas@localhost'', ''exec /Users/nicolas/Projects/enuwatch/build/enu/enu --daemon'']"

text \<open>\<open>Process::spawn\<close> puts the path in front of the arguments.\<close>

definition spawn :: "spawn_env \<Rightarrow> string \<Rightarrow> string list \<Rightarrow> fdtab \<times> ofile \<Rightarrow> nat set \<Rightarrow> spawned" where
  "spawn S path args s oldmask = process_spawn S (bytes_of path) (map bytes_of (path # args)) s oldmask"

text \<open>\<open>socks\<close>: the number of threads that have a socket, \<open>r\<close>: the answer of \<^verbatim>\<open>rand\<close>.\<close>

definition init_message :: "nat \<Rightarrow> nat \<Rightarrow> DaemonInitMessage" where
  "init_message r socks = \<lparr>base_port = random_port r, n_conns = of_nat socks\<rparr>"

text \<open>
  What follows the recursion, with the destructor of the process at the end. \<open>rd t\<close> is the call
  \<^verbatim>\<open>read\<close> of a process with the descriptors \<open>t\<close>.
\<close>

definition sync_finish ::
  "(fdtab \<Rightarrow> 'w sys_read) \<Rightarrow> (int \<Rightarrow> bool) \<Rightarrow> (int \<Rightarrow> u32 option) \<Rightarrow> bool \<Rightarrow> Process \<times> fdtab \<Rightarrow> 'w \<Rightarrow>
   (bool \<times> report list \<times> fdtab \<times> 'w) option" where
  "sync_finish rd kill waitpid ok s w =
     (case terminate kill waitpid s of (exit_code, daemon, t) \<Rightarrow>
      (case (if exit_code \<noteq> 0 then
               map_option (\<lambda>(rep, w). (False, rep, w)) (report_stderr_remote (rd t) (int (err_rd daemon)) w)
             else Some (ok, [], w)) of
         None \<Rightarrow> None
       | Some (res, rep, w) \<Rightarrow>
           Some (res, rep, delete_Process kill waitpid (daemon, t), w)))"

record 'w sync_env =
  v_spawn :: spawn_env
  v_tab :: "fdtab \<times> ofile"
  v_mask :: "nat set"
  v_rand :: nat
  v_render :: "M tracked \<Rightarrow> int \<Rightarrow> nat"
  v_read :: "fdtab \<Rightarrow> 'w sys_read"
  v_kill :: "int \<Rightarrow> bool"
  v_waitpid :: "int \<Rightarrow> u32 option"
  v_world :: 'w

text \<open>
  \<open>sync_with_remote V dir F res rep\<close>: the call can return \<open>res\<close>, having reported \<open>rep\<close> at its end;
  the tasks run in any order.
\<close>

inductive sync_with_remote :: "'w sync_env \<Rightarrow> string \<Rightarrow> M tracked \<Rightarrow> bool \<Rightarrow> report list \<Rightarrow> bool" for V where
  sync_returns:
    "\<lbrakk>spawn (v_spawn V) ssh_path ssh_args (v_tab V) (v_mask V) = spawned.Running daemon t sigmask child;
      (sync_step (v_render V))\<^sup>*\<^sup>* (sync_start (base_port (init_message (v_rand V) 0)) dir F) s; y_tasks s = {#};
      sync_finish (v_read V) (v_kill V) (v_waitpid V) (y_ok s) (daemon, t) (v_world V) = Some (res, rep, t', w')\<rbrakk>
     \<Longrightarrow> sync_with_remote V dir F res rep"

inductive_cases sync_with_remoteE: "sync_with_remote V dir F res rep"

section \<open>The program (main)\<close>

text \<open>What a run does visibly: texts, calls of the log, and the handling of a signal.\<close>

datatype disp = Ignore | Default | Clears_progress

datatype out = Text target string | Call log_call | Signal nat disp

definition SIGINT :: nat where "SIGINT = 2"
definition SIGPIPE :: nat where "SIGPIPE = 13"

definition loc_at :: "string \<Rightarrow> nat \<Rightarrow> string \<Rightarrow> Loc" where
  "loc_at file line func = \<lparr>l_fpath = file, l_line = line, l_func = func\<rparr>"

text \<open>
  What the program asks of its environment. An error of the file system is its message. \<open>is_dir\<close>
  answers whether the path is a directory and the error, when there is one; \<open>create\<close> and
  \<open>started\<close> are the two calls of the watcher that may fail.
\<close>

record 'd main_env =
  g_machine :: machine
  g_stod :: "string \<Rightarrow> 'd option"
  g_zero :: 'd
  g_cwd :: "string + string"
  g_canonical :: "string \<Rightarrow> string + string"
  g_is_dir :: "string \<Rightarrow> bool \<times> string option"
  g_create :: "byte list list \<Rightarrow> 'd \<Rightarrow> u32 \<Rightarrow> bool"
  g_started :: bool
  g_fs :: fs_env
  g_sort :: "(M \<Rightarrow> M \<Rightarrow> bool) \<Rightarrow> M list \<Rightarrow> M list"
  g_now :: int

definition die :: "machine \<Rightarrow> Loc \<Rightarrow> string \<Rightarrow> out list \<times> exit_status" where
  "die h loc args = (case fatal h loc args of (c, st) \<Rightarrow> ([Call c], st))"

text \<open>How \<open>parse\<close> ends the process; an exception that nobody catches raises \<^verbatim>\<open>SIGABRT\<close> (6).\<close>

fun parse_end :: "parse_error \<Rightarrow> (out list \<times> exit_status) option" where
  "parse_end (RequiresValue f) = Some ([Text Stderr (''flag --'' @ f @ '' requires a value'' @ [CHR 0x0A])], Exit 1)"
| "parse_end (InvalidArgument arg) = Some ([Text Stderr (''invalid argument: '' @ CHR 0x27 # arg @ [CHR 0x27, CHR 0x0A])], Exit 1)"
| "parse_end MissingHost = Some ([Text Stderr (''missing user@hostname argument'' @ [CHR 0x0A])], Exit 1)"
| "parse_end (StodThrows v) = Some ([], Killed 6)"
| "parse_end NoProgramName = None"

text \<open>The checks of the path: the line and the message of the error, or the path to work on.\<close>

definition resolve_path :: "'d main_env \<Rightarrow> string \<Rightarrow> nat \<times> string + string" where
  "resolve_path E path =
     (if path = [] then
        (case g_cwd E of Inl msg \<Rightarrow> Inl (533, str_to_lower msg) | Inr p \<Rightarrow> Inr p)
      else
        (case g_canonical E path of
           Inl msg \<Rightarrow> Inl (537, path @ '': '' @ str_to_lower msg)
         | Inr p \<Rightarrow>
             (case g_is_dir E p of (d, ec) \<Rightarrow>
              if \<not> d then Inl (541, p @ '' is not a directory'')
              else (case ec of Some msg \<Rightarrow> Inl (543, str_to_lower msg) | None \<Rightarrow> Inr p))))"

text \<open>The constructor of the watcher or its start fails.\<close>

definition watch_fatal :: "'d main_env \<Rightarrow> 'd Args \<Rightarrow> out list \<times> exit_status" where
  "watch_fatal E arg =
     (if create_stream (g_create E) [bytes_of (a_path arg)] (a_latency arg) = None
      then die (g_machine E) (loc_at ''fsevent.cpp'' 108 ''create_stream'')
             ''FSEventStreamCreate shouldn't fail, old version of MacOS?''
      else die (g_machine E) (loc_at ''fsevent.cpp'' 137 ''run_in_thread'')
             ''FSEventStreamStart shouldn't fail, old version of MacOS?'')"

definition scan_log :: "(string \<times> string) list \<Rightarrow> out list" where
  "scan_log = map (\<lambda>(path, kind). Call (warn (loc_at ''main.cpp'' 284 ''operator()'') (path @ '': '' @ kind @ '' file type ignored'')))"

text \<open>\<open>sync\<close>: the result of \<open>sync_with_remote\<close> in this run.\<close>

definition enu_main :: "'d main_env \<Rightarrow> (string \<Rightarrow> M tracked \<Rightarrow> bool) \<Rightarrow> 'd Args \<Rightarrow> (out list \<times> exit_status) option option" where
  "enu_main E sync arg =
     (case watch_dir (g_create E) (g_started E) (bytes_of (a_path arg)) (a_latency arg) of
        None \<Rightarrow> Some (Some (watch_fatal E arg))
      | Some _ \<Rightarrow>
          (case scan_dir (g_fs E) (g_sort E) (a_path arg) 0 (new_root (make_M (g_fs E) (a_path arg)) (g_now E)) of
             None \<Rightarrow> None
           | Some None \<Rightarrow> Some None
           | Some (Some (_, root_node, warned)) \<Rightarrow>
               (let done = Signal SIGINT Clears_progress # scan_log warned in
                if \<not> sync (a_path arg) root_node then
                  Some (Some (done @ [Text Stdout clear_progress,
                    Call (log_error (loc_at ''main.cpp'' 515 ''enu_main'') ''syncing error'')], Exit 1))
                else Some (Some (done @ [Signal SIGINT Default, Text Stdout clear_progress], Exit 0)))))"

text \<open>The value of \<open>main\<close> after \<open>daemon_main\<close>, and the other ends of the daemon.\<close>

fun daemon_end :: "machine \<Rightarrow> stop \<Rightarrow> exit_status option" where
  "daemon_end h (Return r) = Some (Exit (if r then 0 else 1))"
| "daemon_end h (Fatal msg) = Some (exit_break (h_arch h) (h_debugger h))"
| "daemon_end h (Undefined what) = None"

text \<open>\<open>daemon\<close>: what \<open>daemon_main\<close> prints and how it stops, None when it runs on.\<close>

definition main ::
  "'d main_env \<Rightarrow> (out list \<times> stop) option \<Rightarrow> (string \<Rightarrow> M tracked \<Rightarrow> bool) \<Rightarrow> string list \<Rightarrow>
   (out list \<times> exit_status) option option" where
  "main E daemon sync argv =
     (case parse (g_stod E) (g_zero E) argv of
        Inl e \<Rightarrow> Some (parse_end e)
      | Inr arg \<Rightarrow>
          (case resolve_path E (a_path arg) of
             Inl (line, msg) \<Rightarrow> Some (Some (die (g_machine E) (loc_at ''main.cpp'' line ''main'') msg))
           | Inr path \<Rightarrow>
               (let arg = arg\<lparr>a_path := path\<rparr> in
                map_option (map_option (apfst ((#) (Signal SIGPIPE Ignore))))
                  (if a_daemon arg then
                     map_option (\<lambda>(printed, stop). map_option (Pair printed) (daemon_end (g_machine E) stop)) daemon
                   else enu_main E sync arg))))"

section \<open>After the recursion\<close>

text \<open>A descriptor that is not open cannot be read.\<close>

definition EBADF :: errno where "EBADF = Eother 9"

definition closed_reads :: "(fdtab \<Rightarrow> 'w sys_read) \<Rightarrow> bool" where
  "closed_reads rd \<longleftrightarrow> (\<forall>t w fd n. fd_get t fd = None \<longrightarrow> rd t w (int fd) n = (Inl EBADF, w))"

lemma report_closed:
  assumes "closed_reads rd" "fd_get t fd = None"
  shows "report_stderr_remote (rd t) (int fd) w = Some ([], w)"
proof -
  have "rd t w (int fd) n = (Inl EBADF, w)" for n using assms by (simp add: closed_reads_def)
  then have "read_partial (rd t) (int fd) buf 0 CHUNK_SIZE w = Some (\<lparr>io_kind = IO_Fail, n_bytes = 0\<rparr>, buf, w)" for buf
    by (simp add: read_partial_def read_loop.simps CHUNK_SIZE_def transient_def EBADF_def)
  then show ?thesis by (simp add: report_stderr_remote_def report_loop.simps)
qed

text \<open>\<open>terminate\<close> leaves the numbers of the descriptors alone and closes them, and opens none.\<close>

lemma terminate_tab:
  assumes "terminate kill waitpid (p, t) = (c, p', t')"
  shows "in_wr p' = in_wr p" "out_rd p' = out_rd p" "err_rd p' = err_rd p"
    "fd_get t i = None \<Longrightarrow> fd_get t' i = None"
    "pid p \<noteq> -1 \<Longrightarrow> i \<in> {in_wr p, out_rd p, err_rd p} \<Longrightarrow> 2 < i \<Longrightarrow> fd_get t' i = None"
proof -
  let ?r = "if kill (pid p) then wait_proc waitpid p else (1, p)"
  have fds: "in_wr (snd ?r) = in_wr p" "out_rd (snd ?r) = out_rd p" "err_rd (snd ?r) = err_rd p"
    by (simp_all add: wait_proc_def Let_def split: option.split)
  have no: "p' = p" "t' = t" if "pid p = -1" using assms that by (simp_all add: terminate_def)
  have T: "p' = snd ?r" "t' = close_all (filter (\<lambda>fd. fd \<noteq> 0 \<and> fd \<noteq> 2 \<and> fd \<noteq> 1) [in_wr p', out_rd p', err_rd p']) t"
    if "pid p \<noteq> -1"
    using assms that unfolding terminate_def by (cases ?r; simp del: filter.simps split del: if_split)+
  show "in_wr p' = in_wr p" "out_rd p' = out_rd p" "err_rd p' = err_rd p"
    using fds no(1) T(1) by (cases "pid p = -1"; simp only:)+
  show "fd_get t i = None \<Longrightarrow> fd_get t' i = None"
    using no(2) T(2) by (cases "pid p = -1") (simp_all add: fd_get_close_all del: filter.simps)
  show "fd_get t' i = None" if "pid p \<noteq> -1" "i \<in> {in_wr p, out_rd p, err_rd p}" "2 < i"
    unfolding T(2) [OF that(1)] fd_get_close_all T(1) [OF that(1)] fds using that(2,3) by auto
qed

text \<open>The program that is run for every user and host, and the failure of one, for the example.\<close>

definition ex_ssh :: Process where
  "ex_ssh = \<lparr>pid = 42, in_wr = 6, out_rd = 7, err_rd = 9\<rparr>"

definition ex_closed :: "fdtab \<Rightarrow> unit sys_read" where
  "ex_closed t w fd n = (if fd_get t (nat fd) = None then Inl EBADF else Inr (replicate n 33), w)"

lemma ex_closed_ok: "closed_reads ex_closed"
  by (simp add: closed_reads_def ex_closed_def)

section \<open>Properties\<close>

text \<open>C25. The end of \<open>sync_with_remote\<close>: it always returns, with success exactly if no task failed and
  the exit code of ssh is 0, and the descriptors of the process are closed. The report of what the
  daemon wrote to its error output is empty, whatever it wrote, because the descriptor it is
  read from has been closed before.\<close>

theorem sync_finish_exact:
  assumes "closed_reads rd" and "pid p \<noteq> -1" and "2 < err_rd p"
  shows "\<exists>t'. sync_finish rd kill waitpid ok (p, t) w =
      Some (ok \<and> fst (terminate kill waitpid (p, t)) = 0, [], t', w) \<and>
    (\<forall>i. i \<in> {in_wr p, out_rd p, err_rd p} \<and> 2 < i \<longrightarrow> fd_get t' i = None)"
proof -
  obtain c p1 t1 where T: "terminate kill waitpid (p, t) = (c, p1, t1)"
    by (cases "terminate kill waitpid (p, t)")
  obtain c2 p2 t2 where T2: "terminate kill waitpid (p1, t1) = (c2, p2, t2)"
    by (cases "terminate kill waitpid (p1, t1)")
  note closed = terminate_tab(5) [OF T assms(2)]
  have "report_stderr_remote (rd t1) (int (err_rd p1)) w = Some ([], w)"
    by (rule report_closed [OF assms(1)]) (use closed [of "err_rd p"] assms(3) terminate_tab(3) [OF T] in simp)
  then have "sync_finish rd kill waitpid ok (p, t) w = Some (ok \<and> c = 0, [], t2, w)"
    by (simp add: sync_finish_def delete_Process_def T T2)
  moreover have "fd_get t2 i = None" if "i \<in> {in_wr p, out_rd p, err_rd p}" "2 < i" for i
    by (rule terminate_tab(4) [OF T2 closed [OF that]])
  ultimately show ?thesis using T by auto
qed

theorem sync_finish_exact_witness:
  "\<exists>t'. sync_finish ex_closed (\<lambda>_. True) (\<lambda>_. Some (status_word (Exited 255))) True (ex_ssh, ex_tab @ replicate 8 (Some (3, True))) () =
     Some (False, [], t', ()) \<and> fd_get t' 9 = None"
proof -
  have "fst (terminate (\<lambda>_. True) (\<lambda>_. Some (status_word (Exited 255))) (ex_ssh, t)) = 255" for t
    by (simp add: terminate_def ex_ssh_def wait_proc_def WIFEXITED_def WTERMSIG_def WEXITSTATUS_def)
  then show ?thesis
    using sync_finish_exact [OF ex_closed_ok, of ex_ssh "\<lambda>_. True" "\<lambda>_. Some (status_word (Exited 255))" True
      "ex_tab @ replicate 8 (Some (3, True))" "()"]
    by (auto simp: ex_ssh_def)
qed

end
