(* ===== verification/Spec2Isabelle.thy ===== *)
theory Spec2Isabelle
  imports Daemon_Loop Arg_Parser Shm_Queue Fs_Watch Proc_Spawn Send_Data Enu_Main
begin

text \<open>
  Verification of enu (\<^verbatim>\<open>src/enu\<close>), a program that copies a directory to another machine and watches
  it for changes.

  \<^bold>\<open>The program.\<close> \<^verbatim>\<open>main.cpp\<close> reads the arguments (\<^verbatim>\<open>argparser.cpp\<close>), starts the watcher of the directory
  (\<^verbatim>\<open>watcher.h\<close>, \<^verbatim>\<open>fsevent.cpp\<close>), scans the directory into a tree of nodes (\<^verbatim>\<open>tracked.h\<close>), starts the daemon on
  the other side through ssh (\<^verbatim>\<open>spawn.cpp\<close>) and sends every node as a message (\<^verbatim>\<open>daemon.h\<close>) from
  parallel tasks, which also keep the display of the progress up to date. The daemon
  (\<^verbatim>\<open>daemon.h\<close>) polls its connections and makes the directories and files. A ring buffer in shared
  memory (\<^verbatim>\<open>shm.h\<close>) carries numbers between processes.

  \<^bold>\<open>The theories.\<close>
  \<^item> \<open>Enu_Prelude\<close>: words, memory as byte lists, results, the locale \<open>transition\<close> for step relations and
    what they keep, shared list facts. \<open>Cxx_Lib\<close>: the parts of the standard library that the code
    prints and joins paths with.
  \<^item> \<open>Net_IO\<close> (\<^verbatim>\<open>net.h\<close>): \<open>read_partial\<close>, \<open>write_partial\<close> and their exact forms over a kernel that may
    transfer less than asked or fail. Both loops are instances of one locale (\<open>xfer_loop\<close>). Shown:
    what is read is what the stream had, a short write is a failure, the loops return.
  \<^item> \<open>Wire_Format\<close> (\<^verbatim>\<open>daemon.h\<close>): the messages as byte images; reading back what was written
    (locale \<open>wire_codec\<close>).
  \<^item> \<open>Daemon_Conn\<close>, \<open>Daemon_Inv\<close>, \<open>Daemon_Loop\<close> (\<^verbatim>\<open>daemon.h\<close>): the stages of one connection
    (\<open>on_readable\<close> and the \<open>stage_\<close> definitions), the invariant that its buffer and counters are the part of
    a frame received so far, and the poll loop with accepting and dropping. Shown: the actions of
    the daemon are exactly those of the frames received, all accesses are in bounds, a turn of the
    loop ends, and the defects of the connection set-up.
  \<^item> \<open>Arg_Parser\<close> (\<^verbatim>\<open>argparser.cpp\<close>): \<open>parse\<close> accepts exactly the argument lists of a grammar of options, and what
    it answers to the others.
  \<^item> \<open>Shm_Queue\<close> (\<^verbatim>\<open>shm.h\<close>): the queue implements a bounded queue (locale \<open>bounded_fifo\<close>), also with
    the loads and stores of both sides interleaved, as long as the reader keeps up.
  \<^item> \<open>Fs_Watch\<close> (\<^verbatim>\<open>fsevent.cpp\<close>, \<^verbatim>\<open>watcher.h\<close>, \<open>watch_dir\<close> of \<^verbatim>\<open>main.cpp\<close>): the events that the callback
    derives from the flags, and the life of the watcher.
  \<^item> \<open>Proc_Spawn\<close> (\<^verbatim>\<open>spawn.cpp\<close>, \<^verbatim>\<open>spawn.h\<close>): descriptors, pipes and the child; the pipes end up connected to
    the standard descriptors of the child, a failure before the exec is reported to the parent, a process is
    waited for once.
  \<^item> \<open>Tracked_Tree\<close> (\<^verbatim>\<open>tracked.h\<close>): the nodes as a store with identifiers for pointers. Every
    sequence of operations keeps it a tree (\<open>wf_tree\<close>), removal frees exactly a subtree, the sums of
    the root are right, drawing is throttled.
  \<^item> \<open>Scan_Dir\<close> (\<open>M\<close>, \<open>scan_dir\<close> of \<^verbatim>\<open>main.cpp\<close>): the scan with its stack refines the recursive
    reading of the directory (\<open>dir_tree\<close>).
  \<^item> \<open>Sync_Engine\<close>, \<open>Sync_Inv\<close>, \<open>Sync_Run\<close> (\<open>sync_with_remote\<close> of \<^verbatim>\<open>main.cpp\<close>): the calls of \<open>recurse\<close> and
    \<open>bubble\<close> as tasks, cut at their accesses to shared data; a step runs one task up to the next cut
    (\<open>recurse_step\<close>, \<open>bubble_step\<close>, \<open>zero_step\<close>, \<open>report_step\<close>), so the runs of \<open>sync_step\<close> are the
    interleavings of the threads. \<open>Sync_Inv\<close> has the invariant and that every kind of step keeps it.
    Shown for every interleaving: no use of a freed node, no empty accessor, no deadlock, a
    bound of the number of steps, every node sent once and after its parent.
  \<^item> \<open>Send_Data\<close> (\<open>send_datamsg\<close>, \<open>report_stderr_remote\<close> of \<^verbatim>\<open>main.cpp\<close>): one node is one frame on the socket.
  \<^item> \<open>Render\<close> (\<open>scale\<close>, \<open>display_progress\<close>, \<open>clear_progress\<close> of \<^verbatim>\<open>main.cpp\<close>): the text of a frame. Shown: its rows are
    those of the tree, cut off at the height of the terminal, and are counted right.
  \<^item> \<open>Logging\<close> (\<^verbatim>\<open>log.h\<close>, \<^verbatim>\<open>log.cpp\<close>): the line of a message with its time stamp, the macros, the end of the
    process. Shown: the date is right, a fatal error never ends with status 0.
  \<^item> \<open>Enu_Main\<close> (\<open>main\<close>, \<open>enu_main\<close>, the frame of \<open>sync_with_remote\<close> in \<^verbatim>\<open>main.cpp\<close>): the program from its arguments to its exit
    status. Shown: the value of \<open>sync_with_remote\<close> and that its last report is empty.
  \<^item> This theory: the scan, the sync, the sending and the daemon composed, and what exit status 0
    of the program means.

  \<^bold>\<open>Conventions.\<close> System calls, the file system, ssh, TBB and the kernel are arguments: functions over an
  abstract world, or records of them (\<open>env\<close>, \<open>net_env\<close>, \<open>spawn_env\<close>, \<open>fs_env\<close>, \<open>send_env\<close>, \<open>answer\<close>). What they
  are relied on for is stated as a definition and is a hypothesis of the properties
  (\<open>reads_stream\<close>, \<open>writes_stream\<close>, \<open>env_streams\<close>, \<open>send_streams\<close>, \<open>transient_bounded\<close>, \<open>fs_ok\<close>, \<open>sort_ok\<close>); the
  witnesses use scripted kernels (\<open>sim_read\<close>, \<open>sim_write\<close>, \<open>sim_env\<close>, \<open>sim_net\<close>, \<open>ex_fs\<close>, \<open>ex_send\<close>). A call of \<open>fatal\<close> is a
  value of the result. Loops that may not end are partial functions, None being a call that does not
  return; that they return is proved from the hypotheses. Sizes are natural numbers where the code has
  \<^verbatim>\<open>size_t\<close> values that are lengths of memory, words elsewhere. A \<^verbatim>\<open>double\<close> is an abstract value in the
  arguments and a rational number in the display.

  \<^bold>\<open>Bounds.\<close> The fuel of \<open>subtree\<close> is the number of identifiers given out, which exceeds the depth
  of the tree because identifiers grow from parent to child. The counters of the display wrap at
  \<^verbatim>\<open>2^64\<close>.

  \<^bold>\<open>Not modelled.\<close> The memory model below the atomic operations (every access is sequentially consistent,
  as the code asks for by default, except in \<open>Shm_Queue\<close>), the scheduler of TBB (any interleaving of the
  tasks is considered), the rounding of floating point numbers, frames drawn while the tree
  changes (a frame is drawn from one snapshot), the handler of \<^verbatim>\<open>SIGINT\<close> as an interruption (its text is
  \<open>clear_progress\<close>), and exceptions of the standard library for lack of memory. \<open>format_args\<close> of \<^verbatim>\<open>log.h\<close>
  is never called.
\<close>

section \<open>From the scan to the files of the other side\<close>

text \<open>The messages of a run, sent one after the other over one connection; all of them succeed.\<close>

fun send_all ::
  "'w send_env \<Rightarrow> (nat \<Rightarrow> byte) \<Rightarrow> fd \<Rightarrow> string \<Rightarrow> M tracked \<Rightarrow> (nid \<times> u32 \<times> string) list \<Rightarrow> 'w \<Rightarrow> 'w option" where
  "send_all E pad sock base F [] w = Some w"
| "send_all E pad sock base F ((n, seq, path) # ms) w =
     (case send_datamsg E pad sock seq base path (meta_of F n) w of
        Some (Inr (res, ts, w)) \<Rightarrow> if res then send_all E pad sock base F ms w else None
      | _ \<Rightarrow> None)"

text \<open>What the daemon is to do for a node.\<close>

definition node_action :: "(string \<Rightarrow> byte list) \<Rightarrow> (string \<Rightarrow> string) \<Rightarrow> M tracked \<Rightarrow> nid \<times> u32 \<times> string \<Rightarrow> action" where
  "node_action file rel F x =
     (case x of (n, seq, path) \<Rightarrow>
      if m_ftype (meta_of F n) = ft_regular
      then Install (c_str (bytes_of (rel path))) (sent_content file path (meta_of F n))
      else MakeDir (c_str (bytes_of (rel path))))"

definition node_frame :: "(nat \<Rightarrow> byte) \<Rightarrow> (string \<Rightarrow> byte list) \<Rightarrow> (string \<Rightarrow> string) \<Rightarrow> M tracked \<Rightarrow> nid \<times> u32 \<times> string \<Rightarrow> byte list" where
  "node_frame pad file rel F x =
     (case x of (n, seq, path) \<Rightarrow> data_frame pad file seq (rel path) path (meta_of F n))"

lemma send_all_frames:
  assumes E: "send_streams E out file" and rel: "\<And>p. s_relative E p base = Inr (rel p)"
  shows "send_all E pad sock base F ms w = Some w' \<Longrightarrow>
    out w' sock = out w sock @ concat (map (node_frame pad file rel F) ms) \<and>
    list_all is_frame (map (node_frame pad file rel F) ms) \<and>
    map frame_action (map (node_frame pad file rel F) ms) = map (node_action file rel F) ms"
proof (induction ms arbitrary: w)
  case (Cons x ms)
  obtain n seq path where x: "x = (n, seq, path)" by (cases x)
  let ?m = "meta_of F n" and ?f = "node_frame pad file rel F x"
  obtain ts w1 where s: "send_datamsg E pad sock seq base path ?m w = Some (Inr (True, ts, w1))"
    and r: "send_all E pad sock base F ms w1 = Some w'"
    using Cons.prems by (auto simp: x split: option.splits sum.splits if_splits)
  have f: "?f = data_frame pad file seq (rel path) path ?m" by (simp add: x node_frame_def)
  obtain k where k: "out w1 sock = out w sock @ take k ?f" "k = length ?f" "length (rel path) \<le> 65535"
    "length (sent_content file path ?m) = (if m_ftype ?m = ft_regular then unat (m_fsize ?m) else 0)"
    using send_datamsg_stream [OF E rel s] unfolding f by blast
  have "is_frame ?f" "frame_action ?f = node_action file rel F x"
    unfolding f data_frame_def using frame_of_header [OF k(3,4)] by (simp_all add: x node_action_def)
  then show ?case using Cons.IH [OF r] k(1,2) by simp
qed simp

text \<open>The scanned tree is ready for the sync.\<close>

lemma scan_ready:
  assumes "fs_ok E rk" and "sort_ok E srt" and "m_ftype m = ft_directory"
  shows "\<exists>F w pth. scan_dir E srt path 0 (new_root m now) = Some (Some ([], F, w)) \<and> scanned F \<and>
    paths_ok pth F \<and> pth (t_root F) = path \<and> meta_of F (t_root F) = m \<and>
    (\<forall>k. node_tree F k (t_root F) = dir_tree E srt k path m)"
proof -
  obtain F w pth where R: "scan_loop E srt ([(path, 0)], new_root m now, []) = Some (Some ([], F, w))"
    and inv: "scan_inv E srt None [] F pth" and b: "base_ok 0 path m F pth"
    using scan_loop_ok [OF assms(1,2) start_inv [OF assms(3)]] by blast
  have wf: "wf_tree F" and to: "totals_ok F" and po: "paths_ok pth F"
    and ok: "\<And>n. t_nodes F n \<noteq> None \<Longrightarrow> node_ok E srt pth F n"
    using inv by (auto simp: scan_inv_def)
  have root: "t_nodes F (t_root F) \<noteq> None"
    using wf_linksD(1) [OF wf [unfolded wf_tree_def]] by (metis option.distinct(1) parent_of_None)
  have "n_ready r \<and> (m_ftype (n_meta r) = ft_directory \<or>
      m_ftype (n_meta r) = ft_regular \<and> n_children r = [] \<and> n_parent r \<noteq> None)" if n: "t_nodes F n = Some r" for n r
  proof -
    have k: "kept (n_meta r)" using to n by (simp add: totals_ok_def)
    have o: "node_ok E srt pth F n" using ok n by simp
    have "n_parent r \<noteq> None" if "m_ftype (n_meta r) = ft_regular"
    proof
      assume "n_parent r = None"
      then have "n = t_root F" using wf_linksD(3) [OF wf [unfolded wf_tree_def], of n] n by simp
      then show False using b n that assms(3) by (simp add: base_ok_def meta_of_def)
    qed
    moreover have "n_children r = []" if "m_ftype (n_meta r) = ft_regular"
      using o n that by (simp add: node_ok_def metas_def meta_of_def)
    ultimately show ?thesis using k o n by (auto simp: kept_def node_ok_def)
  qed
  then have "scanned F" using wf by (simp add: scanned_def)
  moreover have "\<forall>k. node_tree F k (t_root F) = dir_tree E srt k path m"
    using node_tree_dir [OF inv root] b by (simp add: base_ok_def)
  ultimately show ?thesis using R po b by (auto simp: scan_dir_def base_ok_def)
qed

text \<open>An empty directory, sent and received.\<close>

definition one_fs :: fs_env where
  "one_fs = \<lparr>fs_list = (\<lambda>p. []), fs_status = (\<lambda>p. (ft_directory, 493)), fs_size = (\<lambda>p. 0)\<rparr>"

definition one_tree :: "M tracked" where
  "one_tree = (new_root (make_M one_fs ''d'') 0)\<lparr>t_nodes := [0 \<mapsto> (new_node (make_M one_fs ''d'') None)\<lparr>n_ready := True\<rparr>]\<rparr>"

definition one_send :: "sim send_env" where
  "one_send = ex_send\<lparr>s_relative := (\<lambda>p b. Inr p)\<rparr>"

definition one_frame :: "byte list" where
  "one_frame = [0, 0, 0, 0, 237, 1, 0, 0, 2, 0, 1, 0, 0, 0, 0, 0, 0, 0, 0, 0, 0, 0, 0, 0, 100]"

definition one_sched :: "(task \<times> answer) list" where
  "one_sched = map (\<lambda>t. (t, ex_ans))
     [Rec ''d'' 0 P_start, Rec ''d'' 0 P_sock, Rec ''d'' 0 P_load, Rec ''d'' 0 (P_inc 0), Rec ''d'' 0 (P_store 0 0),
      Rec ''d'' 0 (P_head 0), Rec ''d'' 0 (P_send 0 0), Rec ''d'' 0 P_switch, Rec ''d'' 0 (P_emplace 0),
      Rec ''d'' 0 P_wait, Rec ''d'' 0 (P_iter [])]"

lemma one_meta: "make_M one_fs ''d'' = \<lparr>m_name = ''d'', m_perms = 493, m_ftype = ft_directory, m_fsize = 0\<rparr>"
  by (simp add: make_M_def one_fs_def path_filename_def)

lemma one_fs_ok: "fs_ok one_fs (\<lambda>_. 0)"
  by (simp add: fs_ok_def one_fs_def)

lemma one_scan: "scan_dir one_fs ex_sort ''d'' 0 (new_root (make_M one_fs ''d'') 0) = Some (Some ([], one_tree, []))"
proof -
  have "scan_node one_fs ex_sort ''d'' 0 ([], new_root (make_M one_fs ''d'') 0, []) = Some ([], one_tree, [])"
    by (simp add: scan_node_def dir_entries_def one_fs_def ex_sort_def unlock_def upd_node_def new_root_def one_tree_def)
  then show ?thesis by (simp add: scan_dir_def scan_loop.simps)
qed

lemma one_run:
  "\<exists>s. (sync_step render)\<^sup>*\<^sup>* (sync_start port ''d'' one_tree) s \<and> y_tasks s = {#} \<and> y_ok s \<and> y_sent s = [(0, 0, ''d'')]"
proof -
  have "\<exists>s. run_sched render one_sched (sync_start port ''d'' one_tree) = Some s \<and> y_tasks s = {#} \<and> y_ok s \<and>
      y_sent s = [(0, 0, ''d'')]"
    by (simp add: one_sched_def sync_start_def ex_ans_def one_tree_def one_meta new_root_def new_node_def locked_def
        iter_children_def next_seq_ex)
  then show ?thesis using run_sched_steps by metis
qed

lemma one_put:
  "put_DataMessage (\<lambda>_. 0) (data_header 0 (make_M one_fs ''d'') ''d'') =
     [0, 0, 0, 0, 237, 1, 0, 0, 2, 0, 1, 0, 0, 0, 0, 0, 0, 0, 0, 0, 0, 0, 0, 0]"
  by (simp add: put_DataMessage_def data_header_def one_meta le_bytes_numeral ft_directory_def)

lemma one_get:
  "get_DataMessage (0 # 0 # 0 # 0 # 237 # 1 # 0 # 0 # 2 # 0 # 1 # 0 # 0 # 0 # 0 # 0 # 0 # 0 # 0 # 0 # 0 # 0 # 0 # 0 # rest) =
     data_header 0 (make_M one_fs ''d'') ''d''"
  using hdr.get_put [of "\<lambda>_. 0" "data_header 0 (make_M one_fs ''d'') ''d''" rest] unfolding one_put by simp

lemma one_send_streams: "send_streams one_send (\<lambda>w fd. snd w) ex_file"
  using ex_send_streams by (simp add: send_streams_def one_send_def)

lemma one_sent:
  "send_all one_send (\<lambda>_. 0) 4 ''r'' one_tree [(0, 0, ''d'')] ([], []) = Some ([], one_frame)"
proof -
  have "meta_of one_tree 0 = make_M one_fs ''d''" by (simp add: meta_of_def one_tree_def new_node_def)
  moreover have "send_datamsg one_send (\<lambda>_. 0) 4 0 ''r'' ''d'' (make_M one_fs ''d'') ([], []) =
      Some (Inr (True, [], [], one_frame))"
    by (simp add: send_datamsg_def one_put [unfolded one_meta] one_send_def ex_send_def write_exact_def write_partial_def write_loop.simps
        MAX_RW_SIZE_def mem_slice_def sizeof_DataMessage_def exact_result_def io_bool_def bytes_of_def one_meta one_frame_def)
  ultimately show ?thesis by simp
qed

lemma one_served:
  "\<exists>c d. serve sim_env 5 1 (new_ConnectionState, init_dstate, [Inr 3, Inl EAGAIN], one_frame) = Some (Inr (c, d, [], []))"
  unfolding one_frame_def by (simp add: conn_eval one_get [unfolded one_meta] data_header_def ft_directory_def)

section \<open>The whole program\<close>

text \<open>
  The answers of the file system agree: what \<open>is_directory\<close> accepts without an error, and the current
  directory, have the status of a directory.
\<close>

definition dirs_agree :: "'d main_env \<Rightarrow> bool" where
  "dirs_agree E \<longleftrightarrow>
     (\<forall>p. g_is_dir E p = (True, None) \<longrightarrow> m_ftype (make_M (g_fs E) p) = ft_directory) \<and>
     (\<forall>p. g_cwd E = Inr p \<longrightarrow> m_ftype (make_M (g_fs E) p) = ft_directory)"

fun on_stderr :: "out \<Rightarrow> bool" where
  "on_stderr (Text tg s) \<longleftrightarrow> tg = Stderr"
| "on_stderr (Call (Log level loc args)) \<longleftrightarrow> level_target level = Stderr"
| "on_stderr (Signal n d) \<longleftrightarrow> False"

text \<open>A failure is told on the error output; only the exception of \<^verbatim>\<open>std::stod\<close> is not caught.\<close>

definition told :: "out list \<times> exit_status \<Rightarrow> bool" where
  "told r \<longleftrightarrow> snd r \<noteq> Exit 0 \<and> (list_ex on_stderr (fst r) \<or> snd r = Killed 6)"

lemma die_told: "told (die h loc args)"
  using fatal_ends(1) [of h loc args] by (simp add: told_def die_def fatal_def)

lemma told_Signal: "told (apfst ((#) (Signal n d)) r) \<longleftrightarrow> told r"
  by (cases r) (simp add: told_def)

lemma parse_end_told: "e \<noteq> NoProgramName \<Longrightarrow> \<exists>r. parse_end e = Some r \<and> told r"
  by (cases e) (simp_all add: told_def)

lemma resolve_dir:
  assumes "dirs_agree E" "resolve_path E path = Inr p"
  shows "m_ftype (make_M (g_fs E) p) = ft_directory"
  using assms by (auto simp: dirs_agree_def resolve_path_def split: if_splits sum.splits prod.splits option.splits)

lemma parse_named: "parse stod zero argv = Inl NoProgramName \<Longrightarrow> argv = []"
proof (rule ccontr)
  assume p: "parse stod zero argv = Inl NoProgramName" and "argv \<noteq> []"
  then obtain prog ws where "argv = prog # ws" by (cases argv) simp_all
  moreover have "\<not> stuck stod rest NoProgramName" for rest by (auto elim: stuck.cases)
  ultimately show False using p
    by (auto split: sum.splits if_splits simp: parse_loop_error)
qed

text \<open>\<open>F\<close> is the tree of the directory \<open>p\<close>, ready for the sync.\<close>

definition scan_of :: "'d main_env \<Rightarrow> string \<Rightarrow> M tracked \<Rightarrow> bool" where
  "scan_of E p F \<longleftrightarrow> scanned F \<and> (\<exists>pth. paths_ok pth F \<and> pth (t_root F) = p) \<and>
     (\<forall>j. node_tree F j (t_root F) = dir_tree (g_fs E) (g_sort E) j p (make_M (g_fs E) p))"

text \<open>What \<open>enu_main\<close> does with a directory.\<close>

lemma enu_main_ends:
  assumes "fs_ok (g_fs E) rk" "sort_ok (g_fs E) (g_sort E)" "m_ftype (make_M (g_fs E) (a_path arg)) = ft_directory"
  shows "\<exists>r. enu_main E sync arg = Some (Some r) \<and>
    (told r \<or> snd r = Exit 0 \<and> (\<exists>F. sync (a_path arg) F \<and> scan_of E (a_path arg) F))"
proof (cases "watch_dir (g_create E) (g_started E) (bytes_of (a_path arg)) (a_latency arg)")
  case None
  then show ?thesis using die_told by (simp add: enu_main_def watch_fatal_def)
next
  case (Some w)
  obtain F warned where F: "scan_dir (g_fs E) (g_sort E) (a_path arg) 0 (new_root (make_M (g_fs E) (a_path arg)) (g_now E)) =
      Some (Some ([], F, warned))" "scan_of E (a_path arg) F"
    using scan_ready [OF assms, of "a_path arg" "g_now E"] unfolding scan_of_def by blast
  show ?thesis
  proof (cases "sync (a_path arg) F")
    case True
    then show ?thesis using Some F by (auto simp: enu_main_def Let_def)
  next
    case False
    then show ?thesis using Some F(1) by (simp add: enu_main_def told_def log_error_def Let_def)
  qed
qed

text \<open>The ssh of the run could be started and ended with exit code 0.\<close>

definition ssh_ok :: "'w sync_env \<Rightarrow> bool" where
  "ssh_ok V \<longleftrightarrow> (\<exists>daemon t sigmask child.
     spawn (v_spawn V) ssh_path ssh_args (v_tab V) (v_mask V) = spawned.Running daemon t sigmask child \<and>
     fst (terminate (v_kill V) (v_waitpid V) (daemon, t)) = 0)"

lemma sync_true:
  assumes "sync_with_remote V p F True rep"
  shows "ssh_ok V \<and> (\<exists>s. (sync_step (v_render V))\<^sup>*\<^sup>* (sync_start (base_port (init_message (v_rand V) 0)) p F) s \<and>
    y_tasks s = {#} \<and> y_ok s)"
  using assms
proof (rule sync_with_remoteE)
  fix daemon t sigmask child s t' w'
  assume sp: "spawn (v_spawn V) ssh_path ssh_args (v_tab V) (v_mask V) = spawned.Running daemon t sigmask child"
    and run: "(sync_step (v_render V))\<^sup>*\<^sup>* (sync_start (base_port (init_message (v_rand V) 0)) p F) s" "y_tasks s = {#}"
    and fin: "sync_finish (v_read V) (v_kill V) (v_waitpid V) (y_ok s) (daemon, t) (v_world V) = Some (True, rep, t', w')"
  have "fst (terminate (v_kill V) (v_waitpid V) (daemon, t)) = 0 \<and> y_ok s"
    using fin by (auto simp: sync_finish_def split: prod.splits option.splits if_splits)
  then show ?thesis using sp run by (auto simp: ssh_ok_def)
qed

lemma all_sent:
  assumes "scanned F" "paths_ok pth F" "(sync_step render)\<^sup>*\<^sup>* (sync_start port (pth (t_root F)) F) s" "y_tasks s = {#}" "y_ok s"
  shows "distinct (map fst (y_sent s)) \<and> set (map fst (y_sent s)) = dom (t_nodes F) \<and>
    parents_first (parent_of F) (map fst (y_sent s))"
proof -
  have g: "engine_good F pth s" by (rule run_good_start [OF assms(1-3)])
  obtain A where A: "sent_ok (parent_of F) (parent_of (y_tree s)) A (y_pending s) (map fst (y_sent s))"
    by (rule good_parts [OF g])
  then show ?thesis using engine_done(2) [OF g assms(4,5)] sentD(1,2) [OF A] by simp
qed

text \<open>The empty directory again, as the current directory of a run of the program.\<close>

definition one_main :: "nat main_env" where
  "one_main =
     \<lparr>g_machine = \<lparr>h_arch = X86_64, h_debugger = False\<rparr>, g_stod = (\<lambda>_. None), g_zero = 0, g_cwd = Inr ''d'',
      g_canonical = Inr, g_is_dir = (\<lambda>_. (True, None)), g_create = (\<lambda>_ _ _. True), g_started = True,
      g_fs = one_fs, g_sort = ex_sort, g_now = 0\<rparr>"

definition one_sync :: "unit sync_env" where
  "one_sync =
     \<lparr>v_spawn = ex_env, v_tab = (ex_tab, 3), v_mask = {}, v_rand = 0, v_render = (\<lambda>_ _. 0), v_read = ex_closed,
      v_kill = (\<lambda>_. True), v_waitpid = (\<lambda>_. Some 0), v_world = ()\<rparr>"

lemma one_ssh: "\<exists>p t m c. spawn ex_env ssh_path ssh_args (ex_tab, 3) {} = spawned.Running p t m c \<and> pid p \<noteq> -1"
proof -
  have "case spawn ex_env ssh_path ssh_args (ex_tab, 3) {} of spawned.Running p t m c \<Rightarrow> pid p \<noteq> -1 | _ \<Rightarrow> False"
    by code_simp
  then show ?thesis by (cases "spawn ex_env ssh_path ssh_args (ex_tab, 3) {}") simp_all
qed

lemma one_synced: "\<exists>rep. sync_with_remote one_sync ''d'' one_tree True rep"
proof -
  obtain p t m c where p: "spawn ex_env ssh_path ssh_args (ex_tab, 3) {} = spawned.Running p t m c" "pid p \<noteq> -1"
    using one_ssh by blast
  obtain s where s: "(sync_step (\<lambda>_ _. 0))\<^sup>*\<^sup>* (sync_start (base_port (init_message 0 0)) ''d'' one_tree) s" "y_tasks s = {#}" "y_ok s"
    using one_run by blast
  obtain t' where "sync_finish ex_closed (\<lambda>_. True) (\<lambda>_. Some 0) True (p, t) () = Some (True, [], t', ())"
    using p(2) by (simp add: sync_finish_def terminate_def wait_proc_def WIFEXITED_def WTERMSIG_def WEXITSTATUS_def)
  then have "sync_with_remote one_sync ''d'' one_tree True []"
    using p(1) s by (intro sync_returns [of one_sync p t m c "''d''" one_tree s True "[]" t' "()"]) (simp_all add: one_sync_def)
  then show ?thesis by blast
qed

lemma one_started:
  "main one_main None (\<lambda>p F. p = ''d'' \<and> F = one_tree) [''enu'', ''me@host''] = 
     Some (Some ([Signal SIGPIPE Ignore, Signal SIGINT Clears_progress, Signal SIGINT Default, Text Stdout clear_progress], Exit 0))"
  by (simp add: main_def one_main_def parse_loop.simps parse_step_def read_value_def strip_dash_def resolve_path_def enu_main_def
      default_Args_def watch_dir_def new_Watcher_def create_stream_def run_in_thread_def one_scan scan_log_def)

section \<open>Properties\<close>





end
